(* ===== verification/Prelude.thy ===== *)
theory Prelude
  imports Main "HOL-Library.Word"
begin

text \<open>
  What every component of the development shares: the names of the machine types, the result
  type of a fallible operation, the checked \<^verbatim>\<open>usize\<close> and \<^verbatim>\<open>u64\<close> arithmetic of Rust, the
  big-endian byte conversions of Rust's integers (\<open>to_be_bytes\<close> and \<open>from_be_bytes\<close>), and the
  list operations of Rust's slices that HOL has no counterpart for. The \<open>named_theorems\<close>
  collections gather what the component proofs give to the simplifier.

  A \<^verbatim>\<open>usize\<close> is a \<open>nat\<close> at most \<open>usize_max\<close>, of a 64-bit target; a quantity that the code
  computes with a checked operation is checked here too.
\<close>

unbundle bit_operations_syntax

named_theorems std_defs "definitions of the standard-library operations the model uses"
named_theorems len_simps "lengths of encoded data"

section \<open>Machine types\<close>

type_synonym u8 = "8 word"
type_synonym u16 = "16 word"
type_synonym u32 = "32 word"
type_synonym u64 = "64 word"
type_synonym bytes = "u8 list"

definition u32_max :: nat where "u32_max = 4294967295"
definition u64_max :: nat where "u64_max = 18446744073709551615"
definition usize_max :: nat where "usize_max = 18446744073709551615"
definition i64_max :: int where "i64_max = 9223372036854775807"
definition i64_min :: int where "i64_min = -9223372036854775808"
definition i32_max :: int where "i32_max = 2147483647"
definition i32_min :: int where "i32_min = -2147483648"

lemmas machine_bounds = u32_max_def u64_max_def usize_max_def i64_max_def i64_min_def
  i32_max_def i32_min_def

section \<open>Results\<close>

text \<open>A fallible operation gives \<open>Inl\<close> its error or \<open>Inr\<close> its value; \<open>bind\<close> is the
  \<^verbatim>\<open>?\<close> operator.\<close>

definition bind :: "'e + 'a \<Rightarrow> ('a \<Rightarrow> 'e + 'b) \<Rightarrow> 'e + 'b" where
  "bind r f = (case r of Inl e \<Rightarrow> Inl e | Inr a \<Rightarrow> f a)"

lemma bind_simps [simp]:
  "bind (Inl e) f = Inl e"
  "bind (Inr a) f = f a"
  by (simp_all add: bind_def)

lemma bind_eq_Inr: "bind r f = Inr b \<longleftrightarrow> (\<exists>a. r = Inr a \<and> f a = Inr b)"
  by (cases r) auto

lemma bind_eq_Inl: "bind r f = Inl e \<longleftrightarrow> r = Inl e \<or> (\<exists>a. r = Inr a \<and> f a = Inl e)"
  by (cases r) auto

text \<open>\<open>ok_or\<close> of an option, and the collection of results that stops at the first error.\<close>

definition ok_or :: "'a option \<Rightarrow> 'e \<Rightarrow> 'e + 'a" where
  "ok_or opt e = (case opt of None \<Rightarrow> Inl e | Some a \<Rightarrow> Inr a)"

lemma ok_or_simps [simp]:
  "ok_or None e = Inl e"
  "ok_or (Some a) e = Inr a"
  by (simp_all add: ok_or_def)

lemma ok_or_eq_Inr: "ok_or opt e = Inr a \<longleftrightarrow> opt = Some a"
  by (cases opt) auto

fun collect_results :: "('a \<Rightarrow> 'e + 'b) \<Rightarrow> 'a list \<Rightarrow> 'e + 'b list" where
  "collect_results f [] = Inr []"
| "collect_results f (x # xs) =
     bind (f x) (\<lambda>y. bind (collect_results f xs) (\<lambda>ys. Inr (y # ys)))"

lemma collect_results_Inr_length:
  "collect_results f xs = Inr ys \<Longrightarrow> length ys = length xs"
  by (induction xs arbitrary: ys) (auto simp: bind_eq_Inr)

lemma collect_results_total:
  "(\<And>x. x \<in> set xs \<Longrightarrow> f x = Inr (g x)) \<Longrightarrow> collect_results f xs = Inr (map g xs)"
  by (induction xs) auto

section \<open>Checked arithmetic\<close>

definition checked_add :: "nat \<Rightarrow> nat \<Rightarrow> nat \<Rightarrow> nat option" where
  "checked_add bound a b = (if a + b \<le> bound then Some (a + b) else None)"

definition checked_mul :: "nat \<Rightarrow> nat \<Rightarrow> nat \<Rightarrow> nat option" where
  "checked_mul bound a b = (if a * b \<le> bound then Some (a * b) else None)"

lemma checked_add_Some: "checked_add bound a b = Some c \<longleftrightarrow> c = a + b \<and> a + b \<le> bound"
  by (auto simp: checked_add_def)

lemma checked_add_None: "checked_add bound a b = None \<longleftrightarrow> bound < a + b"
  by (auto simp: checked_add_def)

lemma checked_mul_Some: "checked_mul bound a b = Some c \<longleftrightarrow> c = a * b \<and> a * b \<le> bound"
  by (auto simp: checked_mul_def)

lemma checked_mul_None: "checked_mul bound a b = None \<longleftrightarrow> bound < a * b"
  by (auto simp: checked_mul_def)

lemmas checked_simps = checked_add_Some checked_add_None checked_mul_Some checked_mul_None

text \<open>\<^verbatim>\<open>try_fold\<close> of \<^verbatim>\<open>checked_mul\<close> over a list of lengths.\<close>

fun checked_product :: "nat \<Rightarrow> nat \<Rightarrow> nat list \<Rightarrow> nat option" where
  "checked_product bound acc [] = Some acc"
| "checked_product bound acc (n # ns) =
     (case checked_mul bound acc n of None \<Rightarrow> None | Some p \<Rightarrow> checked_product bound p ns)"

lemma checked_product_value:
  "checked_product bound acc ns = Some p \<Longrightarrow> p = acc * prod_list ns"
  by (induction ns arbitrary: acc) (force simp: checked_simps split: option.splits)+

lemma checked_product_bound:
  "checked_product bound acc ns = Some p \<Longrightarrow> acc \<le> bound \<Longrightarrow> p \<le> bound"
  by (induction ns arbitrary: acc) (auto simp: checked_simps split: option.splits)

lemma prod_list_pos: "(0::nat) \<notin> set ns \<Longrightarrow> 0 < prod_list ns"
  by (induction ns) auto

lemma checked_product_complete:
  assumes "acc * prod_list ns \<le> bound" and "0 \<notin> set ns"
  shows "checked_product bound acc ns = Some (acc * prod_list ns)"
  using assms
proof (induction ns arbitrary: acc)
  case Nil
  then show ?case by simp
next
  case (Cons n ns)
  have pos: "0 < prod_list ns" using Cons.prems(2) by (auto intro: prod_list_pos)
  have "acc * n * 1 \<le> acc * n * prod_list ns" using pos by (intro mult_le_mono2) simp
  also have "\<dots> \<le> bound" using Cons.prems(1) by (simp add: algebra_simps)
  finally have "acc * n \<le> bound" by simp
  then show ?case
    using Cons.IH[of "acc * n"] Cons.prems by (simp add: checked_mul_def algebra_simps)
qed

section \<open>Big-endian bytes\<close>

text \<open>
  \<open>nat_be k n\<close> is the \<open>k\<close>-byte big-endian form of \<open>n\<close>, as \<^verbatim>\<open>to_be_bytes\<close> of a \<open>8 * k\<close>-bit
  integer gives it, and \<open>be_nat\<close> is its inverse, \<^verbatim>\<open>from_be_bytes\<close>.
\<close>

fun nat_be :: "nat \<Rightarrow> nat \<Rightarrow> bytes" where
  "nat_be 0 n = []"
| "nat_be (Suc k) n = nat_be k (n div 256) @ [of_nat n]"

definition be_nat :: "bytes \<Rightarrow> nat" where
  "be_nat bs = foldl (\<lambda>acc b. acc * 256 + unat b) 0 bs"

lemma length_nat_be [simp, len_simps]: "length (nat_be k n) = k"
  by (induction k arbitrary: n) auto

lemma be_nat_simps [simp]:
  "be_nat [] = 0"
  "be_nat (bs @ [b]) = be_nat bs * 256 + unat b"
  by (simp_all add: be_nat_def)

lemma be_nat_single [simp]: "be_nat [b] = unat b"
  by (simp add: be_nat_def)

lemma be_nat_append: "be_nat (as @ bs) = be_nat as * 256 ^ length bs + be_nat bs"
proof (induction bs rule: rev_induct)
  case Nil
  then show ?case by simp
next
  case (snoc b bs)
  have "be_nat (as @ bs @ [b]) = be_nat (as @ bs) * 256 + unat b"
    by (metis append_assoc be_nat_simps(2))
  then show ?case using snoc by (simp add: algebra_simps)
qed

lemma be_nat_Cons: "be_nat (b # bs) = unat b * 256 ^ length bs + be_nat bs"
  using be_nat_append [of "[b]" bs] by simp

lemma unat_less: "unat (w :: 'a::len word) < 2 ^ LENGTH('a)"
  by (rule unsigned_less)

lemma unat_ucast_up:
  "LENGTH('a) \<le> LENGTH('b) \<Longrightarrow> unat (ucast (w :: 'a::len word) :: 'b::len word) = unat w"
  by (metis unat_less order_less_le_trans power_increasing one_le_numeral
      take_bit_nat_eq_self unsigned_ucast_eq)

lemma unat_u8_lt: "unat (b :: u8) < 256"
  using unat_less [of b] by simp

lemma unat_of_nat_u8: "unat (of_nat n :: u8) = n mod 256"
  by (simp add: unat_of_nat)

lemma be_nat_nat_be: "be_nat (nat_be k n) = n mod 256 ^ k"
proof (induction k arbitrary: n)
  case 0
  then show ?case by simp
next
  case (Suc k)
  have "n mod 256 ^ Suc k = (n div 256) mod 256 ^ k * 256 + n mod 256"
    using mod_mult2_eq [of n 256 "256 ^ k"] by simp
  then show ?case using Suc by (simp add: unat_of_nat_u8)
qed

lemma be_nat_lt: "be_nat bs < 256 ^ length bs"
proof (induction bs rule: rev_induct)
  case Nil
  then show ?case by simp
next
  case (snoc b bs)
  have "be_nat bs * 256 + unat b < (be_nat bs + 1) * 256"
    using unat_u8_lt [of b] by simp
  also have "\<dots> \<le> 256 ^ length bs * 256"
    using snoc by (intro mult_le_mono1) simp
  finally show ?case by simp
qed

lemma nat_be_be_nat: "nat_be (length bs) (be_nat bs) = bs"
proof (induction bs rule: rev_induct)
  case Nil
  then show ?case by simp
next
  case (snoc b bs)
  have "(be_nat bs * 256 + unat b) div 256 = be_nat bs"
    using unat_u8_lt [of b] by simp
  moreover have "(of_nat (be_nat bs * 256 + unat b) :: u8) = b"
    by (rule word_unat_eq_iff [THEN iffD2])
       (simp only: unat_of_nat_u8 mod_mult_self3, simp add: unat_u8_lt)
  ultimately show ?case using snoc by simp
qed

definition to_be16 :: "u16 \<Rightarrow> bytes" where "to_be16 w = nat_be 2 (unat w)"
definition to_be32 :: "u32 \<Rightarrow> bytes" where "to_be32 w = nat_be 4 (unat w)"
definition to_be64 :: "u64 \<Rightarrow> bytes" where "to_be64 w = nat_be 8 (unat w)"
definition from_be16 :: "bytes \<Rightarrow> u16" where "from_be16 bs = of_nat (be_nat bs)"
definition from_be32 :: "bytes \<Rightarrow> u32" where "from_be32 bs = of_nat (be_nat bs)"
definition from_be64 :: "bytes \<Rightarrow> u64" where "from_be64 bs = of_nat (be_nat bs)"

lemma length_to_be [simp, len_simps]:
  "length (to_be16 a) = 2" "length (to_be32 b) = 4" "length (to_be64 c) = 8"
  by (simp_all add: to_be16_def to_be32_def to_be64_def del: nat_be.simps)

lemma unat_from_be32: "length bs = 4 \<Longrightarrow> unat (from_be32 bs) = be_nat bs"
  using be_nat_lt [of bs] by (simp add: from_be32_def unat_of_nat)

lemma unat_from_be16: "length bs = 2 \<Longrightarrow> unat (from_be16 bs) = be_nat bs"
  using be_nat_lt [of bs] by (simp add: from_be16_def unat_of_nat)

lemma unat_from_be64: "length bs = 8 \<Longrightarrow> unat (from_be64 bs) = be_nat bs"
  using be_nat_lt [of bs] by (simp add: from_be64_def unat_of_nat)

lemma from_to_be [simp]:
  "from_be16 (to_be16 a) = a" "from_be32 (to_be32 b) = b" "from_be64 (to_be64 c) = c"
  using unat_less [of a] unat_less [of b] unat_less [of c]
  by (simp_all add: from_be16_def to_be16_def from_be32_def to_be32_def from_be64_def
      to_be64_def be_nat_nat_be del: nat_be.simps)

lemma to_from_be:
  "length bs = 2 \<Longrightarrow> to_be16 (from_be16 bs) = bs"
  "length bs = 4 \<Longrightarrow> to_be32 (from_be32 bs) = bs"
  "length bs = 8 \<Longrightarrow> to_be64 (from_be64 bs) = bs"
  using nat_be_be_nat [of bs]
  by (simp_all add: to_be16_def to_be32_def to_be64_def unat_from_be16 unat_from_be32
      unat_from_be64 del: nat_be.simps)

section \<open>Slices\<close>

text \<open>\<^verbatim>\<open>slice::chunks(n)\<close>: pieces of \<open>n\<close> elements, the last one shorter.\<close>

function chunks :: "nat \<Rightarrow> 'a list \<Rightarrow> 'a list list" where
  "chunks n xs = (if xs = [] \<or> n = 0 then [] else take n xs # chunks n (drop n xs))"
  by pat_completeness auto
termination by (relation "measure (\<lambda>(n, xs). length xs)") auto

declare chunks.simps [simp del]

lemma chunks_Nil [simp]: "chunks n [] = []"
  by (simp add: chunks.simps)

lemma concat_chunks: "0 < n \<Longrightarrow> concat (chunks n xs) = xs"
proof (induction n xs rule: chunks.induct)
  case (1 n xs)
  show ?case
  proof (cases "xs = []")
    case False
    with 1 show ?thesis by (subst chunks.simps) simp
  qed simp
qed

text \<open>\<^verbatim>\<open>slice::as_chunks::<N>().0\<close>: the whole pieces of \<open>n\<close> elements, the rest dropped.\<close>

function as_chunks :: "nat \<Rightarrow> 'a list \<Rightarrow> 'a list list" where
  "as_chunks n xs =
     (if n = 0 \<or> length xs < n then [] else take n xs # as_chunks n (drop n xs))"
  by pat_completeness auto
termination by (relation "measure (\<lambda>(n, xs). length xs)") auto

declare as_chunks.simps [simp del]

lemma as_chunks_short: "length xs < n \<Longrightarrow> as_chunks n xs = []"
  by (simp add: as_chunks.simps)

lemma as_chunks_Nil [simp]: "as_chunks n [] = []"
  by (subst as_chunks.simps) auto

lemma as_chunks_append_one:
  "0 < n \<Longrightarrow> length c = n \<Longrightarrow> as_chunks n (c @ xs) = c # as_chunks n xs"
  by (subst as_chunks.simps) simp

lemma as_chunks_append:
  "0 < n \<Longrightarrow> n dvd length xs \<Longrightarrow> as_chunks n (xs @ ys) = as_chunks n xs @ as_chunks n ys"
proof (induction n xs rule: as_chunks.induct)
  case (1 n xs)
  show ?case
  proof (cases "length xs < n")
    case True
    with "1.prems" have "xs = []" by (auto dest: dvd_imp_le)
    then show ?thesis by simp
  next
    case False
    have "n dvd length (drop n xs)"
      using "1.prems" False by (simp add: dvd_diff_nat)
    then have "as_chunks n (drop n xs @ ys) = as_chunks n (drop n xs) @ as_chunks n ys"
      using "1.IH" "1.prems" False by simp
    then show ?thesis
      using "1.prems" False by (simp add: as_chunks.simps [of n "xs @ ys"] as_chunks.simps [of n xs])
  qed
qed

lemma as_chunks_length: "c \<in> set (as_chunks n xs) \<Longrightarrow> length c = n"
proof (induction n xs rule: as_chunks.induct)
  case (1 n xs)
  show ?case
  proof (cases "n = 0 \<or> length xs < n")
    case True
    with "1.prems" show ?thesis by (simp add: as_chunks.simps [of n xs])
  next
    case False
    with "1.prems" have "c = take n xs \<or> c \<in> set (as_chunks n (drop n xs))"
      by (simp add: as_chunks.simps [of n xs])
    with "1.IH" False show ?thesis by auto
  qed
qed

lemma concat_as_chunks: "0 < n \<Longrightarrow> n dvd length xs \<Longrightarrow> concat (as_chunks n xs) = xs"
proof (induction n xs rule: as_chunks.induct)
  case (1 n xs)
  show ?case
  proof (cases "length xs < n")
    case True
    with "1.prems" have "xs = []" by (auto dest: dvd_imp_le)
    then show ?thesis by simp
  next
    case False
    with 1 show ?thesis by (subst as_chunks.simps) (simp add: dvd_diff_nat)
  qed
qed

lemma as_chunks_concat:
  "0 < n \<Longrightarrow> (\<And>x. length (f x) = n) \<Longrightarrow> as_chunks n (concat (map f xs)) = map f xs"
  by (induction xs) (auto simp: as_chunks_append_one)

end
