(* ===== verification/Fits_Types.thy ===== *)
theory Fits_Types
  imports Prelude
begin

text \<open>
  The enumerations the whole crate shares and the error type of its results:
  \<^verbatim>\<open>src/fits_error.rs\<close>, with the payload types its variants carry (\<^verbatim>\<open>Bitpix\<close>, \<^verbatim>\<open>HduKind\<close>,
  \<^verbatim>\<open>DescriptorWidth\<close>, \<^verbatim>\<open>ElementKind\<close>, \<^verbatim>\<open>RecordName\<close>). A Rust \<^verbatim>\<open>String\<close> of header text is a
  \<open>string\<close>, one \<open>char\<close> for each byte. A struct variant lists its fields in the source's order.
  The variants that only modules outside the model raise (the world coordinates, the ASCII
  tables, the column reads) are left out, and so are the message texts of \<^verbatim>\<open>Display\<close>.
\<close>

section \<open>Shared enumerations\<close>

datatype bitpix = U8 | I16 | I32 | I64 | F32 | F64

datatype hdu_kind =
    Primary
  | ImageExt
  | AsciiTable
  | BinTable
  | CompressedImage
  | CompressedTable
  | RandomGroups
  | OtherExt

datatype descriptor_width = P | Q

datatype element_kind =
    LogicalE
  | BitE
  | CharacterE
  | ByteE
  | I16E
  | I32E
  | I64E
  | F32E
  | F64E
  | C32E
  | C64E

datatype record_name =
    KeywordName string
  | HierarchName string
  | CommentaryName string

section \<open>The enumerations an error carries\<close>

datatype indexed = IxHdu | IxHeaderRecord | IxColumn | IxGroup | IxWcsAxis

datatype value_kind = KLogical | KInteger | KReal | KText | KComplex

datatype numeric_target = TargetI64 | TargetU64 | TargetI128 | TargetF64

datatype keyword_defect = Syntax | RangeDefect | Structure

datatype non_finite = NonFiniteReal | NonFiniteComplex

datatype text_origin =
    ValueText record_name
  | CommentText record_name
  | ColumnName
  | ColumnUnit
  | NullMarker
  | Cell
  | TableData

datatype ranked = ImageRegion | TileShape | WcsCoordinate | BinFactors

datatype size_unit = Bytes | Samples | Rows

datatype defect = NameDefect | ValueDefect

datatype plio_defect = ListBounds | NegativeHeader | Opcode

datatype hcompress_defect =
    Magic
  | NegativeDimension
  | TileDimensions
  | BitPlaneCount
  | BitPlaneEnd
  | FormatCode
  | CoefficientOverflow

datatype tile_cell = Compressed | Uncompressed

datatype compressed_data_defect =
    GzipHeader
  | GzipStream
  | GzipTruncated
  | GzipChecksum
  | GzipOverrun
  | RiceBitField nat
  | PlioCase plio_defect
  | HcompressCase hcompress_defect
  | NullMask
  | EmptyTileCell
  | CellElement tile_cell element_kind
  | ValueOutOfRange

datatype compression_feature =
    HcompressDimensions
  | LossyHcompressNulls
  | HcompressNullMask
  | HcompressScaleFeature
  | HcompressTileSide nat
  | HcompressRange
  | PlioListLength nat
  | TableCodec string
  | ColumnCodec string
  | RiceColumn char

datatype compression_parameter =
    GzipLevel nat
  | DitherSeed nat
  | IntegerQuantization
  | TableQuantization
  | TableWithoutCodec
  | EmptyTile nat
  | HcompressDither2

datatype descriptor_field = CountField | OffsetField

section \<open>The error\<close>

datatype (plugins only: code) fits_error =
    Io
  | WriterFailed
  | PrimaryAlreadyWritten
  | InvalidKeyword string
  | InvalidAlternate char
  | ReservedName record_name
  | AmbiguousCommentary string
  | InvalidHeaderValue record_name non_finite
  | HeaderCardTooLong record_name nat
  | InvalidValue "record_name option" defect
  | ValueTypeMismatch record_name value_kind
  | InvalidDatetime "string option"
  | TimeOutOfRange
  | InvalidCompressionParameter compression_parameter
  | InvalidAscii text_origin
  | InvalidBitpix int
  | MissingEnd
  | MissingKeyword record_name
  | InvalidKeywordValue string keyword_defect
  | IntegerOutOfRange "record_name option" string numeric_target
  | UnexpectedEof
  | DataUnitOverflow
  | DataUnitTooLarge nat
  | DataSizeMismatch size_unit nat nat
  | DescriptorOutOfRange descriptor_width nat nat
  | InvalidPqDescriptor descriptor_field int
  | IndexOutOfBounds indexed nat nat
  | RankMismatch ranked nat nat
  | ImageRegionOutOfBounds nat nat nat nat
  | RowRangeOutOfBounds nat nat nat
  | OneBasedIndexRequired indexed
  | HeaderDoesNotFit nat nat
  | TrailingContent nat nat
  | HduKindChange hdu_kind hdu_kind
  | DefectiveHdu nat fits_error
  | ChunkTypeMismatch bitpix bitpix
  | TableRowCountMismatch string nat nat
  | TableRowCountUndetermined string
  | ImageHasGroups
  | HduNotFound string "int option" "int option"
  | HcompressTileTooSmall nat nat
  | UnsupportedCompression compression_feature
  | CorruptCompressedData compressed_data_defect
  | PlioValueOutOfRange nat int
  | InvalidTform string
  | ColumnNotFound string
  | RowWidthMismatch nat nat

type_synonym 'a fits_result = "fits_error + 'a"

text \<open>
  Where the code can also panic (\<^verbatim>\<open>unreachable!\<close>, \<^verbatim>\<open>expect\<close>, an index out of bounds), a \<open>run\<close> tells
  the panic from an error, and \<open>attempt\<close> takes a result that cannot panic for one.
\<close>

datatype (plugins only: code) failure = Err fits_error | Panic

type_synonym 'a run = "failure + 'a"

definition attempt :: "'a fits_result \<Rightarrow> 'a run" where
  "attempt r = (case r of Inl e \<Rightarrow> Inl (Err e) | Inr a \<Rightarrow> Inr a)"

lemma attempt_simps [simp]: "attempt (Inl e) = Inl (Err e)" "attempt (Inr a) = Inr a"
  by (simp_all add: attempt_def)

lemma attempt_eq_Inr: "attempt r = Inr a \<longleftrightarrow> r = Inr a"
  by (cases r) auto

lemma attempt_not_panic [simp]: "attempt r \<noteq> Inl Panic"
  by (cases r) auto

text \<open>\<^verbatim>\<open>SizeUnit::mismatch\<close>, and the conversions of a codec's defect into the error.\<close>

definition mismatch :: "size_unit \<Rightarrow> nat \<Rightarrow> nat \<Rightarrow> fits_error" where
  "mismatch unit expected got = DataSizeMismatch unit expected got"

definition from_compressed_data_defect :: "compressed_data_defect \<Rightarrow> fits_error" where
  "from_compressed_data_defect d = CorruptCompressedData d"

definition from_plio_defect :: "plio_defect \<Rightarrow> fits_error" where
  "from_plio_defect d = from_compressed_data_defect (PlioCase d)"

definition from_hcompress_defect :: "hcompress_defect \<Rightarrow> fits_error" where
  "from_hcompress_defect d = from_compressed_data_defect (HcompressCase d)"

end
