(* ===== verification/Blocks.thy ===== *)
theory Blocks
  imports Fits_Types
begin

text \<open>
  The 2880-byte block grid of \<^verbatim>\<open>src/block/mod.rs\<close> and the fallible allocation of
  \<^verbatim>\<open>src/allocation/mod.rs\<close>. A length is a \<open>nat\<close> within \<open>u64\<close>; the lemmas give the rounding its
  characterisation (the least multiple of the block that holds the length) and show that the
  writer's \<open>padding\<close> and the reader's \<open>padded_len\<close> agree.
\<close>

definition BLOCK_SIZE :: nat where "BLOCK_SIZE = 2880"
definition CARD_SIZE :: nat where "CARD_SIZE = 80"
definition RECORDS_PER_BLOCK :: nat where "RECORDS_PER_BLOCK = BLOCK_SIZE div CARD_SIZE"
definition SPACE_FILL :: u8 where "SPACE_FILL = 32"
definition ZERO_FILL :: u8 where "ZERO_FILL = 0"

definition blocks_for :: "nat \<Rightarrow> nat" where
  "blocks_for len = (len + BLOCK_SIZE - 1) div BLOCK_SIZE"

definition padded_len :: "nat \<Rightarrow> nat option" where
  "padded_len len = checked_mul u64_max (blocks_for len) BLOCK_SIZE"

definition padding :: "nat \<Rightarrow> nat" where
  "padding len = (BLOCK_SIZE - len mod BLOCK_SIZE) mod BLOCK_SIZE"

lemma blocks_for_cases:
  "blocks_for len = (if len mod BLOCK_SIZE = 0 then len div BLOCK_SIZE
     else len div BLOCK_SIZE + 1)"
proof -
  obtain q r where len: "len = q * 2880 + r" and r: "r < 2880"
    by (metis div_mult_mod_eq mod_less_divisor zero_less_numeral)
  show ?thesis
  proof (cases "r = 0")
    case True
    then show ?thesis by (simp add: len blocks_for_def BLOCK_SIZE_def)
  next
    case False
    have "(q * 2880 + r + 2880 - 1) div 2880 = ((r - 1) + (q + 1) * 2880) div 2880"
      using False by (intro arg_cong2 [where f = "(div)"]) auto
    also have "\<dots> = (r - 1) div 2880 + (q + 1)"
      by (subst div_mult_self1) auto
    also have "\<dots> = q + 1" using r by simp
    finally show ?thesis using False r by (simp add: len blocks_for_def BLOCK_SIZE_def)
  qed
qed

lemma padding_cases:
  "padding len = (if len mod BLOCK_SIZE = 0 then 0 else BLOCK_SIZE - len mod BLOCK_SIZE)"
  by (simp add: padding_def BLOCK_SIZE_def)

lemma padding_blocks: "len + padding len = blocks_for len * BLOCK_SIZE"
proof -
  have split: "len div BLOCK_SIZE * BLOCK_SIZE + len mod BLOCK_SIZE = len"
    by (rule div_mult_mod_eq)
  have lt: "len mod BLOCK_SIZE < BLOCK_SIZE" by (simp add: BLOCK_SIZE_def)
  show ?thesis
  proof (cases "len mod BLOCK_SIZE = 0")
    case True
    then show ?thesis using split by (simp add: padding_cases blocks_for_cases)
  next
    case False
    then have "padding len = BLOCK_SIZE - len mod BLOCK_SIZE" by (simp add: padding_cases)
    then have "len + padding len = len div BLOCK_SIZE * BLOCK_SIZE + BLOCK_SIZE"
      using split lt by linarith
    then show ?thesis using False by (simp add: blocks_for_cases)
  qed
qed

lemma padding_lt: "padding len < BLOCK_SIZE"
  by (simp add: padding_def BLOCK_SIZE_def)

lemma blocks_for_bounds:
  "len \<le> blocks_for len * BLOCK_SIZE" "blocks_for len * BLOCK_SIZE < len + BLOCK_SIZE"
  using padding_lt [of len] by (simp_all flip: padding_blocks)

lemma blocks_for_least:
  assumes "len \<le> n * BLOCK_SIZE"
  shows "blocks_for len \<le> n"
proof (rule ccontr)
  assume "\<not> blocks_for len \<le> n"
  then have "(n + 1) * BLOCK_SIZE \<le> blocks_for len * BLOCK_SIZE"
    by (intro mult_le_mono1) simp
  then show False using blocks_for_bounds(2) [of len] assms by simp
qed

lemma padding_dvd: "BLOCK_SIZE dvd len + padding len"
  by (simp add: padding_blocks)

lemma padded_len_eq: "padded_len len = Some p \<longleftrightarrow> p = len + padding len \<and> p \<le> u64_max"
  by (auto simp: padded_len_def checked_simps padding_blocks)

section \<open>Fallible allocation\<close>

text \<open>
  \<^verbatim>\<open>Vec::try_reserve\<close> asks the allocator, which may refuse: the allocator is the parameter
  \<open>grant\<close>, of the number of bytes that the vector's whole buffer would take. A \<^verbatim>\<open>Vec\<close> is its
  elements; its capacity is not modelled but in \<open>try_grow_to\<close>, where it is an argument.
\<close>

definition allocation_bytes :: "nat \<Rightarrow> nat \<Rightarrow> nat" where
  "allocation_bytes elem_size len = min u64_max (len * elem_size)"

definition try_reserve :: "(nat \<Rightarrow> bool) \<Rightarrow> nat \<Rightarrow> 'a list \<Rightarrow> nat \<Rightarrow> unit fits_result" where
  "try_reserve grant elem_size values additional =
     (case checked_add usize_max (length values) additional of
        None \<Rightarrow> Inl DataUnitOverflow
      | Some requested \<Rightarrow>
          (if grant (requested * elem_size) then Inr ()
           else Inl (DataUnitTooLarge (allocation_bytes elem_size requested))))"

text \<open>\<^verbatim>\<open>try_reserve_exact\<close> differs in the room it leaves past the elements, which is no part of the
  model.\<close>

definition try_reserve_exact :: "(nat \<Rightarrow> bool) \<Rightarrow> nat \<Rightarrow> 'a list \<Rightarrow> nat \<Rightarrow> unit fits_result" where
  "try_reserve_exact grant elem_size values additional = try_reserve grant elem_size values additional"

definition try_grow_to ::
  "(nat \<Rightarrow> bool) \<Rightarrow> nat \<Rightarrow> 'a list \<Rightarrow> nat \<Rightarrow> nat \<Rightarrow> unit fits_result" where
  "try_grow_to grant elem_size values capacity wanted =
     (if capacity < wanted then try_reserve_exact grant elem_size values (wanted - length values)
      else Inr ())"

definition resize_list :: "nat \<Rightarrow> 'a \<Rightarrow> 'a list \<Rightarrow> 'a list" where
  "resize_list len v values = take len values @ replicate (len - length values) v"

definition try_resize ::
  "(nat \<Rightarrow> bool) \<Rightarrow> nat \<Rightarrow> 'a list \<Rightarrow> nat \<Rightarrow> 'a \<Rightarrow> 'a list fits_result" where
  "try_resize grant elem_size values len v =
     bind (if length values < len
           then try_reserve_exact grant elem_size values (len - length values) else Inr ())
       (\<lambda>_. Inr (resize_list len v values))"

definition try_zeroed :: "(nat \<Rightarrow> bool) \<Rightarrow> nat \<Rightarrow> 'a \<Rightarrow> nat \<Rightarrow> 'a list fits_result" where
  "try_zeroed grant elem_size v len = try_resize grant elem_size [] len v"

lemma length_resize_list [simp, len_simps]: "length (resize_list len v values) = len"
  by (simp add: resize_list_def)

lemma try_zeroed_Inr: "try_zeroed grant n v len = Inr xs \<Longrightarrow> xs = replicate len v"
  by (auto simp: try_zeroed_def try_resize_def bind_eq_Inr resize_list_def)

end
