(* ===== verification/Checksum.thy ===== *)
theory Checksum
  imports Blocks "HOL-Library.Multiset"
begin

text \<open>
  The \<^verbatim>\<open>CHECKSUM\<close>/\<^verbatim>\<open>DATASUM\<close> sum of \<^verbatim>\<open>src/checksum/mod.rs\<close> and \<^verbatim>\<open>src/checksum/running.rs\<close>: the
  32-bit ones'-complement sum of big-endian words. \<open>accumulate\<close> adds the words in a 64-bit total
  and folds its carries once, \<open>combine\<close> adds two sums with an end-around carry, \<open>Running\<close> takes
  bytes in pieces of any length, and \<open>encode\<close> writes the complement of a sum in 16 ASCII
  characters. Sums are words of their own width, so that every wrap-around of the code is one of
  the model.

  The abstract specification is \<open>rep\<close>, the representative of a natural number modulo
  \<open>2 ^ 32 - 1\<close> that is 0 only for 0. The locale \<open>carry_sum\<close> states what the reader, the writer
  and the running sum rely on of \<open>combine\<close>; its interpretation is \<open>cs\<close>.
\<close>

section \<open>The code\<close>

definition WORDS_PER_FOLD :: nat where "WORDS_PER_FOLD = 2 ^ 31"

definition PLACEHOLDER :: string where "PLACEHOLDER = ''0000000000000000''"

text \<open>\<^verbatim>\<open>while total > 0xFFFF_FFFF { total = (total & 0xFFFF_FFFF) + (total >> 32) }\<close>.\<close>

lemma fold_step_less:
  fixes t :: u64
  assumes "t > 0xFFFFFFFF"
  shows "unat ((t AND 0xFFFFFFFF) + drop_bit 32 t) < unat t"
    and "unat ((t AND 0xFFFFFFFF) + drop_bit 32 t) = unat t mod 2 ^ 32 + unat t div 2 ^ 32"
proof -
  have m: "(0xFFFFFFFF :: u64) = mask 32" by (simp add: mask_eq_exp_minus_1)
  have lo: "unat (t AND 0xFFFFFFFF) = unat t mod 2 ^ 32"
    unfolding m by (simp add: take_bit_eq_mask [symmetric] unsigned_take_bit_eq take_bit_eq_mod unat_mod)
  have hi: "unat (drop_bit 32 t) = unat t div 2 ^ 32"
    by (simp add: unsigned_drop_bit_eq drop_bit_eq_div unat_div)
  have big: "unat t > 2 ^ 32 - 1"
    using assms by (simp add: word_less_nat_alt)
  have tl: "unat t < 2 ^ 64" using unat_less [of t] by simp
  have split: "unat t div 4294967296 * 4294967296 + unat t mod 4294967296 = unat t"
    by (rule div_mult_mod_eq)
  have q: "unat t div 4294967296 \<ge> 1" using big by (simp add: Suc_leI div_greater_zero_iff)
  have "unat t mod 4294967296 + unat t div 4294967296 < unat t"
    using split q by linarith
  then have lt: "unat t mod 2 ^ 32 + unat t div 2 ^ 32 < unat t" by simp
  have sum: "unat ((t AND 0xFFFFFFFF) + drop_bit 32 t) = unat t mod 2 ^ 32 + unat t div 2 ^ 32"
    using lo hi lt tl by (simp add: unat_word_ariths)
  then show "unat ((t AND 0xFFFFFFFF) + drop_bit 32 t) = unat t mod 2 ^ 32 + unat t div 2 ^ 32" .
  show "unat ((t AND 0xFFFFFFFF) + drop_bit 32 t) < unat t"
    using sum lt by simp
qed

function fold_carries :: "u64 \<Rightarrow> u64" where
  "fold_carries tot =
     (if tot > 0xFFFFFFFF then fold_carries ((tot AND 0xFFFFFFFF) + drop_bit 32 tot)
      else tot)"
  by pat_completeness auto
termination
  by (relation "measure unat") (auto intro: fold_step_less(1))

declare fold_carries.simps [simp del]

definition fold_u32 :: "u64 \<Rightarrow> u32" where
  "fold_u32 tot = ucast (fold_carries tot)"

definition accumulate :: "bytes \<Rightarrow> u32 \<Rightarrow> u32" where
  "accumulate bs seed =
     foldl (\<lambda>s block.
        fold_u32 (foldl (\<lambda>tot word. tot + ucast (from_be32 word)) (ucast s) block))
       seed (chunks WORDS_PER_FOLD (as_chunks 4 bs))"

definition combine :: "u32 \<Rightarrow> u32 \<Rightarrow> u32" where
  "combine left right =
     (let s = left + right; carry = unat left + unat right > u32_max
      in s + (if carry then 1 else 0))"

section \<open>The representative modulo 2^32 - 1\<close>

definition rep :: "nat \<Rightarrow> nat" where
  "rep n = (if n = 0 then 0 else (n - 1) mod u32_max + 1)"

lemma u32_max_pos: "0 < u32_max"
  by (simp add: u32_max_def)

lemma rep_0 [simp]: "rep 0 = 0"
  by (simp add: rep_def)

lemma rep_eq_0: "rep n = 0 \<longleftrightarrow> n = 0"
  by (simp add: rep_def)

lemma rep_le: "rep n \<le> u32_max"
  using mod_less_divisor [OF u32_max_pos, of "n - 1"] by (simp add: rep_def)

lemma rep_small: "n \<le> u32_max \<Longrightarrow> rep n = n"
  by (auto simp: rep_def)

lemma rep_add_multiple: "0 < n \<Longrightarrow> rep (n + k * u32_max) = rep n"
proof -
  assume n: "0 < n"
  have "n + k * u32_max - 1 = (n - 1) + k * u32_max" using n by simp
  then have "(n + k * u32_max - 1) mod u32_max = (n - 1) mod u32_max"
    by (simp only: mod_mult_self1)
  then show ?thesis using n by (simp add: rep_def)
qed

lemma rep_decompose: "\<exists>k. n = rep n + k * u32_max"
proof (cases "n = 0")
  case True
  then show ?thesis by (intro exI [of _ 0]) simp
next
  case False
  have "(n - 1) div u32_max * u32_max + (n - 1) mod u32_max = n - 1"
    by (rule div_mult_mod_eq)
  then have "n = (n - 1) mod u32_max + 1 + (n - 1) div u32_max * u32_max"
    using False by linarith
  then show ?thesis using False
    by (intro exI [of _ "(n - 1) div u32_max"]) (simp add: rep_def)
qed

lemma rep_add_rep: "rep (rep a + b) = rep (a + b)"
proof (cases "a = 0")
  case True
  then show ?thesis by simp
next
  case False
  obtain k where k: "a = rep a + k * u32_max" using rep_decompose by blast
  have pos: "0 < rep a + b" using False rep_eq_0 [of a] by simp
  have "rep (a + b) = rep ((rep a + b) + k * u32_max)"
    using k by (metis add.assoc add.commute)
  also have "\<dots> = rep (rep a + b)" by (rule rep_add_multiple [OF pos])
  finally show ?thesis by simp
qed

lemma rep_add_rep2: "rep (a + rep b) = rep (a + b)"
  using rep_add_rep [of b a] by (simp add: add.commute)

lemma fold_carries_rep: "unat (fold_carries t) = rep (unat t)"
proof (induction t rule: fold_carries.induct)
  case (1 t)
  show ?case
  proof (cases "t > 0xFFFFFFFF")
    case True
    let ?t' = "(t AND 0xFFFFFFFF) + drop_bit 32 t"
    have v: "unat ?t' = unat t mod 2 ^ 32 + unat t div 2 ^ 32"
      by (rule fold_step_less(2) [OF True])
    have big: "unat t > u32_max"
      using True by (simp add: word_less_nat_alt u32_max_def)
    have split: "unat t div 2 ^ 32 * 2 ^ 32 + unat t mod 2 ^ 32 = unat t"
      by (rule div_mult_mod_eq)
    have q: "unat t div 2 ^ 32 \<ge> 1"
      using big by (simp add: Suc_leI div_greater_zero_iff u32_max_def)
    have "unat t = unat ?t' + unat t div 2 ^ 32 * u32_max"
      using v split by (simp add: u32_max_def)
    then have "rep (unat t) = rep (unat ?t')"
      using rep_add_multiple [of "unat ?t'" "unat t div 2 ^ 32"] v q by simp
    then show ?thesis using 1 True by (simp add: fold_carries.simps [of t])
  next
    case False
    then have "unat t \<le> u32_max" by (simp add: word_less_nat_alt u32_max_def)
    then show ?thesis using False by (simp add: fold_carries.simps [of t] rep_small)
  qed
qed

lemma fold_rep: "unat (fold_u32 t) = rep (unat t)"
  using rep_le [of "unat t"]
  by (simp add: fold_u32_def unsigned_ucast_eq fold_carries_rep u32_max_def take_bit_nat_eq_self)

lemma combine_rep: "unat (combine a b) = rep (unat a + unat b)"
proof -
  have la: "unat a < 2 ^ 32" and lb: "unat b < 2 ^ 32" using unat_less [of a] unat_less [of b] by auto
  show ?thesis
  proof (cases "unat a + unat b > u32_max")
    case True
    have s: "unat (a + b) = unat a + unat b - 2 ^ 32"
      using True la lb by (simp add: unat_word_ariths u32_max_def mod_if)
    have n: "unat a + unat b - u32_max \<le> u32_max"
      using la lb by (simp add: u32_max_def)
    have "unat (a + b + 1) = unat a + unat b - u32_max"
      using s True la lb by (simp add: unat_word_ariths(1) [of "a + b"] u32_max_def)
    moreover have "rep (unat a + unat b) = rep (unat a + unat b - u32_max + 1 * u32_max)"
      using True by simp
    moreover have "\<dots> = unat a + unat b - u32_max"
      using True by (subst rep_add_multiple) (auto intro!: rep_small n)
    ultimately show ?thesis using True by (simp add: combine_def Let_def)
  next
    case False
    then have "unat (a + b) = unat a + unat b"
      by (simp add: unat_word_ariths u32_max_def)
    then show ?thesis using False
      by (simp add: combine_def Let_def rep_small u32_max_def)
  qed
qed

section \<open>The interface of the sum\<close>

text \<open>
  What the callers of \<open>combine\<close> rely on: sums add in any grouping and any order, and 0 is
  neutral. The reader combines a header's sum with a data unit's, the image stream a sum of
  ranges in the order it reads them.
\<close>

locale carry_sum =
  fixes add :: "'a \<Rightarrow> 'a \<Rightarrow> 'a" and zero :: 'a
  assumes add_assoc: "add (add a b) c = add a (add b c)"
    and add_commute: "add a b = add b a"
    and add_zero: "add zero a = a"
begin

lemma add_zero_right: "add a zero = a"
  by (metis add_commute add_zero)

lemma foldl_start: "foldl add a xs = add a (foldl add zero xs)"
proof (induction xs arbitrary: a)
  case Nil
  then show ?case by (simp add: add_zero_right)
next
  case (Cons x xs)
  have "foldl add (add a x) xs = add (add a x) (foldl add zero xs)" by (rule Cons)
  also have "\<dots> = add a (add x (foldl add zero xs))" by (rule add_assoc)
  also have "add x (foldl add zero xs) = foldl add (add zero x) xs"
    using Cons [of "add zero x"] by (simp add: add_zero)
  finally show ?case by simp
qed

lemma foldl_concat: "foldl add a (xs @ ys) = add (foldl add a xs) (foldl add zero ys)"
  by (simp add: foldl_start [of "foldl add a xs" ys])

lemma foldl_permute: "mset xs = mset ys \<Longrightarrow> foldl add a xs = foldl add a ys"
proof (induction xs arbitrary: ys a)
  case Nil
  then show ?case by simp
next
  case (Cons x xs)
  then have "x \<in> set ys" by (metis list.set_intros(1) set_mset_mset)
  then obtain us vs where ys: "ys = us @ x # vs" by (meson split_list)
  have "foldl add (add a x) xs = foldl add (add a x) (us @ vs)"
    using Cons.prems by (intro Cons.IH) (simp add: ys)
  also have "\<dots> = foldl add a ys"
    unfolding ys foldl_concat foldl_start [of a] foldl_start [of "add a x"]
    by (simp add: add_zero foldl_start [of x vs])
       (metis add_assoc add_commute)
  finally show ?case by simp
qed

end

lemma unat_u32_eq: "unat (a :: u32) = unat b \<Longrightarrow> a = b"
  by (simp add: word_unat_eq_iff)

lemma unat_u32_le: "unat (a :: u32) \<le> u32_max"
  using unat_less [of a] by (simp add: u32_max_def)

interpretation cs: carry_sum combine 0
proof unfold_locales
  fix a b c :: u32
  show "combine (combine a b) c = combine a (combine b c)"
    by (rule unat_u32_eq) (simp add: combine_rep rep_add_rep rep_add_rep2 add.assoc)
  show "combine a b = combine b a"
    by (rule unat_u32_eq) (simp add: combine_rep add.commute)
  show "combine 0 a = a"
    by (rule unat_u32_eq) (simp add: combine_rep rep_small unat_u32_le)
qed

section \<open>The deferred carries\<close>

definition be_words :: "bytes \<Rightarrow> u32 list" where
  "be_words bs = map from_be32 (as_chunks 4 bs)"

definition word_total :: "bytes \<Rightarrow> nat" where
  "word_total bs = sum_list (map be_nat (as_chunks 4 bs))"

lemma chunks_length: "c \<in> set (chunks n xs) \<Longrightarrow> length c \<le> n"
proof (induction n xs rule: chunks.induct)
  case (1 n xs)
  show ?case
  proof (cases "xs = [] \<or> n = 0")
    case True
    with "1.prems" show ?thesis by (simp add: chunks.simps [of n xs])
  next
    case False
    with "1.prems" have "c = take n xs \<or> c \<in> set (chunks n (drop n xs))"
      by (simp add: chunks.simps [of n xs])
    with "1.IH" False show ?thesis by auto
  qed
qed

text \<open>No addition of a block wraps: its total stays below \<open>2 ^ 64\<close>.\<close>

lemma block_total:
  assumes "unat t + sum_list (map (\<lambda>w. unat (from_be32 w)) block) < 2 ^ 64"
  shows "unat (foldl (\<lambda>tot word. tot + ucast (from_be32 word)) (t :: u64) block)
    = unat t + sum_list (map (\<lambda>w. unat (from_be32 w)) block)"
  using assms
proof (induction block arbitrary: t)
  case Nil
  then show ?case by simp
next
  case (Cons w block)
  have u: "unat (ucast (from_be32 w) :: u64) = unat (from_be32 w)"
    by (rule unat_ucast_up) simp
  have s: "unat (t + ucast (from_be32 w)) = unat t + unat (from_be32 w)"
    using Cons.prems u by (simp add: unat_word_ariths)
  then show ?case using Cons by simp
qed

lemma block_sum_bound:
  "sum_list (map (\<lambda>w. unat (from_be32 w)) block) \<le> length block * u32_max"
  by (induction block) (auto intro: add_mono unat_u32_le)

lemma block_fold:
  fixes s :: u32
  assumes "length block \<le> WORDS_PER_FOLD"
  shows "unat (fold_u32 (foldl (\<lambda>tot word. tot + ucast (from_be32 word)) (ucast s) block))
    = rep (unat s + sum_list (map (\<lambda>w. unat (from_be32 w)) block))"
proof -
  have u: "unat (ucast s :: u64) = unat s"
    by (rule unat_ucast_up) simp
  have "sum_list (map (\<lambda>w. unat (from_be32 w)) block) \<le> length block * u32_max"
    by (rule block_sum_bound)
  also have "\<dots> \<le> 2 ^ 31 * u32_max"
    using assms by (intro mult_le_mono1) (simp add: WORDS_PER_FOLD_def)
  finally have b: "sum_list (map (\<lambda>w. unat (from_be32 w)) block) \<le> 2 ^ 31 * u32_max" .
  have "unat s \<le> u32_max" by (rule unat_u32_le)
  then have "unat s + sum_list (map (\<lambda>w. unat (from_be32 w)) block) < 2 ^ 64"
    using b by (simp add: u32_max_def)
  then show ?thesis by (simp add: fold_rep block_total u)
qed

lemma blocks_fold:
  assumes "\<And>block. block \<in> set blocks \<Longrightarrow> length block \<le> WORDS_PER_FOLD"
  shows "unat (foldl (\<lambda>s block.
      fold_u32 (foldl (\<lambda>tot word. tot + ucast (from_be32 word)) (ucast s) block)) seed blocks)
    = rep (unat seed + sum_list (map (\<lambda>w. unat (from_be32 w)) (concat blocks)))"
  using assms
proof (induction blocks arbitrary: seed)
  case Nil
  then show ?case by (simp add: rep_small unat_u32_le)
next
  case (Cons block blocks)
  then show ?case by (simp add: block_fold rep_add_rep add.assoc)
qed

lemma accumulate_words:
  "unat (accumulate bs seed)
    = rep (unat seed + sum_list (map (\<lambda>w. unat (from_be32 w)) (as_chunks 4 bs)))"
proof -
  have "concat (chunks WORDS_PER_FOLD (as_chunks 4 bs)) = as_chunks 4 bs"
    by (rule concat_chunks) (simp add: WORDS_PER_FOLD_def)
  then show ?thesis
    using blocks_fold [of "chunks WORDS_PER_FOLD (as_chunks 4 bs)" seed]
    by (simp add: accumulate_def chunks_length)
qed

lemma accumulate_total: "unat (accumulate bs seed) = rep (unat seed + word_total bs)"
proof -
  have "map (\<lambda>w. unat (from_be32 w)) (as_chunks 4 bs) = map be_nat (as_chunks 4 bs)"
    by (auto intro: unat_from_be32 as_chunks_length)
  then show ?thesis by (simp only: accumulate_words word_total_def)
qed

lemma combine_fold_rep:
  "unat (foldl combine seed ws) = rep (unat seed + sum_list (map unat ws))"
proof (induction ws arbitrary: seed)
  case Nil
  then show ?case by (simp add: rep_small unat_u32_le)
next
  case (Cons w ws)
  then show ?case by (simp add: combine_rep rep_add_rep add.assoc)
qed

lemma accumulate_combine: "accumulate bs seed = foldl combine seed (be_words bs)"
  by (rule unat_u32_eq) (simp add: accumulate_words combine_fold_rep be_words_def comp_def)

lemma be_words_append: "4 dvd length as \<Longrightarrow> be_words (as @ bs) = be_words as @ be_words bs"
  by (simp add: be_words_def as_chunks_append)

lemma accumulate_append:
  "4 dvd length as \<Longrightarrow> accumulate (as @ bs) seed = accumulate bs (accumulate as seed)"
  by (simp add: accumulate_combine be_words_append)

lemma accumulate_combine_seed: "accumulate bs seed = combine seed (accumulate bs 0)"
  by (simp add: accumulate_combine) (rule cs.foldl_start)

lemma accumulate_one: "length bs = 4 \<Longrightarrow> accumulate bs seed = combine seed (from_be32 bs)"
  using as_chunks_append_one [of 4 bs "[]"] by (simp add: accumulate_combine be_words_def)

lemma accumulate_Nil [simp]: "accumulate [] seed = seed"
  by (simp add: accumulate_combine be_words_def)

section \<open>The running sum\<close>

text \<open>\<^verbatim>\<open>dst[at..at + src.len()].copy_from_slice(src)\<close>.\<close>

definition copy_at :: "nat \<Rightarrow> 'a list \<Rightarrow> 'a list \<Rightarrow> 'a list" where
  "copy_at at src dst = take at dst @ src @ drop (at + length src) dst"

record running =
  run_sum :: u32
  partial :: bytes
  partial_len :: nat

definition running_new :: running where
  "running_new = \<lparr>run_sum = 0, partial = [0, 0, 0, 0], partial_len = 0\<rparr>"

definition running_update_words :: "running \<Rightarrow> bytes \<Rightarrow> running" where
  "running_update_words r bs =
     (let whole = length bs - length bs mod 4;
          tail = drop whole bs
      in r\<lparr>run_sum := accumulate (take whole bs) (run_sum r),
           partial := copy_at 0 tail (partial r),
           partial_len := length tail\<rparr>)"

definition running_update :: "running \<Rightarrow> bytes \<Rightarrow> running" where
  "running_update r bs =
     (if partial_len r > 0 then
        let fill = min (4 - partial_len r) (length bs);
            r1 = r\<lparr>partial := copy_at (partial_len r) (take fill bs) (partial r),
                   partial_len := partial_len r + fill\<rparr>;
            bs' = drop fill bs
        in if partial_len r1 < 4 then r1
           else running_update_words
                  (r1\<lparr>run_sum := combine (run_sum r1) (from_be32 (partial r1)), partial_len := 0\<rparr>)
                  bs'
      else running_update_words r bs)"

definition running_finish :: "running \<Rightarrow> u32" where
  "running_finish r = run_sum r"

text \<open>The invariant: the sum is of the whole words fed, and the partial word holds the rest.\<close>

definition running_inv :: "running \<Rightarrow> bytes \<Rightarrow> bool" where
  "running_inv r fed \<longleftrightarrow>
     (\<exists>whole rest. fed = whole @ rest \<and> 4 dvd length whole \<and> length rest < 4
        \<and> run_sum r = accumulate whole 0 \<and> length (partial r) = 4
        \<and> partial_len r = length rest \<and> take (length rest) (partial r) = rest)"

lemma running_inv_new: "running_inv running_new []"
  by (auto simp: running_inv_def running_new_def intro!: exI [of _ "[]"])

lemma length_copy_at [simp, len_simps]:
  "at + length src \<le> length dst \<Longrightarrow> length (copy_at at src dst) = length dst"
  by (simp add: copy_at_def)

lemma running_inv_words:
  assumes "running_inv r fed" and "partial_len r = 0"
  shows "running_inv (running_update_words r bs) (fed @ bs)"
proof -
  let ?n = "length bs - length bs mod 4"
  have n: "4 dvd ?n" "?n \<le> length bs" "length bs - ?n < 4" by auto
  from assms have fed: "4 dvd length fed" "run_sum r = accumulate fed 0" "length (partial r) = 4"
    by (auto simp: running_inv_def)
  show ?thesis
    unfolding running_inv_def
  proof (intro exI conjI)
    show "fed @ bs = (fed @ take ?n bs) @ drop ?n bs" by simp
    have "length (take ?n bs) = ?n" by simp
    then show "4 dvd length (fed @ take ?n bs)" using fed n by (metis dvd_add length_append)
    show "length (drop ?n bs) < 4" using n by simp
    show "run_sum (running_update_words r bs) = accumulate (fed @ take ?n bs) 0"
      using fed by (simp add: running_update_words_def Let_def accumulate_append)
    show "length (partial (running_update_words r bs)) = 4"
      using fed n by (simp add: running_update_words_def Let_def)
    show "partial_len (running_update_words r bs) = length (drop ?n bs)"
      by (simp add: running_update_words_def Let_def)
    show "take (length (drop ?n bs)) (partial (running_update_words r bs)) = drop ?n bs"
      by (simp add: running_update_words_def Let_def copy_at_def)
  qed
qed

lemma running_inv_update:
  assumes "running_inv r fed"
  shows "running_inv (running_update r bs) (fed @ bs)"
proof (cases "partial_len r > 0")
  case False
  then show ?thesis using assms by (simp add: running_update_def running_inv_words)
next
  case True
  from assms obtain whole rest where
    fed: "fed = whole @ rest" and w: "4 dvd length whole" and lt: "length rest < 4" and
    s: "run_sum r = accumulate whole 0" and lp: "length (partial r) = 4" and
    pl: "partial_len r = length rest" and pr: "take (length rest) (partial r) = rest"
    by (auto simp: running_inv_def)
  let ?fill = "min (4 - length rest) (length bs)"
  let ?p = "copy_at (length rest) (take ?fill bs) (partial r)"
  let ?r1 = "r\<lparr>partial := ?p, partial_len := length rest + ?fill\<rparr>"
  have tp: "take (length rest + ?fill) ?p = rest @ take ?fill bs"
    using pr lp lt by (simp add: copy_at_def)
  have lenp: "length ?p = 4" using lp lt by simp
  show ?thesis
  proof (cases "length rest + ?fill < 4")
    case True
    then have short: "length rest + length bs < 4" by auto
    then have all: "take ?fill bs = bs" by auto
    have "running_inv ?r1 (fed @ bs)"
      unfolding running_inv_def
      using fed w s lenp tp True all
      by (intro exI [of _ whole] exI [of _ "rest @ bs"]) (auto simp: min_def split: if_splits)
    then show ?thesis
      using True short all \<open>partial_len r > 0\<close> pl by (simp add: running_update_def Let_def)
  next
    case False
    then have full: "length rest + ?fill = 4" using lt by auto
    have p4: "?p = rest @ take ?fill bs" using tp lenp full by simp
    let ?r2 = "?r1\<lparr>run_sum := combine (run_sum r) (from_be32 ?p), partial_len := 0\<rparr>"
    have l4: "length (rest @ take ?fill bs) = 4" using full by simp
    have "running_inv ?r2 (fed @ take ?fill bs)"
      unfolding running_inv_def
    proof (intro exI conjI)
      show "fed @ take ?fill bs = (whole @ rest @ take ?fill bs) @ []" using fed by simp
      show "4 dvd length (whole @ rest @ take ?fill bs)"
        using w l4 by (metis dvd_add dvd_refl length_append)
      show "run_sum ?r2 = accumulate (whole @ rest @ take ?fill bs) 0"
        using accumulate_append [OF w] accumulate_one [OF l4] s p4 by simp
    qed (use lenp in auto)
    then have "running_inv (running_update_words ?r2 (drop ?fill bs))
        ((fed @ take ?fill bs) @ drop ?fill bs)"
      by (rule running_inv_words) simp
    then show ?thesis
      using False lt \<open>partial_len r > 0\<close> pl by (simp add: running_update_def Let_def)
  qed
qed

lemma running_inv_pieces:
  "running_inv r fed \<Longrightarrow> running_inv (foldl running_update r pieces) (fed @ concat pieces)"
proof (induction pieces arbitrary: r fed)
  case Nil
  then show ?case by simp
next
  case (Cons p pieces)
  then have "running_inv (running_update r p) (fed @ p)" by (simp add: running_inv_update)
  then show ?case using Cons.IH by fastforce
qed

lemma running_inv_finish:
  "running_inv r fed \<Longrightarrow> 4 dvd length fed \<Longrightarrow> running_finish r = accumulate fed 0"
proof -
  assume inv: "running_inv r fed" and d: "4 dvd length fed"
  then obtain whole rest where
    "fed = whole @ rest" "4 dvd length whole" "length rest < 4" "run_sum r = accumulate whole 0"
    by (auto simp: running_inv_def)
  moreover have "rest = []"
    using calculation d by (metis dvd_add_right_iff dvd_imp_le length_append length_greater_0_conv
        linorder_not_less)
  ultimately show ?thesis by (simp add: running_finish_def)
qed

section \<open>Properties\<close>

text \<open>C17: the deferred-carry sum of \<open>accumulate\<close> is the sum that adds one word at a time with
  its end-around carry, for every byte string and seed.\<close>

theorem accumulate_is_carry_sum:
  "accumulate bs seed = foldl combine seed (map from_be32 (as_chunks 4 bs))"
  using accumulate_combine by (simp add: be_words_def)

text \<open>C16: the running sum of bytes fed in pieces of any lengths is the sum of their
  concatenation, once a whole number of words has been fed.\<close>

theorem running_any_split:
  assumes "4 dvd length (concat pieces)"
  shows "running_finish (foldl running_update running_new pieces) = accumulate (concat pieces) 0"
proof -
  have "running_inv (foldl running_update running_new pieces) ([] @ concat pieces)"
    by (rule running_inv_pieces) (rule running_inv_new)
  then show ?thesis using assms by (simp add: running_inv_finish)
qed

theorem running_any_split_witness:
  "4 dvd length (concat [[1, 2, 3], [], [4, 5], [6, 7, 8 :: u8]]) \<and>
   running_finish (foldl running_update running_new [[1, 2, 3], [], [4, 5], [6, 7, 8]])
     = accumulate (concat [[1, 2, 3], [], [4, 5], [6, 7, 8]]) 0"
proof -
  have l: "length (concat [[1, 2, 3], [], [4, 5], [6, 7, 8 :: u8]]) = 8" by simp
  have d: "4 dvd length (concat [[1, 2, 3], [], [4, 5], [6, 7, 8 :: u8]])"
    unfolding l by simp
  show ?thesis using d running_any_split [OF d] by (rule conjI)
qed

end
