(* ===== verification/Checksum_Encode.thy ===== *)
theory Checksum_Encode
  imports Checksum
begin

text \<open>
  The 16-character form of a \<^verbatim>\<open>CHECKSUM\<close> value: \<^verbatim>\<open>encode\<close> of \<^verbatim>\<open>src/checksum/mod.rs\<close>. A byte of the
  complement is four characters that sum to it over the offset 48, moved off the punctuation in
  balanced pairs, until no character is punctuation; the loop is \<open>settle\<close>, whose termination is
  proved for all integers. The lemmas show that the characters are alphanumeric, so that the
  code's \<^verbatim>\<open>expect\<close> never fires, and that they keep the column's sum; the properties show what
  the value is for, that the signed unit sums to negative zero.
\<close>

section \<open>The code\<close>

definition EXCLUDE :: "int list" where
  "EXCLUDE = [0x3a, 0x3b, 0x3c, 0x3d, 0x3e, 0x3f, 0x40, 0x5b, 0x5c, 0x5d, 0x5e, 0x5f, 0x60]"

definition OFFSET :: int where "OFFSET = 0x30"

text \<open>One step of the inner \<^verbatim>\<open>while j < 4\<close> on the pair \<open>(ch[j], ch[j + 1])\<close>, with the flag
  \<^verbatim>\<open>changed\<close>.\<close>

definition nudge :: "int \<Rightarrow> int \<times> int \<Rightarrow> bool \<Rightarrow> (int \<times> int) \<times> bool" where
  "nudge ex p changed =
     (if fst p = ex \<or> snd p = ex then ((fst p + 1, snd p - 1), True) else (p, changed))"

type_synonym quad = "(int \<times> int) \<times> (int \<times> int)"

definition nudge_pairs :: "quad \<times> bool \<Rightarrow> int \<Rightarrow> quad \<times> bool" where
  "nudge_pairs st ex =
     (case st of ((p, q), changed) \<Rightarrow>
        (case nudge ex p changed of (p', c1) \<Rightarrow>
          (case nudge ex q c1 of (q', c2) \<Rightarrow> ((p', q'), c2))))"

definition pass :: "quad \<Rightarrow> quad \<times> bool" where
  "pass ch = foldl nudge_pairs (ch, False) EXCLUDE"

text \<open>A pair that a nudge moves comes nearer to where no nudge can move it.\<close>

definition room :: "int \<times> int \<Rightarrow> nat" where
  "room p = nat (0x61 - fst p) + nat (snd p - 0x39)"

lemma nudge_room:
  assumes "ex \<in> set EXCLUDE"
  shows "nudge ex p c = (p, c) \<or> (snd (nudge ex p c) \<and> room (fst (nudge ex p c)) < room p)"
proof (cases "fst p = ex \<or> snd p = ex")
  case False
  then show ?thesis by (simp add: nudge_def)
next
  case True
  have ex: "0x3a \<le> ex" "ex \<le> 0x60" using assms by (auto simp: EXCLUDE_def)
  have "room (fst p + 1, snd p - 1) < room p"
    using True ex by (auto simp: room_def)
  then show ?thesis using True by (simp add: nudge_def)
qed

definition quad_room :: "quad \<Rightarrow> nat" where
  "quad_room ch = room (fst ch) + room (snd ch)"

lemma nudge_pairs_room:
  assumes "ex \<in> set EXCLUDE"
  shows "nudge_pairs (ch, c) ex = (ch, c)
    \<or> (snd (nudge_pairs (ch, c) ex) \<and> quad_room (fst (nudge_pairs (ch, c) ex)) < quad_room ch)"
proof -
  obtain p q where ch: "ch = (p, q)" by (cases ch)
  obtain p' c1 where n1: "nudge ex p c = (p', c1)" by (cases "nudge ex p c")
  obtain q' c2 where n2: "nudge ex q c1 = (q', c2)" by (cases "nudge ex q c1")
  show ?thesis
    using nudge_room [OF assms, of p c] nudge_room [OF assms, of q c1] n1 n2 ch
    by (auto simp: nudge_pairs_def quad_room_def)
qed

lemma pass_room_gen:
  assumes "set exs \<subseteq> set EXCLUDE"
  shows "foldl nudge_pairs (ch, c) exs = (ch, c)
    \<or> (snd (foldl nudge_pairs (ch, c) exs)
       \<and> quad_room (fst (foldl nudge_pairs (ch, c) exs)) < quad_room ch)"
  using assms
proof (induction exs arbitrary: ch c)
  case Nil
  then show ?case by simp
next
  case (Cons ex exs)
  obtain ch' c' where n: "nudge_pairs (ch, c) ex = (ch', c')" by (cases "nudge_pairs (ch, c) ex")
  have "ch' = ch \<and> c' = c \<or> c' \<and> quad_room ch' < quad_room ch"
    using nudge_pairs_room [of ex ch c] Cons.prems n by simp
  moreover have "foldl nudge_pairs (ch', c') exs = (ch', c')
      \<or> (snd (foldl nudge_pairs (ch', c') exs)
       \<and> quad_room (fst (foldl nudge_pairs (ch', c') exs)) < quad_room ch')"
    using Cons by simp
  ultimately show ?case using n by auto
qed

lemma pass_room: "snd (pass ch) \<Longrightarrow> quad_room (fst (pass ch)) < quad_room ch"
  using pass_room_gen [of EXCLUDE ch False] by (auto simp: pass_def)

lemma pass_same: "\<not> snd (pass ch) \<Longrightarrow> pass ch = (ch, False)"
  using pass_room_gen [of EXCLUDE ch False] by (auto simp: pass_def)

text \<open>The \<^verbatim>\<open>loop { ... if !changed { break } }\<close>.\<close>

function settle :: "quad \<Rightarrow> quad" where
  "settle ch = (if snd (pass ch) then settle (fst (pass ch)) else fst (pass ch))"
  by pat_completeness auto
termination by (relation "measure quad_room") (auto intro: pass_room)

declare settle.simps [simp del]

text \<open>The four characters of one byte of the complement.\<close>

definition encode_byte :: "u8 \<Rightarrow> quad" where
  "encode_byte b =
     (let byte = int (unat b);
          quotient = byte div 4 + OFFSET;
          remainder = byte mod 4
      in settle ((quotient + remainder, quotient), (quotient, quotient)))"

definition quad_list :: "quad \<Rightarrow> int list" where
  "quad_list ch = [fst (fst ch), snd (fst ch), fst (snd ch), snd (snd ch)]"

text \<open>\<^verbatim>\<open>rotate_right(1)\<close>, and \<^verbatim>\<open>asc[4 * j + i] = ch[j]\<close> for the \<open>i\<close>-th byte.\<close>

definition rotate_right1 :: "'a list \<Rightarrow> 'a list" where
  "rotate_right1 xs = (if xs = [] then [] else last xs # butlast xs)"

lemma set_rotate_right1: "set (rotate_right1 xs) = set xs"
  by (cases xs rule: rev_cases) (auto simp: rotate_right1_def)

definition encode_columns :: "u32 \<Rightarrow> int list" where
  "encode_columns s =
     (let quads = map (quad_list \<circ> encode_byte) (to_be32 (0xFFFFFFFF - s))
      in concat (map (\<lambda>j. map (\<lambda>q. q ! j) quads) [0, 1, 2, 3]))"

definition encode :: "u32 \<Rightarrow> bytes" where
  "encode s = rotate_right1 (map word_of_int (encode_columns s))"

section \<open>The characters\<close>

definition quad_sum :: "quad \<Rightarrow> int" where
  "quad_sum ch = fst (fst ch) + snd (fst ch) + fst (snd ch) + snd (snd ch)"

lemma nudge_pairs_sum: "quad_sum (fst (nudge_pairs st ex)) = quad_sum (fst st)"
  by (auto simp: nudge_pairs_def nudge_def quad_sum_def split: prod.splits if_splits)

lemma pass_sum: "quad_sum (fst (pass ch)) = quad_sum ch"
proof -
  have "quad_sum (fst (foldl nudge_pairs st exs)) = quad_sum (fst st)" for st exs
    by (induction exs arbitrary: st) (simp_all add: nudge_pairs_sum)
  then show ?thesis by (simp add: pass_def)
qed

lemma settle_sum: "quad_sum (settle ch) = quad_sum ch"
proof (induction ch rule: settle.induct)
  case (1 ch)
  then show ?case by (cases "snd (pass ch)") (simp_all add: settle.simps [of ch] pass_sum)
qed

lemma encode_byte_sum: "quad_sum (encode_byte b) = int (unat b) + 4 * OFFSET"
proof -
  have "int (unat b) div 4 * 4 + int (unat b) mod 4 = int (unat b)" by (rule div_mult_mod_eq)
  then show ?thesis
    unfolding encode_byte_def Let_def settle_sum by (simp add: quad_sum_def)
qed

text \<open>\<^verbatim>\<open>is_ascii_alphanumeric\<close>.\<close>

definition alnum :: "int \<Rightarrow> bool" where
  "alnum c \<longleftrightarrow> 0x30 \<le> c \<and> c \<le> 0x39 \<or> 0x41 \<le> c \<and> c \<le> 0x5a \<or> 0x61 \<le> c \<and> c \<le> 0x7a"

text \<open>What the nudges keep of a pair that starts as \<open>(q + r, q)\<close>: its sum, and that it moves
  outwards only while one of its characters is punctuation.\<close>

definition pair_ok :: "int \<Rightarrow> int \<Rightarrow> int \<times> int \<Rightarrow> bool" where
  "pair_ok q r p \<longleftrightarrow> fst p + snd p = 2 * q + r \<and> q + r \<le> fst p
     \<and> (\<forall>d \<in> {1..fst p - (q + r)}.
          fst p - d \<in> set EXCLUDE \<or> snd p + d \<in> set EXCLUDE)"

lemma pair_ok_nudge:
  assumes "pair_ok q r p" and "ex \<in> set EXCLUDE"
  shows "pair_ok q r (fst (nudge ex p c))"
proof (cases "fst p = ex \<or> snd p = ex")
  case False
  then show ?thesis using assms by (simp add: nudge_def)
next
  case True
  have "fst p + 1 - d \<in> set EXCLUDE \<or> snd p - 1 + d \<in> set EXCLUDE"
    if d: "d \<in> {1..fst p + 1 - (q + r)}" for d
  proof (cases "d = 1")
    case True
    then show ?thesis using \<open>fst p = ex \<or> snd p = ex\<close> assms(2) by auto
  next
    case False
    then have "d - 1 \<in> {1..fst p - (q + r)}" using d by auto
    then have "fst p - (d - 1) \<in> set EXCLUDE \<or> snd p + (d - 1) \<in> set EXCLUDE"
      using assms(1) unfolding pair_ok_def by blast
    then show ?thesis by (simp add: algebra_simps)
  qed
  then show ?thesis using True assms(1) by (simp add: nudge_def pair_ok_def)
qed

definition quad_ok :: "int \<Rightarrow> int \<Rightarrow> quad \<Rightarrow> bool" where
  "quad_ok q r ch \<longleftrightarrow> pair_ok q r (fst ch) \<and> pair_ok q 0 (snd ch)"

lemma quad_ok_pass:
  assumes "quad_ok q r ch"
  shows "quad_ok q r (fst (pass ch))"
proof -
  have step: "quad_ok q r (fst (nudge_pairs st ex))"
    if "quad_ok q r (fst st)" "ex \<in> set EXCLUDE" for st ex
  proof -
    obtain p q' c where st: "st = ((p, q'), c)" by (metis prod.exhaust)
    obtain p1 c1 where n1: "nudge ex p c = (p1, c1)" by (cases "nudge ex p c")
    obtain p2 c2 where n2: "nudge ex q' c1 = (p2, c2)" by (cases "nudge ex q' c1")
    show ?thesis
      using that pair_ok_nudge [of q r p ex c] pair_ok_nudge [of q 0 q' ex c1]
      by (simp add: nudge_pairs_def quad_ok_def st n1 n2)
  qed
  have "set exs \<subseteq> set EXCLUDE \<Longrightarrow> quad_ok q r (fst st) \<Longrightarrow> quad_ok q r (fst (foldl nudge_pairs st exs))"
    for st exs
    by (induction exs arbitrary: st) (simp_all add: step)
  then show ?thesis using assms by (simp add: pass_def)
qed

lemma settle_ok:
  "quad_ok q r ch \<Longrightarrow> quad_ok q r (settle ch) \<and> \<not> snd (pass (settle ch))"
proof (induction ch rule: settle.induct)
  case (1 ch)
  then show ?case
    using pass_same [of ch] by (cases "snd (pass ch)") (simp_all add: settle.simps [of ch] quad_ok_pass)
qed

lemma pass_exit_gen:
  "\<not> snd (foldl nudge_pairs (ch, c) exs) \<Longrightarrow> \<not> c \<and>
     (\<forall>ex \<in> set exs. fst (fst ch) \<noteq> ex \<and> snd (fst ch) \<noteq> ex \<and> fst (snd ch) \<noteq> ex \<and> snd (snd ch) \<noteq> ex)"
proof (induction exs arbitrary: ch c)
  case Nil
  then show ?case by simp
next
  case (Cons ex exs)
  obtain ch' c' where n: "nudge_pairs (ch, c) ex = (ch', c')" by (cases "nudge_pairs (ch, c) ex")
  then have "\<not> c' \<and> (\<forall>ex \<in> set exs. fst (fst ch') \<noteq> ex \<and> snd (fst ch') \<noteq> ex
      \<and> fst (snd ch') \<noteq> ex \<and> snd (snd ch') \<noteq> ex)"
    using Cons.IH [of ch' c'] Cons.prems by simp
  then show ?case
    using n by (cases ch) (auto simp: nudge_pairs_def nudge_def split: if_splits)
qed

lemma pass_exit:
  assumes "\<not> snd (pass ch)"
  shows "fst (fst ch) \<notin> set EXCLUDE" "snd (fst ch) \<notin> set EXCLUDE"
    "fst (snd ch) \<notin> set EXCLUDE" "snd (snd ch) \<notin> set EXCLUDE"
  using pass_exit_gen [of ch False EXCLUDE] assms by (auto simp: pass_def)

text \<open>For every start there is a distance at which neither character is punctuation, and it
  keeps both between \<open>0\<close> and \<open>z\<close>.\<close>

definition stops :: "int \<Rightarrow> int \<Rightarrow> int \<Rightarrow> bool" where
  "stops q r e \<longleftrightarrow> \<not> List.member EXCLUDE (q + r + e) \<and> \<not> List.member EXCLUDE (q - e)
     \<and> q + r + e \<le> 0x7a \<and> 0x30 \<le> q - e"

lemma stops_exists:
  "list_all (\<lambda>q. list_all (\<lambda>r. list_ex (stops q r) [0..7]) [0..3]) [48..111]"
  by code_simp

lemma unexcluded_table: "list_all (\<lambda>x. List.member EXCLUDE x \<or> alnum x) [48..122]"
  by code_simp

lemma unexcluded_alnum:
  assumes "x \<notin> set EXCLUDE" "0x30 \<le> x" "x \<le> 0x7a"
  shows "alnum x"
proof -
  have "x \<in> set [48..122]" unfolding set_upto using assms by simp
  then have "List.member EXCLUDE x \<or> alnum x"
    using unexcluded_table unfolding list_all_iff by blast
  then show ?thesis using assms(1) by simp
qed

lemma settled_pair:
  assumes ok: "pair_ok q r p" and out: "fst p \<notin> set EXCLUDE" "snd p \<notin> set EXCLUDE"
    and q: "48 \<le> q" "q \<le> 111" and r: "0 \<le> r" "r \<le> 3"
  shows "alnum (fst p) \<and> alnum (snd p)"
proof -
  have "q \<in> set [48..111]" and "r \<in> set [0..3]"
    unfolding set_upto using q r by simp_all
  then have "list_ex (stops q r) [0..7]"
    using stops_exists unfolding list_all_iff by blast
  then obtain e where e: "0 \<le> e" "stops q r e" by (auto simp: list_ex_iff)
  define k where "k = fst p - (q + r)"
  have p: "fst p = q + r + k" "snd p = q - k" and k0: "0 \<le> k"
    using ok by (auto simp: pair_ok_def k_def)
  have "k \<le> e"
  proof (rule ccontr)
    assume "\<not> k \<le> e"
    then have "k - e \<in> {1..fst p - (q + r)}" using e(1) by (simp add: k_def)
    then have "fst p - (k - e) \<in> set EXCLUDE \<or> snd p + (k - e) \<in> set EXCLUDE"
      using ok unfolding pair_ok_def by blast
    moreover have "fst p - (k - e) = q + r + e" "snd p + (k - e) = q - e" using p by auto
    ultimately show False using e(2) by (simp add: stops_def)
  qed
  then have "fst p \<le> 0x7a" "0x30 \<le> snd p" "0x30 \<le> fst p" "snd p \<le> 0x7a"
    using e(2) p k0 q r by (auto simp: stops_def)
  then show ?thesis using out by (simp add: unexcluded_alnum)
qed

lemma encode_byte_alnum: "list_all alnum (quad_list (encode_byte b))"
proof -
  let ?q = "int (unat b) div 4 + OFFSET" and ?r = "int (unat b) mod 4"
  have x: "0 \<le> int (unat b)" "int (unat b) < 256" using unat_u8_lt [of b] by linarith+
  then have q: "48 \<le> ?q" "?q \<le> 111" unfolding OFFSET_def by linarith+
  have r: "0 \<le> ?r" "?r \<le> 3" by auto
  have "quad_ok ?q ?r ((?q + ?r, ?q), (?q, ?q))"
    by (simp add: quad_ok_def pair_ok_def)
  from settle_ok [OF this]
  have ok: "quad_ok ?q ?r (encode_byte b)" and exit: "\<not> snd (pass (encode_byte b))"
    by (simp_all add: encode_byte_def Let_def)
  show ?thesis
    using settled_pair [of ?q ?r "fst (encode_byte b)"] settled_pair [of ?q 0 "snd (encode_byte b)"]
      ok pass_exit [OF exit] q r
    by (simp add: quad_ok_def quad_list_def)
qed

lemma quad_list_length [simp]: "length (quad_list q) = 4"
  by (simp add: quad_list_def)

lemma length_4_list: "length xs = 4 \<Longrightarrow> \<exists>a b c d. xs = [a, b, c, d]"
  by (auto simp: numeral_eq_Suc length_Suc_conv)

lemma length_to_be32_list: "\<exists>a b c d. to_be32 w = [a, b, c, d]"
  by (rule length_4_list) (rule length_to_be)

lemma alnum_byte: "alnum c \<Longrightarrow> uint (word_of_int c :: u8) = c"
  by (auto simp: alnum_def uint_word_of_int)

section \<open>The signed unit\<close>

text \<open>The sum of the characters, read as four words: the complement over the offset words.\<close>

lemma encode_columns_cases:
  obtains a b c d where
    "to_be32 (0xFFFFFFFF - s) = [a, b, c, d]"
    "encode_columns s =
       [quad_list (encode_byte a) ! 0, quad_list (encode_byte b) ! 0,
        quad_list (encode_byte c) ! 0, quad_list (encode_byte d) ! 0,
        quad_list (encode_byte a) ! 1, quad_list (encode_byte b) ! 1,
        quad_list (encode_byte c) ! 1, quad_list (encode_byte d) ! 1,
        quad_list (encode_byte a) ! 2, quad_list (encode_byte b) ! 2,
        quad_list (encode_byte c) ! 2, quad_list (encode_byte d) ! 2,
        quad_list (encode_byte a) ! 3, quad_list (encode_byte b) ! 3,
        quad_list (encode_byte c) ! 3, quad_list (encode_byte d) ! 3]"
proof -
  obtain a b c d where w: "to_be32 (0xFFFFFFFF - s) = [a, b, c, d]"
    using length_to_be32_list by blast
  show ?thesis by (rule that [OF w]) (simp add: encode_columns_def w)
qed

lemma encode_columns_alnum: "list_all alnum (encode_columns s)"
proof -
  have nth: "alnum (quad_list (encode_byte b) ! j)" if "j < 4" for b j
    using encode_byte_alnum [of b] that by (simp add: list_all_length)
  obtain a b c d where "encode_columns s =
       [quad_list (encode_byte a) ! 0, quad_list (encode_byte b) ! 0,
        quad_list (encode_byte c) ! 0, quad_list (encode_byte d) ! 0,
        quad_list (encode_byte a) ! 1, quad_list (encode_byte b) ! 1,
        quad_list (encode_byte c) ! 1, quad_list (encode_byte d) ! 1,
        quad_list (encode_byte a) ! 2, quad_list (encode_byte b) ! 2,
        quad_list (encode_byte c) ! 2, quad_list (encode_byte d) ! 2,
        quad_list (encode_byte a) ! 3, quad_list (encode_byte b) ! 3,
        quad_list (encode_byte c) ! 3, quad_list (encode_byte d) ! 3]"
    using encode_columns_cases by metis
  then show ?thesis by (simp add: nth)
qed

lemma encode_columns_length: "length (encode_columns s) = 16"
  by (rule encode_columns_cases [of s]) simp

lemma int_be_nat4:
  "int (be_nat [w, x, y, z]) = ((uint w * 256 + uint x) * 256 + uint y) * 256 + uint z"
  by (simp add: be_nat_def)

lemma as_chunks_16:
  "as_chunks 4 [a0, a1, a2, a3, b0, b1, b2, b3, c0, c1, c2, c3, d0, d1, d2, d3]
    = [[a0, a1, a2, a3], [b0, b1, b2, b3], [c0, c1, c2, c3], [d0, d1, d2, d3]]"
  by (simp add: as_chunks.simps)

lemma columns_sum:
  fixes a0 :: int
  assumes "a0 + a1 + a2 + a3 = a + 192" "b0 + b1 + b2 + b3 = b + 192"
    "c0 + c1 + c2 + c3 = c + 192" "d0 + d1 + d2 + d3 = d + 192"
  shows "(((a0 * 256 + b0) * 256 + c0) * 256 + d0) + ((((a1 * 256 + b1) * 256 + c1) * 256 + d1)
      + ((((a2 * 256 + b2) * 256 + c2) * 256 + d2) + (((a3 * 256 + b3) * 256 + c3) * 256 + d3)))
    = ((a * 256 + b) * 256 + c) * 256 + d + 4 * 48 * 16843009"
  using assms by simp

lemma encode_columns_total:
  "int (word_total (map word_of_int (encode_columns s)))
    = int (u32_max - unat s) + 4 * 48 * 16843009"
proof -
  obtain a b c d where
    w: "to_be32 (0xFFFFFFFF - s) = [a, b, c, d]" and
    cols: "encode_columns s =
       [quad_list (encode_byte a) ! 0, quad_list (encode_byte b) ! 0,
        quad_list (encode_byte c) ! 0, quad_list (encode_byte d) ! 0,
        quad_list (encode_byte a) ! 1, quad_list (encode_byte b) ! 1,
        quad_list (encode_byte c) ! 1, quad_list (encode_byte d) ! 1,
        quad_list (encode_byte a) ! 2, quad_list (encode_byte b) ! 2,
        quad_list (encode_byte c) ! 2, quad_list (encode_byte d) ! 2,
        quad_list (encode_byte a) ! 3, quad_list (encode_byte b) ! 3,
        quad_list (encode_byte c) ! 3, quad_list (encode_byte d) ! 3]"
    using encode_columns_cases by metis
  have u: "uint (word_of_int (quad_list (encode_byte x) ! j) :: u8) = quad_list (encode_byte x) ! j"
    if "j < 4" for x j
    using encode_byte_alnum [of x] that by (intro alnum_byte) (simp add: list_all_length)
  have col: "quad_list (encode_byte x) ! 0 + quad_list (encode_byte x) ! 1
      + quad_list (encode_byte x) ! 2 + quad_list (encode_byte x) ! 3 = uint x + 192" for x
    using encode_byte_sum [of x] by (simp add: quad_list_def quad_sum_def OFFSET_def)
  have comp: "int (u32_max - unat s) = ((uint a * 256 + uint b) * 256 + uint c) * 256 + uint d"
  proof -
    have "unat (0xFFFFFFFF - s) = be_nat [a, b, c, d]"
      using w by (metis from_to_be(2) length_to_be(2) unat_from_be32)
    moreover have "unat (0xFFFFFFFF - s) = u32_max - unat s"
    proof -
      have "s \<le> 0xFFFFFFFF" using unat_u32_le [of s] by (simp add: word_le_nat_alt u32_max_def)
      then show ?thesis by (simp add: unat_sub u32_max_def)
    qed
    ultimately show ?thesis by (metis int_be_nat4)
  qed
  show ?thesis
    unfolding cols word_total_def list.map as_chunks_16 sum_list.Cons sum_list.Nil
    unfolding of_nat_add int_be_nat4 comp
    using columns_sum [OF col [of a] col [of b] col [of c] col [of d]]
    by (simp only: u)
qed

text \<open>The sum by byte position: a word's total is its bytes' by their weights.\<close>

fun weighted :: "nat \<Rightarrow> bytes \<Rightarrow> nat" where
  "weighted k [] = 0"
| "weighted k (b # bs) = unat b * 256 ^ (3 - k mod 4) + weighted (Suc k) bs"

lemma weighted_append: "weighted k (as @ bs) = weighted k as + weighted (k + length as) bs"
  by (induction as arbitrary: k) simp_all

lemma weighted_mod: "k mod 4 = k' mod 4 \<Longrightarrow> weighted k bs = weighted k' bs"
proof (induction bs arbitrary: k k')
  case Nil
  then show ?case by simp
next
  case (Cons b bs)
  have "Suc k mod 4 = Suc k' mod 4" using Cons.prems by (metis mod_Suc_eq)
  from Cons.IH [OF this] Cons.prems show ?case by (simp only: weighted.simps)
qed

lemma weighted_word: "length c = 4 \<Longrightarrow> weighted 0 c = be_nat c"
  using length_4_list [of c] by (auto simp: be_nat_def)

lemma word_total_weighted: "4 dvd length bs \<Longrightarrow> word_total bs = weighted 0 bs"
proof (induction "4::nat" bs rule: as_chunks.induct)
  case (1 bs)
  show ?case
  proof (cases "length bs < 4")
    case True
    with "1.prems" have "bs = []" by (auto dest: dvd_imp_le)
    then show ?thesis by (simp add: word_total_def)
  next
    case False
    have split: "bs = take 4 bs @ drop 4 bs" by simp
    have "word_total (drop 4 bs) = weighted 0 (drop 4 bs)"
      using 1 False by (simp add: dvd_diff_nat)
    moreover have "weighted 0 bs = weighted 0 (take 4 bs) + weighted 4 (drop 4 bs)"
      using False weighted_append [of 0 "take 4 bs" "drop 4 bs"] by (simp add: min_absorb2)
    moreover have "weighted 4 (drop 4 bs) = weighted 0 (drop 4 bs)"
      by (rule weighted_mod) simp
    moreover have "weighted 0 (take 4 bs) = be_nat (take 4 bs)"
      using False by (intro weighted_word) simp
    moreover have "word_total bs = be_nat (take 4 bs) + word_total (drop 4 bs)"
      using False by (simp add: word_total_def as_chunks.simps [of 4 bs])
    ultimately show ?thesis by simp
  qed
qed

lemma encode_nonempty: "encode_columns s \<noteq> []"
  using encode_columns_length [of s] by auto

lemma encode_weighted:
  "weighted 3 (encode s) = word_total (map word_of_int (encode_columns s))"
proof -
  let ?cs = "map word_of_int (encode_columns s) :: bytes"
  have ne: "?cs \<noteq> []" and len: "length ?cs = 16"
    using encode_nonempty encode_columns_length by simp_all
  have "weighted 3 (encode s) = unat (last ?cs) * 256 ^ (3 - 3 mod 4) + weighted 4 (butlast ?cs)"
    using ne by (simp add: encode_def rotate_right1_def)
  also have "weighted 4 (butlast ?cs) = weighted 0 (butlast ?cs)"
    by (rule weighted_mod) simp
  also have "unat (last ?cs) * 256 ^ (3 - 3 mod 4) = weighted (0 + length (butlast ?cs)) [last ?cs]"
    using len by simp
  also have "\<dots> + weighted 0 (butlast ?cs) = weighted 0 (butlast ?cs @ [last ?cs])"
    by (simp add: weighted_append)
  also have "butlast ?cs @ [last ?cs] = ?cs" using ne by simp
  also have "weighted 0 ?cs = word_total ?cs"
    using len by (intro word_total_weighted [symmetric]) simp
  finally show ?thesis .
qed

definition placeholder_bytes :: bytes where
  "placeholder_bytes = map (\<lambda>c. of_nat (of_char c)) PLACEHOLDER"

lemma placeholder_weighted: "weighted 3 placeholder_bytes = 48 * 4 * 16843009"
  by (simp add: placeholder_bytes_def PLACEHOLDER_def)

lemma encode_length: "length (encode s) = 16"
  using encode_columns_length [of s] encode_nonempty [of s] by (simp add: encode_def rotate_right1_def)

lemma weighted_middle:
  "length pre mod 4 = 3 \<Longrightarrow> weighted 0 (pre @ mid @ post)
    = weighted 0 pre + weighted 3 mid + weighted (length pre + length mid) post"
  using weighted_mod [of "length pre" 3 mid] by (simp add: weighted_append)

section \<open>Properties\<close>

lemma encoded_unit_sum:
  assumes at: "length pre mod 4 = 3"
    and len: "4 dvd length (pre @ placeholder_bytes @ post)"
    and s: "s = accumulate (pre @ placeholder_bytes @ post) 0"
  shows "accumulate (pre @ encode s @ post) 0 = 0xFFFFFFFF"
proof -
  have l16: "length placeholder_bytes = 16" by (simp add: placeholder_bytes_def PLACEHOLDER_def)
  let ?w = "weighted 0 pre + weighted (length pre + 16) post"
  have old: "word_total (pre @ placeholder_bytes @ post) = ?w + 48 * 4 * 16843009"
    unfolding word_total_weighted [OF len] weighted_middle [OF at] by (simp add: placeholder_weighted l16)
  have len': "4 dvd length (pre @ encode s @ post)"
    using len by (simp add: encode_length l16)
  have new: "word_total (pre @ encode s @ post) = ?w + (u32_max - unat s + 48 * 4 * 16843009)"
    unfolding word_total_weighted [OF len'] weighted_middle [OF at] encode_weighted
    using encode_columns_total [of s] by (simp add: encode_length)
  have us: "unat s = rep (?w + 48 * 4 * 16843009)"
    unfolding s accumulate_total old by simp
  have le: "unat s \<le> u32_max" by (rule unat_u32_le)
  have "unat (accumulate (pre @ encode s @ post) 0)
      = rep ((?w + 48 * 4 * 16843009) + (u32_max - unat s))"
    unfolding accumulate_total new by (simp add: algebra_simps)
  also have "\<dots> = rep (unat s + (u32_max - unat s))"
    unfolding us by (simp only: rep_add_rep)
  also have "\<dots> = u32_max" using le by (simp add: rep_small)
  finally show ?thesis by (intro unat_u32_eq) (simp add: u32_max_def)
qed

text \<open>C13: writing \<open>encode\<close> of a unit's sum over the sixteen zeros it was summed with, where the
  value starts at the last byte of a word, as column 12 of a record does, makes the unit sum to
  negative zero, whatever the bytes around it.\<close>

theorem encode_signs_unit:
  assumes at: "length pre mod 4 = 3"
    and len: "4 dvd length (pre @ placeholder_bytes @ post)"
    and s: "s = accumulate (pre @ placeholder_bytes @ post) 0"
  shows "accumulate (pre @ encode s @ post) 0 = 0xFFFFFFFF"
  using assms by (rule encoded_unit_sum)

theorem encode_signs_unit_witness:
  "length [1, 2, 3 :: u8] mod 4 = 3 \<and>
   accumulate ([1, 2, 3] @ encode (accumulate ([1, 2, 3] @ placeholder_bytes @ [7]) 0) @ [7]) 0
     = 0xFFFFFFFF"
proof -
  have a: "length [1, 2, 3 :: u8] mod 4 = 3" by simp
  have "length ([1, 2, 3] @ placeholder_bytes @ [7]) = 20"
    by (simp add: placeholder_bytes_def PLACEHOLDER_def)
  then have b: "4 dvd length ([1, 2, 3] @ placeholder_bytes @ [7])" by simp
  show ?thesis using a encode_signs_unit [OF a b refl] by (rule conjI)
qed

lemma encode_chars:
  "length (encode s) = 16 \<and> list_all (\<lambda>c. alnum (uint c)) (encode s)"
proof -
  have "alnum (uint (word_of_int c :: u8))" if "c \<in> set (encode_columns s)" for c
    using encode_columns_alnum [of s] that by (auto simp: list_all_iff alnum_byte)
  moreover have "set (encode s) = word_of_int ` set (encode_columns s)"
    by (simp add: encode_def set_rotate_right1)
  ultimately show ?thesis by (auto simp: encode_length list_all_iff)
qed

text \<open>C18: an encoded checksum is sixteen alphanumeric ASCII characters for every sum, so the
  conversion of each character to a byte cannot fail.\<close>

theorem encode_alphanumeric:
  "length (encode s) = 16 \<and> list_all (\<lambda>c. alnum (uint c)) (encode s)"
  by (rule encode_chars)

end
