(* ===== verification/Bit_Stream.thy ===== *)
theory Bit_Stream
  imports Prelude
begin

text \<open>
  Bit strings, most significant bit first, as the bit writers and readers of the codecs lay
  values out: \<open>msb_bits n v\<close> is the \<open>n\<close>-bit form of \<open>v\<close>, \<open>bits_val\<close> reads it back, and
  \<open>byte_bits\<close> is a byte string's bits in order. The lemmas link them to shifts, masks and
  big-endian bytes.
\<close>

definition msb_bits :: "nat \<Rightarrow> 'a::semiring_bit_operations \<Rightarrow> bool list" where
  "msb_bits n v = map (\<lambda>i. bit v (n - Suc i)) [0..<n]"

definition bits_val :: "bool list \<Rightarrow> 'a::semiring_bit_operations" where
  "bits_val bs = horner_sum of_bool 2 (rev bs)"

definition byte_bits :: "bytes \<Rightarrow> bool list" where
  "byte_bits bs = concat (map (msb_bits 8) bs)"

lemma length_msb_bits [simp]: "length (msb_bits n v) = n"
  by (simp add: msb_bits_def)

lemma nth_msb_bits: "i < n \<Longrightarrow> msb_bits n v ! i = bit v (n - Suc i)"
  by (simp add: msb_bits_def)

lemma msb_bits_0 [simp]: "msb_bits 0 v = []"
  by (simp add: msb_bits_def)

lemma rev_msb_bits: "rev (msb_bits n v) = map (bit v) [0..<n]"
  by (rule nth_equalityI) (auto simp: rev_nth nth_msb_bits)

lemma bits_val_msb_bits: "bits_val (msb_bits n v) = take_bit n v"
  by (simp add: bits_val_def rev_msb_bits horner_sum_bit_eq_take_bit)

lemma msb_bits_eqI: "(\<And>i. i < n \<Longrightarrow> bit v i = bit w i) \<Longrightarrow> msb_bits n v = msb_bits n w"
  by (rule nth_equalityI) (auto simp: nth_msb_bits)

lemma msb_bits_append:
  "msb_bits (m + n) v = msb_bits m (drop_bit n v) @ msb_bits n v"
proof (rule nth_equalityI)
  fix i assume "i < length (msb_bits (m + n) v)"
  then have i: "i < m + n" by simp
  show "msb_bits (m + n) v ! i = (msb_bits m (drop_bit n v) @ msb_bits n v) ! i"
  proof (cases "i < m")
    case True
    then have "n + (m - Suc i) = m + n - Suc i" by simp
    then show ?thesis using True i
      by (simp add: nth_append nth_msb_bits bit_drop_bit_eq)
  next
    case False
    then have "n - Suc (i - m) = m + n - Suc i" by simp
    then show ?thesis using False i
      by (simp add: nth_append nth_msb_bits)
  qed
qed simp

lemma msb_bits_take_bit: "msb_bits n (take_bit n v) = msb_bits n v"
  by (rule msb_bits_eqI) (simp add: bit_take_bit_iff)

lemma take_msb_bits: "k \<le> n \<Longrightarrow> take k (msb_bits n v) = msb_bits k (drop_bit (n - k) v)"
  using msb_bits_append [of k "n - k" v] by simp

lemma drop_msb_bits: "k \<le> n \<Longrightarrow> drop k (msb_bits n v) = msb_bits (n - k) v"
  using msb_bits_append [of k "n - k" v] by simp

lemma msb_bits_zero: "msb_bits n 0 = replicate n False"
  by (rule nth_equalityI) (auto simp: nth_msb_bits)

lemma byte_bits_simps [simp]:
  "byte_bits [] = []"
  "byte_bits (b # bs) = msb_bits 8 b @ byte_bits bs"
  "byte_bits (as @ bs) = byte_bits as @ byte_bits bs"
  by (simp_all add: byte_bits_def)

lemma length_byte_bits [simp, len_simps]: "length (byte_bits bs) = 8 * length bs"
  by (induction bs) auto

lemma drop_byte_bits: "drop (8 * k) (byte_bits bs) = byte_bits (drop k bs)"
proof (induction bs arbitrary: k)
  case Nil
  then show ?case by simp
next
  case (Cons b bs)
  then show ?case by (cases k) auto
qed

lemma take_byte_bits: "take (8 * k) (byte_bits bs) = byte_bits (take k bs)"
proof (induction bs arbitrary: k)
  case Nil
  then show ?case by simp
next
  case (Cons b bs)
  then show ?case by (cases k) auto
qed

text \<open>The bits of a big-endian integer are the bits of its bytes in order.\<close>

lemma byte_bits_nat_be: "byte_bits (nat_be k n) = msb_bits (8 * k) n"
proof (induction k arbitrary: n)
  case 0
  then show ?case by simp
next
  case (Suc k)
  have "msb_bits 8 (of_nat n :: u8) = msb_bits 8 n"
    by (rule nth_equalityI) (auto simp: nth_msb_bits bit_simps)
  moreover have "n div 256 = drop_bit 8 n" by (simp add: drop_bit_eq_div)
  ultimately show ?case
    using Suc msb_bits_append [of "8 * k" 8 n] by (simp add: add.commute [of 8])
qed

lemma msb_bits_unat: "n \<le> LENGTH('a) \<Longrightarrow> msb_bits n (unat (w :: 'a::len word)) = msb_bits n w"
  by (rule nth_equalityI) (auto simp: nth_msb_bits bit_unsigned_iff)

lemma byte_bits_to_be:
  "byte_bits (to_be32 w) = msb_bits 32 w" "byte_bits (to_be64 x) = msb_bits 64 x"
  using byte_bits_nat_be [of 4 "unat w"] byte_bits_nat_be [of 8 "unat x"]
    msb_bits_unat [of 32 w] msb_bits_unat [of 64 x]
  by (simp_all add: to_be32_def to_be64_def del: nat_be.simps)

lemma msb_bits_from_be64: "length bs = 8 \<Longrightarrow> msb_bits 64 (from_be64 bs) = byte_bits bs"
  using byte_bits_to_be(2) [of "from_be64 bs"] to_from_be(3) [of bs] by simp

lemma bit_from_be64:
  assumes "length bs = 8" and "i < 64"
  shows "bit (from_be64 bs) (63 - i) = byte_bits bs ! i"
proof -
  have "byte_bits bs ! i = msb_bits 64 (from_be64 bs) ! i"
    using msb_bits_from_be64 [OF assms(1)] by simp
  then show ?thesis using assms(2) by (simp add: nth_msb_bits)
qed

lemma byte_bits_nth:
  assumes "j < length bs" and "i < 8"
  shows "byte_bits bs ! (8 * j + i) = bit (bs ! j) (7 - i)"
proof -
  have "drop (8 * j) (byte_bits bs) = msb_bits 8 (bs ! j) @ byte_bits (drop (Suc j) bs)"
    using assms(1) by (simp add: drop_byte_bits Cons_nth_drop_Suc [symmetric])
  moreover have "byte_bits bs ! (8 * j + i) = drop (8 * j) (byte_bits bs) ! i"
    using assms by (intro nth_drop [symmetric]) simp
  ultimately show ?thesis using assms(2) by (simp add: nth_append nth_msb_bits)
qed

lemma bit_bits_val:
  "bit (bits_val bs :: 'a::len word) i \<longleftrightarrow> i < LENGTH('a) \<and> i < length bs \<and> bs ! (length bs - Suc i)"
  by (auto simp: bits_val_def bit_horner_sum_bit_word_iff rev_nth)

lemma bits_val_append:
  "(bits_val (as @ bs) :: 'a::len word) = push_bit (length bs) (bits_val as) OR bits_val bs"
  by (rule bit_word_eqI) (auto simp: bit_bits_val bit_simps nth_append)

lemma take_bit_bits_val: "take_bit (length bs) (bits_val bs :: 'a::len word) = bits_val bs"
  by (rule bit_word_eqI) (auto simp: bit_take_bit_iff bit_bits_val)

lemma bits_val_Nil [simp]: "bits_val [] = 0"
  by (simp add: bits_val_def)

text \<open>\<^verbatim>\<open>u64::leading_zeros\<close>.\<close>

definition leading_zeros :: "u64 \<Rightarrow> nat" where
  "leading_zeros w = length (takeWhile Not (msb_bits 64 w))"

lemma leading_zeros_le: "leading_zeros w \<le> 64"
  using length_takeWhile_le [of Not "msb_bits 64 w"] by (simp add: leading_zeros_def)

lemma leading_zeros_split:
  assumes "leading_zeros w < k" and "k \<le> 64"
  shows "take k (msb_bits 64 w) = replicate (leading_zeros w) False @ True
    # drop (Suc (leading_zeros w)) (take k (msb_bits 64 w))"
proof -
  let ?bs = "msb_bits 64 w" and ?z = "leading_zeros w"
  have z: "?z < length ?bs" using assms by simp
  have tw: "takeWhile Not ?bs = replicate ?z False"
    by (rule replicate_eqI) (auto simp: leading_zeros_def dest: set_takeWhileD)
  have "take ?z ?bs = replicate ?z False"
    using tw by (metis leading_zeros_def takeWhile_eq_take)
  moreover have "?bs ! ?z"
    using nth_length_takeWhile [of Not ?bs] z by (simp add: leading_zeros_def)
  moreover have "take k ?bs = take ?z (take k ?bs) @ take k ?bs ! ?z # drop (Suc ?z) (take k ?bs)"
    using assms by (intro id_take_nth_drop) simp
  ultimately show ?thesis using assms by (simp add: min_absorb1)
qed

lemma leading_zeros_all:
  assumes "k \<le> leading_zeros w" and "k \<le> 64"
  shows "take k (msb_bits 64 w) = replicate k False"
proof -
  have "take k (msb_bits 64 w) = take k (takeWhile Not (msb_bits 64 w))"
    using assms(1) by (metis leading_zeros_def takeWhile_eq_take take_take min_absorb1)
  moreover have "takeWhile Not (msb_bits 64 w) = replicate (leading_zeros w) False"
    by (rule replicate_eqI) (auto simp: leading_zeros_def dest: set_takeWhileD)
  ultimately show ?thesis using assms by (simp add: min_absorb1)
qed

section \<open>A source of bits\<close>

text \<open>
  What a decoder relies on of a bit reader: a read of a field gives the next bits in order, a
  unary read counts the zeros before the next one, and a field past the end is an error. The
  bits a reader has left are \<open>remaining\<close>.
\<close>

locale bit_source =
  fixes ok :: "'s \<Rightarrow> bool"
    and remaining :: "'s \<Rightarrow> bool list"
    and fetch :: "'s \<Rightarrow> nat \<Rightarrow> 'e + (u64 \<times> 's)"
    and zeros :: "'s \<Rightarrow> nat \<Rightarrow> 'e + (nat \<times> 's)"
    and eof :: 'e
  assumes fetch_next: "ok s \<Longrightarrow> n \<le> 64 \<Longrightarrow> n \<le> length (remaining s) \<Longrightarrow>
      \<exists>s'. fetch s n = Inr (bits_val (take n (remaining s)), s') \<and> ok s'
        \<and> remaining s' = drop n (remaining s)"
    and fetch_past: "ok s \<Longrightarrow> n \<le> 64 \<Longrightarrow> length (remaining s) < n \<Longrightarrow> fetch s n = Inl eof"
    and zeros_next: "ok s \<Longrightarrow> remaining s = replicate k False @ True # rest \<Longrightarrow>
      \<exists>s'. zeros s z = Inr (z + k, s') \<and> ok s' \<and> remaining s' = rest"
    and zeros_past: "ok s \<Longrightarrow> True \<notin> set (remaining s) \<Longrightarrow> zeros s z = Inl eof"
begin

lemma fetch_field:
  assumes "ok s" and "n \<le> 64" and "remaining s = msb_bits n v @ rest"
  shows "\<exists>s'. fetch s n = Inr (take_bit n v, s') \<and> ok s' \<and> remaining s' = rest"
  using fetch_next [OF assms(1,2)] assms(3) by (simp add: bits_val_msb_bits)

lemma fetch_result:
  assumes "ok s" and "n \<le> 64"
  shows "fetch s n = Inl eof \<or>
    (\<exists>v s'. fetch s n = Inr (v, s') \<and> ok s' \<and> take_bit n v = v)"
proof (cases "n \<le> length (remaining s)")
  case True
  then obtain s' where "fetch s n = Inr (bits_val (take n (remaining s)), s')" "ok s'"
    "remaining s' = drop n (remaining s)"
    using fetch_next [OF assms] by blast
  then show ?thesis using take_bit_bits_val [of "take n (remaining s)"] True by simp
next
  case False
  then show ?thesis using fetch_past [OF assms] by simp
qed

lemma zeros_result:
  assumes "ok s"
  shows "zeros s z = Inl eof \<or>
    (\<exists>k s'. zeros s z = Inr (z + k, s') \<and> ok s')"
proof (cases "True \<in> set (remaining s)")
  case True
  then obtain us rest where split: "remaining s = us @ True # rest" "True \<notin> set us"
    by (meson split_list_first)
  then have "us = replicate (length us) False"
    by (intro replicate_eqI) auto
  then have "remaining s = replicate (length us) False @ True # rest" using split by simp
  from zeros_next [OF assms this]
  obtain s' where "zeros s z = Inr (z + length us, s')" "ok s'" "remaining s' = rest"
    by blast
  then show ?thesis using split by auto
next
  case False
  then show ?thesis using zeros_past [OF assms] by simp
qed

end

end
