(* ===== verification/Plane.thy ===== *)
theory Plane
  imports Fits_Types
begin

text \<open>
  The element types of image arrays and the sample planes of the codecs:
  \<^verbatim>\<open>Bitpix\<close> of \<^verbatim>\<open>src/image_model/bitpix/mod.rs\<close>, and \<^verbatim>\<open>IntBitpix\<close>, \<^verbatim>\<open>FloatBitpix\<close> and
  \<^verbatim>\<open>Plane\<close> of \<^verbatim>\<open>src/compression/plane.rs\<close>. A sample of an integer type is an \<open>int\<close> in the
  range of the type; \<open>int_range\<close> gives the range.
\<close>

section \<open>Bitpix\<close>

definition bitpix_try_from :: "int \<Rightarrow> bitpix fits_result" where
  "bitpix_try_from code =
     (if code = 8 then Inr U8
      else if code = 16 then Inr I16
      else if code = 32 then Inr I32
      else if code = 64 then Inr I64
      else if code = -32 then Inr F32
      else if code = -64 then Inr F64
      else Inl (InvalidBitpix code))"

fun bitpix_code :: "bitpix \<Rightarrow> int" where
  "bitpix_code U8 = 8"
| "bitpix_code I16 = 16"
| "bitpix_code I32 = 32"
| "bitpix_code I64 = 64"
| "bitpix_code F32 = -32"
| "bitpix_code F64 = -64"

definition bitpix_elem_size :: "bitpix \<Rightarrow> nat" where
  "bitpix_elem_size b = nat (\<bar>bitpix_code b\<bar>) div 8"

fun is_float :: "bitpix \<Rightarrow> bool" where
  "is_float F32 = True"
| "is_float F64 = True"
| "is_float _ = False"

definition is_integer :: "bitpix \<Rightarrow> bool" where
  "is_integer b = (\<not> is_float b)"

fun holds_integer :: "bitpix \<Rightarrow> int \<Rightarrow> bool" where
  "holds_integer U8 v = (0 \<le> v \<and> v \<le> 255)"
| "holds_integer I16 v = (-32768 \<le> v \<and> v \<le> 32767)"
| "holds_integer I32 v = (i32_min \<le> v \<and> v \<le> i32_max)"
| "holds_integer I64 v = True"
| "holds_integer F32 v = False"
| "holds_integer F64 v = False"

lemma bitpix_elem_size_cases [simp]:
  "bitpix_elem_size U8 = 1" "bitpix_elem_size I16 = 2" "bitpix_elem_size I32 = 4"
  "bitpix_elem_size I64 = 8" "bitpix_elem_size F32 = 4" "bitpix_elem_size F64 = 8"
  by (simp_all add: bitpix_elem_size_def)

lemma bitpix_code_inverse: "bitpix_try_from (bitpix_code b) = Inr b"
  by (cases b) (simp_all add: bitpix_try_from_def)

lemma bitpix_try_from_code: "bitpix_try_from c = Inr b \<Longrightarrow> bitpix_code b = c"
  by (auto simp: bitpix_try_from_def split: if_splits)

lemma bitpix_elem_size_pos: "0 < bitpix_elem_size b"
  by (cases b) simp_all

section \<open>Planes\<close>

datatype int_bitpix = IU8 | II16 | II32 | II64

datatype float_bitpix = FF32 | FF64

datatype plane = IntPlane int_bitpix | FloatPlane float_bitpix

definition from_bytepix :: "nat \<Rightarrow> int_bitpix option" where
  "from_bytepix bytepix =
     (if bytepix = 1 then Some IU8 else if bytepix = 2 then Some II16
      else if bytepix = 4 then Some II32 else if bytepix = 8 then Some II64 else None)"

fun int_bitpix_bitpix :: "int_bitpix \<Rightarrow> bitpix" where
  "int_bitpix_bitpix IU8 = U8"
| "int_bitpix_bitpix II16 = I16"
| "int_bitpix_bitpix II32 = I32"
| "int_bitpix_bitpix II64 = I64"

definition int_elem_size :: "int_bitpix \<Rightarrow> nat" where
  "int_elem_size b = bitpix_elem_size (int_bitpix_bitpix b)"

fun float_bitpix_bitpix :: "float_bitpix \<Rightarrow> bitpix" where
  "float_bitpix_bitpix FF32 = F32"
| "float_bitpix_bitpix FF64 = F64"

fun integer_width :: "float_bitpix \<Rightarrow> int_bitpix" where
  "integer_width FF32 = II32"
| "integer_width FF64 = II64"

definition float_elem_size :: "float_bitpix \<Rightarrow> nat" where
  "float_elem_size b = bitpix_elem_size (float_bitpix_bitpix b)"

fun plane_of :: "bitpix \<Rightarrow> plane" where
  "plane_of U8 = IntPlane IU8"
| "plane_of I16 = IntPlane II16"
| "plane_of I32 = IntPlane II32"
| "plane_of I64 = IntPlane II64"
| "plane_of F32 = FloatPlane FF32"
| "plane_of F64 = FloatPlane FF64"

text \<open>The element kind's \<^verbatim>\<open>BITPIX\<close>, of \<^verbatim>\<open>src/bintable/element_kind.rs\<close>, which
  \<open>int_from_tform\<close> reads.\<close>

fun element_bitpix :: "element_kind \<Rightarrow> bitpix option" where
  "element_bitpix ByteE = Some U8"
| "element_bitpix I16E = Some I16"
| "element_bitpix I32E = Some I32"
| "element_bitpix I64E = Some I64"
| "element_bitpix F32E = Some F32"
| "element_bitpix F64E = Some F64"
| "element_bitpix _ = None"

definition int_from_tform :: "element_kind \<Rightarrow> int_bitpix option" where
  "int_from_tform kind =
     (case element_bitpix kind of
        None \<Rightarrow> None
      | Some b \<Rightarrow> (case plane_of b of IntPlane i \<Rightarrow> Some i | FloatPlane _ \<Rightarrow> None))"

lemma int_elem_size_cases [simp]:
  "int_elem_size IU8 = 1" "int_elem_size II16 = 2" "int_elem_size II32 = 4" "int_elem_size II64 = 8"
  by (simp_all add: int_elem_size_def)

lemma from_bytepix_elem_size: "from_bytepix n = Some b \<longleftrightarrow> int_elem_size b = n"
  by (cases b) (auto simp: from_bytepix_def split: if_splits)

lemma plane_of_int: "plane_of (int_bitpix_bitpix b) = IntPlane b"
  by (cases b) simp_all

lemma integer_width_size: "int_elem_size (integer_width f) = float_elem_size f"
  by (cases f) (simp_all add: float_elem_size_def)

text \<open>The values of an integer type, one bound for each width.\<close>

definition int_bits :: "int_bitpix \<Rightarrow> nat" where
  "int_bits b = 8 * int_elem_size b"

fun in_width :: "int_bitpix \<Rightarrow> int \<Rightarrow> bool" where
  "in_width IU8 v = (0 \<le> v \<and> v < 2 ^ 8)"
| "in_width II16 v = (- (2 ^ 15) \<le> v \<and> v < 2 ^ 15)"
| "in_width II32 v = (- (2 ^ 31) \<le> v \<and> v < 2 ^ 31)"
| "in_width II64 v = (- (2 ^ 63) \<le> v \<and> v < 2 ^ 63)"

end
