(* ===== verification/Rice.thy ===== *)
theory Rice
  imports Bit_Stream Plane
begin

text \<open>
  The \<^verbatim>\<open>RICE_1\<close> tile codec of \<^verbatim>\<open>src/compression/rice/mod.rs\<close>: the bit writer \<open>bit_output\<close>,
  the bit reader \<open>bit_reader\<close> with its accumulator and refill, the encoder and the decoder. The
  accumulators are 64-bit words, a bit count or a position is a \<open>nat\<close>, a sample is an \<open>int\<close> of
  its type's range that the code casts to \<open>u64\<close>.
\<close>

section \<open>Parameters\<close>

definition BLOCKSIZE :: nat where "BLOCKSIZE = 32"

record split_params =
  sf_bits :: nat
  sf_max :: nat

fun split_field :: "int_bitpix \<Rightarrow> split_params" where
  "split_field IU8 = \<lparr>sf_bits = 3, sf_max = 6\<rparr>"
| "split_field II16 = \<lparr>sf_bits = 4, sf_max = 14\<rparr>"
| "split_field II32 = \<lparr>sf_bits = 5, sf_max = 25\<rparr>"
| "split_field II64 = \<lparr>sf_bits = 6, sf_max = 57\<rparr>"

record rice_codec =
  blocksize :: nat
  bytepix :: int_bitpix

definition width_mask :: "nat \<Rightarrow> u64" where
  "width_mask nbits = (if nbits \<ge> 64 then - 1 else push_bit nbits 1 - 1)"

text \<open>\<^verbatim>\<open>(v << shift).cast_signed() >> shift\<close>, an arithmetic shift.\<close>

definition sign_extend :: "u64 \<Rightarrow> nat \<Rightarrow> u64" where
  "sign_extend v nbits = (let shift = 64 - nbits in signed_drop_bit shift (push_bit shift v))"

section \<open>The bit writer\<close>

record bit_output =
  bo_out :: bytes
  bo_acc :: u64
  pending :: nat

definition bit_output_new :: "bytes \<Rightarrow> bit_output" where
  "bit_output_new out = \<lparr>bo_out = out, bo_acc = 0, pending = 0\<rparr>"

definition put :: "bit_output \<Rightarrow> u64 \<Rightarrow> nat \<Rightarrow> bit_output" where
  "put w bs n =
     (if n = 0 then w
      else
        let acc = bo_acc w OR push_bit (64 - pending w - n) bs;
            pend = pending w + n
        in if pend \<ge> 32
           then \<lparr>bo_out = bo_out w @ to_be32 (ucast (drop_bit 32 acc)),
                 bo_acc = push_bit 32 acc, pending = pend - 32\<rparr>
           else \<lparr>bo_out = bo_out w, bo_acc = acc, pending = pend\<rparr>)"

definition low_bits :: "nat \<Rightarrow> u64" where
  "low_bits n = (if n = 64 then - 1 else push_bit n 1 - 1)"

definition output_nbits :: "bit_output \<Rightarrow> u64 \<Rightarrow> nat \<Rightarrow> bit_output" where
  "output_nbits w bs n =
     (if n > 32
      then put (put w (drop_bit 32 bs AND low_bits (n - 32)) (n - 32)) (bs AND low_bits 32) 32
      else put w (bs AND low_bits n) n)"

function output_zeros :: "bit_output \<Rightarrow> nat \<Rightarrow> bit_output" where
  "output_zeros w n =
     (if n > 0 then let chunk = min n 32 in output_zeros (put w 0 chunk) (n - chunk) else w)"
  by pat_completeness auto
termination by (relation "measure snd") (auto simp: Let_def)

declare output_zeros.simps [simp del]

definition output_rice_value :: "bit_output \<Rightarrow> u64 \<Rightarrow> nat \<Rightarrow> u64 \<Rightarrow> bit_output" where
  "output_rice_value w v fs fsmask =
     (let top = unat (drop_bit fs v)
      in if top + 1 + fs \<le> 32
         then put w (push_bit fs 1 OR (v AND fsmask)) (top + 1 + fs)
         else output_nbits (put (output_zeros w top) 1 1) (v AND fsmask) fs)"

definition bit_output_finish :: "bit_output \<Rightarrow> bytes" where
  "bit_output_finish w =
     bo_out w @ take ((pending w + 7) div 8) (to_be64 (bo_acc w))"

section \<open>The bit reader\<close>

record bit_reader =
  br_bytes :: bytes
  br_pos :: nat
  br_acc :: u64
  br_nbits :: nat

definition bit_reader_new :: "bytes \<Rightarrow> bit_reader" where
  "bit_reader_new bs = \<lparr>br_bytes = bs, br_pos = 0, br_acc = 0, br_nbits = 0\<rparr>"

text \<open>The byte-at-a-time loop at the end of the stream.\<close>

function refill_bytes :: "bit_reader \<Rightarrow> bit_reader" where
  "refill_bytes r =
     (if br_nbits r \<le> 56 \<and> br_pos r < length (br_bytes r)
      then refill_bytes
             (r\<lparr>br_acc := br_acc r OR push_bit (56 - br_nbits r) (ucast (br_bytes r ! br_pos r)),
                br_pos := br_pos r + 1, br_nbits := br_nbits r + 8\<rparr>)
      else r)"
  by pat_completeness auto
termination by (relation "measure (\<lambda>r. length (br_bytes r) - br_pos r)") auto

declare refill_bytes.simps [simp del]

definition refill :: "bit_reader \<Rightarrow> bit_reader" where
  "refill r =
     (if br_pos r + 8 \<le> length (br_bytes r) then
        let word = take 8 (drop (br_pos r) (br_bytes r));
            added = (63 - br_nbits r) div 8
        in r\<lparr>br_acc := br_acc r OR drop_bit (br_nbits r) (from_be64 word),
             br_pos := br_pos r + added, br_nbits := br_nbits r + 8 * added\<rparr>
      else refill_bytes r)"

definition read_short :: "bit_reader \<Rightarrow> nat \<Rightarrow> (u64 \<times> bit_reader) fits_result" where
  "read_short r0 n =
     (let r = (if br_nbits r0 < n then refill r0 else r0)
      in if br_nbits r < n then Inl UnexpectedEof
         else Inr (drop_bit (63 - n) (drop_bit 1 (br_acc r)),
                   r\<lparr>br_acc := push_bit n (br_acc r), br_nbits := br_nbits r - n\<rparr>))"

definition read_wide :: "bit_reader \<Rightarrow> nat \<Rightarrow> (u64 \<times> bit_reader) fits_result" where
  "read_wide r n =
     (if n > 64 then Inl (from_compressed_data_defect (RiceBitField n))
      else bind (read_short r (n - 32)) (\<lambda>(high, r1).
           bind (read_short r1 32) (\<lambda>(low, r2). Inr (push_bit 32 high OR low, r2))))"

definition read_bits :: "bit_reader \<Rightarrow> nat \<Rightarrow> (u64 \<times> bit_reader) fits_result" where
  "read_bits r n = (if n \<le> 56 then read_short r n else read_wide r n)"

text \<open>The unary quotient: each round drops an all-zero accumulator, so the bytes left shrink.\<close>

lemma refill_bytes_frame:
  "br_bytes (refill_bytes r) = br_bytes r" "br_pos r \<le> br_pos (refill_bytes r)"
  "br_nbits r = 0 \<Longrightarrow> 0 < br_nbits (refill_bytes r) \<Longrightarrow> br_pos r < br_pos (refill_bytes r)"
  "br_pos r \<le> length (br_bytes r) \<Longrightarrow> br_pos (refill_bytes r) \<le> length (br_bytes r)"
proof -
  have "br_bytes (refill_bytes r) = br_bytes r \<and> br_pos r \<le> br_pos (refill_bytes r)
    \<and> (br_nbits r < br_nbits (refill_bytes r) \<longrightarrow> br_pos r < br_pos (refill_bytes r))
    \<and> (br_pos r \<le> length (br_bytes r) \<longrightarrow> br_pos (refill_bytes r) \<le> length (br_bytes r))"
  proof (induction r rule: refill_bytes.induct)
    case (1 r)
    show ?case
    proof (cases "br_nbits r \<le> 56 \<and> br_pos r < length (br_bytes r)")
      case True
      then show ?thesis using 1 by (auto simp: refill_bytes.simps [of r])
    next
      case False
      then have "refill_bytes r = r" by (subst refill_bytes.simps) auto
      then show ?thesis by simp
    qed
  qed
  then show "br_bytes (refill_bytes r) = br_bytes r" "br_pos r \<le> br_pos (refill_bytes r)"
    "br_nbits r = 0 \<Longrightarrow> 0 < br_nbits (refill_bytes r) \<Longrightarrow> br_pos r < br_pos (refill_bytes r)"
    "br_pos r \<le> length (br_bytes r) \<Longrightarrow> br_pos (refill_bytes r) \<le> length (br_bytes r)"
    by simp_all
qed

lemma refill_progress:
  "br_nbits r = 0 \<Longrightarrow> 0 < br_nbits (refill r) \<Longrightarrow>
     br_pos r < br_pos (refill r) \<and> (br_pos r < length (br_bytes r))"
proof -
  assume a: "br_nbits r = 0" "0 < br_nbits (refill r)"
  show ?thesis
  proof (cases "br_pos r + 8 \<le> length (br_bytes r)")
    case True
    then show ?thesis using a by (simp add: refill_def Let_def)
  next
    case False
    then have p: "br_pos r < br_pos (refill_bytes r)"
      using a refill_bytes_frame(3) [of r] by (simp add: refill_def)
    have "br_pos r < length (br_bytes r)"
      using p by (cases "br_pos r < length (br_bytes r)") (auto simp: refill_bytes.simps [of r])
    then show ?thesis using p False by (simp add: refill_def)
  qed
qed

lemma refill_bytes_same: "br_bytes (refill r) = br_bytes r"
  by (simp add: refill_def Let_def refill_bytes_frame)

function read_zeros :: "bit_reader \<Rightarrow> nat \<Rightarrow> (nat \<times> bit_reader) fits_result" where
  "read_zeros r0 z =
     (let r = (if br_nbits r0 = 0 then refill r0 else r0)
      in if br_nbits r = 0 then Inl UnexpectedEof
         else
           let run = leading_zeros (br_acc r)
           in if run < br_nbits r
              then Inr (z + run, r\<lparr>br_acc := push_bit (run + 1) (br_acc r),
                                   br_nbits := br_nbits r - (run + 1)\<rparr>)
              else read_zeros (r\<lparr>br_acc := 0, br_nbits := 0\<rparr>) (z + br_nbits r))"
  by pat_completeness auto
termination
proof (relation "measures [\<lambda>(r, z). length (br_bytes r) - br_pos r, \<lambda>(r, z). br_nbits r]",
    goal_cases)
  case 1
  then show ?case by simp
next
  case (2 r0 z r run)
  show ?case
  proof (cases "br_nbits r0 = 0")
    case True
    with 2 have "r = refill r0" by simp
    with 2 True refill_progress [of r0] refill_bytes_same [of r0] show ?thesis by auto
  next
    case False
    with 2 show ?thesis by simp
  qed
qed

declare read_zeros.simps [simp del]

section \<open>Decoding\<close>

definition rice_output :: "int_bitpix \<Rightarrow> u64 \<Rightarrow> int" where
  "rice_output bp pixel =
     (if bp \<noteq> IU8 then sint (sign_extend pixel (8 * int_elem_size bp)) else sint pixel)"

definition rice_next :: "u64 \<Rightarrow> u64 \<Rightarrow> u64 \<Rightarrow> u64" where
  "rice_next msk lastpix diff =
     (let d = (if diff AND 1 = 1 then NOT (drop_bit 1 diff) else drop_bit 1 diff)
      in (lastpix + d) AND msk)"

text \<open>A block of \<open>n\<close> samples: of uncompressed differences, and of split ones.\<close>

fun decode_raw :: "int_bitpix \<Rightarrow> u64 \<Rightarrow> nat \<Rightarrow> bit_reader \<Rightarrow> u64 \<Rightarrow>
    (int list \<times> bit_reader \<times> u64) fits_result" where
  "decode_raw bp msk 0 r lastpix = Inr ([], r, lastpix)"
| "decode_raw bp msk (Suc n) r lastpix =
     bind (read_bits r (8 * int_elem_size bp)) (\<lambda>(diff, r').
       let pix = rice_next msk lastpix diff in
       bind (decode_raw bp msk n r' pix) (\<lambda>(vs, r'', lp). Inr (rice_output bp pix # vs, r'', lp)))"

fun decode_split :: "int_bitpix \<Rightarrow> u64 \<Rightarrow> nat \<Rightarrow> nat \<Rightarrow> bit_reader \<Rightarrow> u64 \<Rightarrow>
    (int list \<times> bit_reader \<times> u64) fits_result" where
  "decode_split bp msk fs 0 r lastpix = Inr ([], r, lastpix)"
| "decode_split bp msk fs (Suc n) r lastpix =
     bind (read_zeros r 0) (\<lambda>(z, r1).
     bind (read_bits r1 fs) (\<lambda>(low, r2).
       let pix = rice_next msk lastpix (push_bit fs (of_nat z) OR low) in
       bind (decode_split bp msk fs n r2 pix) (\<lambda>(vs, r3, lp). Inr (rice_output bp pix # vs, r3, lp))))"

definition decode_block :: "int_bitpix \<Rightarrow> u64 \<Rightarrow> nat \<Rightarrow> bit_reader \<Rightarrow> u64 \<Rightarrow>
    (int list \<times> bit_reader \<times> u64) fits_result" where
  "decode_block bp msk n r lastpix =
     bind (read_bits r (sf_bits (split_field bp))) (\<lambda>(code, r1).
       if code = 0 then Inr (replicate n (rice_output bp lastpix), r1, lastpix)
       else if code - 1 = of_nat (sf_max (split_field bp)) then decode_raw bp msk n r1 lastpix
       else decode_split bp msk (unat (code - 1)) n r1 lastpix)"

text \<open>\<^verbatim>\<open>for block in out.chunks_mut(blocksize)\<close>, where \<open>count\<close> samples are left. A block size of
  0, at which \<^verbatim>\<open>chunks_mut\<close> panics, decodes to nothing here; \<^verbatim>\<open>tile_decoder\<close> admits 16 and 32
  only.\<close>

function decode_blocks :: "rice_codec \<Rightarrow> u64 \<Rightarrow> nat \<Rightarrow> bit_reader \<Rightarrow> u64 \<Rightarrow> int list fits_result" where
  "decode_blocks c msk count r lastpix =
     (if count = 0 \<or> blocksize c = 0 then Inr []
      else
        let n = min (blocksize c) count in
        bind (decode_block (bytepix c) msk n r lastpix) (\<lambda>(vs, r', lp).
        bind (decode_blocks c msk (count - n) r' lp) (\<lambda>rest. Inr (vs @ rest))))"
  by pat_completeness auto
termination by (relation "measure (\<lambda>(c, msk, count, r, lp). count)") auto

declare decode_blocks.simps [simp del]

definition rice_decode :: "rice_codec \<Rightarrow> bytes \<Rightarrow> nat \<Rightarrow> int list fits_result" where
  "rice_decode c bs count =
     (if count = 0 then Inr []
      else
        let nbits_pp = 8 * int_elem_size (bytepix c) in
        bind (read_bits (bit_reader_new bs) nbits_pp) (\<lambda>(lastpix, r).
          decode_blocks c (width_mask nbits_pp) count r lastpix))"

section \<open>Encoding\<close>

text \<open>The zigzag form of the difference modulo the pixel width.\<close>

definition rice_diff :: "nat \<Rightarrow> u64 \<Rightarrow> u64 \<Rightarrow> u64 \<Rightarrow> u64" where
  "rice_diff nbits msk lastpix next =
     (let raw = (next - lastpix) AND msk;
          s = sign_extend raw nbits;
          magnitude = (if 0 \<le> sint s then s else - s)
      in if 0 \<le> sint s then push_bit 1 magnitude else push_bit 1 magnitude - 1)"

fun block_diffs :: "nat \<Rightarrow> u64 \<Rightarrow> u64 \<Rightarrow> int list \<Rightarrow> u64 list \<times> u64" where
  "block_diffs nbits msk lastpix [] = ([], lastpix)"
| "block_diffs nbits msk lastpix (v # vs) =
     (let next = word_of_int v AND msk;
          d = rice_diff nbits msk lastpix next;
          (ds, lp) = block_diffs nbits msk next vs
      in (d # ds, lp))"

definition mean_less_one :: "nat \<Rightarrow> nat \<Rightarrow> nat" where
  "mean_less_one pixelsum block =
     (let quotient = pixelsum div block; remainder = pixelsum mod block
      in if quotient > 0 \<and> remainder < block div 2 + 1 then quotient - 1 else quotient)"

text \<open>\<^verbatim>\<open>while psum > 0 { fs += 1; psum >>= 1 }\<close>.\<close>

function split_of :: "nat \<Rightarrow> nat \<Rightarrow> nat" where
  "split_of fs psum = (if psum > 0 then split_of (fs + 1) (psum div 2) else fs)"
  by pat_completeness auto
termination by (relation "measure snd") auto

declare split_of.simps [simp del]

definition encode_block :: "int_bitpix \<Rightarrow> bit_output \<Rightarrow> u64 list \<Rightarrow> bit_output" where
  "encode_block bp w diffs =
     (let nbits = 8 * int_elem_size bp;
          fsbits = sf_bits (split_field bp);
          fsmax = sf_max (split_field bp);
          pixelsum = sum_list (map unat diffs);
          fs = split_of 0 (mean_less_one pixelsum (length diffs) div 2)
      in if fs \<ge> fsmax then
           foldl (\<lambda>w d. output_nbits w d nbits) (output_nbits w (of_nat (fsmax + 1)) fsbits) diffs
         else if fs = 0 \<and> pixelsum = 0 then output_nbits w 0 fsbits
         else
           foldl (\<lambda>w d. output_rice_value w d fs (push_bit fs 1 - 1))
             (output_nbits w (of_nat (fs + 1)) fsbits) diffs)"

function encode_blocks :: "rice_codec \<Rightarrow> u64 \<Rightarrow> bit_output \<Rightarrow> u64 \<Rightarrow> int list \<Rightarrow> bit_output" where
  "encode_blocks c msk w lastpix vs =
     (if vs = [] \<or> blocksize c = 0 then w
      else
        let (diffs, lp) = block_diffs (8 * int_elem_size (bytepix c)) msk lastpix (take (blocksize c) vs)
        in encode_blocks c msk (encode_block (bytepix c) w diffs) lp (drop (blocksize c) vs))"
  by pat_completeness auto
termination by (relation "measure (\<lambda>(c, msk, w, lp, vs). length vs)") auto

declare encode_blocks.simps [simp del]

definition rice_encode :: "rice_codec \<Rightarrow> int list \<Rightarrow> bytes" where
  "rice_encode c vs =
     (let nbits = 8 * int_elem_size (bytepix c);
          msk = width_mask nbits;
          first = word_of_int (case vs of [] \<Rightarrow> 0 | v # _ \<Rightarrow> v) AND msk
      in bit_output_finish
           (encode_blocks c msk (output_nbits (bit_output_new []) first nbits) first vs))"

end
