(* ===== verification/Rice_Bits.thy ===== *)
theory Rice_Bits
  imports Rice
begin

text \<open>
  The bit writer and the bit reader of the Rice codec against bit strings. The writer appends
  the bits of each value it puts; the reader is a \<open>bit_source\<close>, interpreted as \<open>br\<close>: its
  accumulator holds the next \<open>br_nbits\<close> bits of the stream, and the bits below them are zeros
  or the stream's next bits, as the reader's comment says.
\<close>

section \<open>The reader\<close>

definition br_remaining :: "bit_reader \<Rightarrow> bool list" where
  "br_remaining r = drop (8 * br_pos r - br_nbits r) (byte_bits (br_bytes r))"

definition acc_ok :: "bit_reader \<Rightarrow> bool" where
  "acc_ok r \<longleftrightarrow> br_pos r \<le> length (br_bytes r) \<and> br_nbits r \<le> 8 * br_pos r \<and> br_nbits r \<le> 64
     \<and> (\<forall>i < 64. i < br_nbits r \<longrightarrow> bit (br_acc r) (63 - i) = br_remaining r ! i)
     \<and> (\<forall>i < 64. bit (br_acc r) (63 - i) \<longrightarrow> i < length (br_remaining r) \<and> br_remaining r ! i)"

definition br_ok :: "bit_reader \<Rightarrow> bool" where
  "br_ok r \<longleftrightarrow> acc_ok r \<and> br_nbits r < 64"

lemma accD:
  assumes "acc_ok r" and "i < 64"
  shows "i < br_nbits r \<Longrightarrow> bit (br_acc r) (63 - i) = br_remaining r ! i"
    and "bit (br_acc r) (63 - i) \<Longrightarrow> i < length (br_remaining r) \<and> br_remaining r ! i"
  using assms unfolding acc_ok_def by blast+

lemma length_br_remaining:
  "acc_ok r \<Longrightarrow> length (br_remaining r) = 8 * (length (br_bytes r) - br_pos r) + br_nbits r"
  by (auto simp: br_remaining_def acc_ok_def)

lemma br_remaining_nth:
  "acc_ok r \<Longrightarrow> br_nbits r \<le> i \<Longrightarrow> i < length (br_remaining r) \<Longrightarrow>
    br_remaining r ! i = byte_bits (br_bytes r) ! (8 * br_pos r + (i - br_nbits r))"
  unfolding br_remaining_def acc_ok_def by (subst nth_drop) auto

lemma br_new_ok: "br_ok (bit_reader_new bs)"
  "br_remaining (bit_reader_new bs) = byte_bits bs"
  by (simp_all add: br_ok_def acc_ok_def bit_reader_new_def br_remaining_def)

lemma refill_bytes_step:
  assumes ok: "acc_ok r" and c: "br_nbits r \<le> 56" "br_pos r < length (br_bytes r)"
  defines "r' \<equiv> r\<lparr>br_acc := br_acc r OR push_bit (56 - br_nbits r) (ucast (br_bytes r ! br_pos r)),
    br_pos := br_pos r + 1, br_nbits := br_nbits r + 8\<rparr>"
  shows "acc_ok r' \<and> br_remaining r' = br_remaining r"
proof -
  have rem: "br_remaining r' = br_remaining r"
    using ok by (simp add: br_remaining_def r'_def acc_ok_def)
  have len: "br_nbits r + 8 \<le> length (br_remaining r)"
    using ok c by (simp add: length_br_remaining)
  have new: "bit (push_bit (56 - br_nbits r) (ucast (br_bytes r ! br_pos r)) :: u64) (63 - i)
      \<longleftrightarrow> br_nbits r \<le> i \<and> i < br_nbits r + 8 \<and> br_remaining r ! i" if i: "i < 64" for i
  proof (cases "br_nbits r \<le> i \<and> i < br_nbits r + 8")
    case True
    then have "br_remaining r ! i = byte_bits (br_bytes r) ! (8 * br_pos r + (i - br_nbits r))"
      using ok len by (intro br_remaining_nth) auto
    also have "\<dots> = bit (br_bytes r ! br_pos r) (7 - (i - br_nbits r))"
      using True c by (intro byte_bits_nth) auto
    finally have "br_remaining r ! i = bit (br_bytes r ! br_pos r) (7 - (i - br_nbits r))" .
    moreover have "63 - i - (56 - br_nbits r) = 7 - (i - br_nbits r)" using True i c by simp
    moreover have "56 - br_nbits r \<le> 63 - i" "7 - (i - br_nbits r) < 64" using True i c by auto
    moreover have "bit (push_bit (56 - br_nbits r) (ucast (br_bytes r ! br_pos r)) :: u64) (63 - i)
        \<longleftrightarrow> 56 - br_nbits r \<le> 63 - i \<and> bit (ucast (br_bytes r ! br_pos r) :: u64) (63 - i - (56 - br_nbits r))"
      by (subst bit_push_bit_iff) auto
    ultimately show ?thesis using True by (simp only: bit_ucast_iff) simp
  next
    case False
    then show ?thesis using i c
      by (auto simp: bit_simps dest: bit_imp_le_length)
  qed
  have acc: "bit (br_acc r') j \<longleftrightarrow> bit (br_acc r) j
      \<or> bit (push_bit (56 - br_nbits r) (ucast (br_bytes r ! br_pos r)) :: u64) j" for j
    by (simp add: r'_def bit_or_iff)
  have nb': "br_nbits r' = br_nbits r + 8" by (simp add: r'_def)
  show ?thesis
  proof (intro conjI)
    show "acc_ok r'"
      unfolding acc_ok_def
    proof (intro conjI allI impI)
      fix i :: nat assume "i < 64" "i < br_nbits r'"
      then show "bit (br_acc r') (63 - i) = br_remaining r' ! i"
        using accD [OF ok, of i] new [of i] acc [of "63 - i"] rem by (auto simp: nb')
    next
      fix i :: nat assume "i < 64" "bit (br_acc r') (63 - i)"
      then show "i < length (br_remaining r')" and "br_remaining r' ! i"
        using accD [OF ok, of i] new [of i] acc [of "63 - i"] rem len by auto
    qed (use ok c in \<open>auto simp: r'_def acc_ok_def\<close>)
    show "br_remaining r' = br_remaining r" by (rule rem)
  qed
qed

lemma refill_bytes_ok:
  "acc_ok r \<Longrightarrow> acc_ok (refill_bytes r) \<and> br_remaining (refill_bytes r) = br_remaining r
     \<and> (56 < br_nbits (refill_bytes r) \<or> br_nbits (refill_bytes r) = length (br_remaining r))"
proof (induction r rule: refill_bytes.induct)
  case (1 r)
  show ?case
  proof (cases "br_nbits r \<le> 56 \<and> br_pos r < length (br_bytes r)")
    case True
    then show ?thesis
      using 1 refill_bytes_step [of r] by (simp add: refill_bytes.simps [of r])
  next
    case False
    then have e: "refill_bytes r = r" by (subst refill_bytes.simps) auto
    show ?thesis
      using False "1.prems" length_br_remaining [of r] unfolding e acc_ok_def by auto
  qed
qed

lemma refill_ok:
  assumes ok: "acc_ok r" and lt: "br_nbits r < 64"
  shows "acc_ok (refill r) \<and> br_remaining (refill r) = br_remaining r
    \<and> (56 \<le> br_nbits (refill r) \<or> br_nbits (refill r) = length (br_remaining r))"
proof (cases "br_pos r + 8 \<le> length (br_bytes r)")
  case False
  then show ?thesis using refill_bytes_ok [OF ok] by (auto simp: refill_def)
next
  case True
  let ?added = "(63 - br_nbits r) div 8"
  let ?word = "take 8 (drop (br_pos r) (br_bytes r))"
  have lw: "length ?word = 8" using True by simp
  have r': "refill r = r\<lparr>br_acc := br_acc r OR drop_bit (br_nbits r) (from_be64 ?word),
      br_pos := br_pos r + ?added, br_nbits := br_nbits r + 8 * ?added\<rparr>"
    using True by (simp add: refill_def Let_def)
  have added: "56 \<le> br_nbits r + 8 * ?added" "br_nbits r + 8 * ?added \<le> 63" "?added \<le> 7"
    using lt by linarith+
  have rem: "br_remaining (refill r) = br_remaining r"
    using ok by (simp add: br_remaining_def r' acc_ok_def)
  have len: "64 \<le> length (br_remaining r)"
    using ok True by (simp add: length_br_remaining)
  have new: "bit (drop_bit (br_nbits r) (from_be64 ?word)) (63 - i)
      \<longleftrightarrow> br_nbits r \<le> i \<and> br_remaining r ! i" if i: "i < 64" for i
  proof (cases "br_nbits r \<le> i")
    case True
    have "br_nbits r + (63 - i) = 63 - (i - br_nbits r)" using True i by simp
    then have "bit (drop_bit (br_nbits r) (from_be64 ?word)) (63 - i)
        = bit (from_be64 ?word) (63 - (i - br_nbits r))"
      by (simp add: bit_drop_bit_eq)
    also have "\<dots> = byte_bits ?word ! (i - br_nbits r)"
      using lw i by (intro bit_from_be64) auto
    also have "byte_bits ?word = take 64 (drop (8 * br_pos r) (byte_bits (br_bytes r)))"
      using take_byte_bits [of 8] by (simp add: drop_byte_bits)
    also have "\<dots> ! (i - br_nbits r) = byte_bits (br_bytes r) ! (8 * br_pos r + (i - br_nbits r))"
      using i \<open>br_pos r + 8 \<le> length (br_bytes r)\<close> by (simp add: nth_drop)
    also have "\<dots> = br_remaining r ! i"
      using ok len True i by (intro br_remaining_nth [symmetric]) auto
    finally show ?thesis using True by simp
  next
    case False
    then show ?thesis using i by (auto simp: bit_simps dest: bit_imp_le_length)
  qed
  have acc: "bit (br_acc (refill r)) j \<longleftrightarrow> bit (br_acc r) j
      \<or> bit (drop_bit (br_nbits r) (from_be64 ?word)) j" for j
    by (simp add: r' bit_or_iff)
  have "acc_ok (refill r)"
    unfolding acc_ok_def
  proof (intro conjI allI impI)
    fix i :: nat assume "i < 64" "i < br_nbits (refill r)"
    then show "bit (br_acc (refill r)) (63 - i) = br_remaining (refill r) ! i"
      using accD [OF ok, of i] new [of i] acc [of "63 - i"] rem by auto
  next
    fix i :: nat assume "i < 64" "bit (br_acc (refill r)) (63 - i)"
    then show "i < length (br_remaining (refill r))" and "br_remaining (refill r) ! i"
      using accD [OF ok, of i] new [of i] acc [of "63 - i"] rem len by auto
  next
    show "br_pos (refill r) \<le> length (br_bytes (refill r))"
      using True added by (simp add: r')
    show "br_nbits (refill r) \<le> 8 * br_pos (refill r)" using ok by (simp add: r' acc_ok_def)
    show "br_nbits (refill r) \<le> 64" using added by (simp add: r')
  qed
  then show ?thesis using rem added by (simp add: r')
qed

lemma acc_top_bits:
  assumes ok: "acc_ok r" and n: "n \<le> br_nbits r"
  shows "take n (msb_bits 64 (br_acc r)) = take n (br_remaining r)"
proof (rule nth_equalityI)
  have n64: "n \<le> 64" using ok n by (simp add: acc_ok_def)
  have l: "n \<le> length (br_remaining r)" using length_br_remaining [OF ok] n by simp
  show "length (take n (msb_bits 64 (br_acc r))) = length (take n (br_remaining r))"
    using n64 l by simp
  fix i assume "i < length (take n (msb_bits 64 (br_acc r)))"
  then have i: "i < n" "i < 64" "i < br_nbits r" using n by auto
  have "bit (br_acc r) (63 - i) = br_remaining r ! i" by (rule accD(1) [OF ok i(2,3)])
  then show "take n (msb_bits 64 (br_acc r)) ! i = take n (br_remaining r) ! i"
    using i by (simp add: nth_msb_bits)
qed

text \<open>Dropping \<open>n\<close> bits from the accumulator drops them from the stream.\<close>

lemma shift_ok:
  assumes ok: "acc_ok r" and n: "n \<le> br_nbits r" "0 < n \<or> br_nbits r < 64"
  defines "r' \<equiv> r\<lparr>br_acc := push_bit n (br_acc r), br_nbits := br_nbits r - n\<rparr>"
  shows "br_ok r' \<and> br_remaining r' = drop n (br_remaining r)"
proof -
  have "8 * br_pos r - (br_nbits r - n) = 8 * br_pos r - br_nbits r + n"
    using ok n unfolding acc_ok_def by linarith
  then have rem: "br_remaining r' = drop n (br_remaining r)"
    by (simp add: br_remaining_def r'_def add.commute)
  have l: "n \<le> length (br_remaining r)" using length_br_remaining [OF ok] n by simp
  have b: "bit (br_acc r') (63 - i) = (i + n < 64 \<and> bit (br_acc r) (63 - (i + n)))" if "i < 64" for i
  proof -
    have "63 - i - n = 63 - (i + n)" by simp
    then show ?thesis using that by (auto simp: r'_def bit_simps)
  qed
  have "acc_ok r'"
    unfolding acc_ok_def
  proof (intro conjI allI impI)
    fix i :: nat assume i: "i < 64" "i < br_nbits r'"
    then have "i + n < br_nbits r" "i + n < 64" using n ok by (auto simp: r'_def acc_ok_def)
    then have "bit (br_acc r) (63 - (i + n)) = br_remaining r ! (i + n)"
      by (intro accD(1) [OF ok]) auto
    then show "bit (br_acc r') (63 - i) = br_remaining r' ! i"
      using b [OF i(1)] \<open>i + n < 64\<close> l by (simp only: rem) (simp add: add.commute)
  next
    fix i :: nat assume i: "i < 64" "bit (br_acc r') (63 - i)"
    then have "i + n < 64" "bit (br_acc r) (63 - (i + n))" using b by auto
    then have "i + n < length (br_remaining r) \<and> br_remaining r ! (i + n)"
      by (intro accD(2) [OF ok])
    then show "i < length (br_remaining r')" and "br_remaining r' ! i"
      using l by (auto simp: rem add.commute)
  qed (use ok in \<open>auto simp: r'_def acc_ok_def\<close>)
  moreover have "br_nbits r' < 64" using ok n by (auto simp: r'_def acc_ok_def)
  ultimately show ?thesis using rem by (simp add: br_ok_def)
qed

lemma read_short_next:
  assumes ok: "br_ok r" and n: "n \<le> 56" "n \<le> length (br_remaining r)"
  shows "\<exists>r'. read_short r n = Inr (bits_val (take n (br_remaining r)), r') \<and> br_ok r'
    \<and> br_remaining r' = drop n (br_remaining r)"
proof -
  define s where "s = (if br_nbits r < n then refill r else r)"
  have s: "acc_ok s" "br_remaining s = br_remaining r" "n \<le> br_nbits s" "0 < n \<or> br_nbits s < 64"
    using ok refill_ok [of r] n by (auto simp: s_def br_ok_def)
  have "take n (br_remaining r) = msb_bits n (drop_bit (64 - n) (br_acc s))"
    using acc_top_bits [OF s(1,3)] n s(2) by (simp add: take_msb_bits)
  then have "bits_val (take n (br_remaining r)) = take_bit n (drop_bit (64 - n) (br_acc s))"
    by (simp add: bits_val_msb_bits)
  also have "\<dots> = drop_bit (64 - n) (br_acc s)"
    by (intro bit_word_eqI) (auto simp: bit_simps dest: bit_imp_le_length)
  also have "64 - n = 63 - n + 1" using n by simp
  also have "drop_bit \<dots> (br_acc s) = drop_bit (63 - n) (drop_bit 1 (br_acc s))" by simp
  finally have v: "bits_val (take n (br_remaining r)) = drop_bit (63 - n) (drop_bit 1 (br_acc s))" .
  show ?thesis
    using shift_ok [OF s(1,3,4)] s v unfolding read_short_def s_def [symmetric] by (simp add: Let_def)
qed

lemma read_short_past:
  assumes ok: "br_ok r" and n: "n \<le> 56" "length (br_remaining r) < n"
  shows "read_short r n = Inl UnexpectedEof"
proof -
  have "br_nbits r < n" using ok n length_br_remaining [of r] by (simp add: br_ok_def)
  moreover have "br_nbits (refill r) < n"
    using ok n refill_ok [of r] length_br_remaining [of "refill r"] by (auto simp: br_ok_def)
  ultimately show ?thesis by (simp add: read_short_def)
qed

lemma read_bits_next:
  assumes ok: "br_ok r" and n: "n \<le> 64" "n \<le> length (br_remaining r)"
  shows "\<exists>r'. read_bits r n = Inr (bits_val (take n (br_remaining r)), r') \<and> br_ok r'
    \<and> br_remaining r' = drop n (br_remaining r)"
proof (cases "n \<le> 56")
  case True
  then show ?thesis using read_short_next [OF ok] n by (simp add: read_bits_def)
next
  case False
  obtain r1 where r1: "read_short r (n - 32) = Inr (bits_val (take (n - 32) (br_remaining r)), r1)"
    "br_ok r1" "br_remaining r1 = drop (n - 32) (br_remaining r)"
    using read_short_next [OF ok, of "n - 32"] n by fastforce
  obtain r2 where r2: "read_short r1 32 = Inr (bits_val (take 32 (br_remaining r1)), r2)"
    "br_ok r2" "br_remaining r2 = drop 32 (br_remaining r1)"
    using read_short_next [OF r1(2), of 32] n r1(3) False by fastforce
  have n32: "n = (n - 32) + 32" using False by simp
  have "take n (br_remaining r) = take (n - 32) (br_remaining r) @ take 32 (br_remaining r1)"
    using r1(3) n32 by (metis take_add)
  moreover have "length (take 32 (br_remaining r1)) = 32" using r1(3) n False by simp
  ultimately have "bits_val (take n (br_remaining r))
      = push_bit 32 (bits_val (take (n - 32) (br_remaining r))) OR (bits_val (take 32 (br_remaining r1)) :: u64)"
    by (metis bits_val_append)
  moreover have "br_remaining r2 = drop n (br_remaining r)"
    using r1(3) r2(3) n32 by (simp add: add.commute)
  ultimately show ?thesis
    using False n r1(1) r2(1,2) by (simp add: read_bits_def read_wide_def)
qed

lemma read_bits_past:
  assumes ok: "br_ok r" and n: "n \<le> 64" "length (br_remaining r) < n"
  shows "read_bits r n = Inl UnexpectedEof"
proof (cases "n \<le> 56")
  case True
  then show ?thesis using read_short_past [OF ok] n by (simp add: read_bits_def)
next
  case False
  show ?thesis
  proof (cases "n - 32 \<le> length (br_remaining r)")
    case True
    then obtain v r1 where r1: "read_short r (n - 32) = Inr (v, r1)" "br_ok r1"
      "br_remaining r1 = drop (n - 32) (br_remaining r)"
      using read_short_next [OF ok, of "n - 32"] n by fastforce
    then have "read_short r1 32 = Inl UnexpectedEof"
      using n False by (intro read_short_past) auto
    then show ?thesis using False n r1(1) by (simp add: read_bits_def read_wide_def)
  next
    case short: False
    then have "read_short r (n - 32) = Inl UnexpectedEof"
      using n ok by (intro read_short_past) auto
    then show ?thesis using False n by (simp add: read_bits_def read_wide_def)
  qed
qed

text \<open>A unary read: the accumulator's next bits, and the rounds that drop them all.\<close>

lemma read_zeros_step:
  assumes ok: "br_ok r" and some: "br_remaining r \<noteq> []"
  defines "s \<equiv> if br_nbits r = 0 then refill r else r"
  shows "br_ok s" "br_remaining s = br_remaining r" "0 < br_nbits s"
proof -
  have a: "acc_ok r" using ok by (simp add: br_ok_def)
  note rf = refill_ok [OF a]
  have len: "length (br_remaining r) = 8 * (length (br_bytes r) - br_pos r) + br_nbits r"
    by (rule length_br_remaining [OF a])
  have lt: "br_nbits (refill r) < 64" if z: "br_nbits r = 0"
  proof (cases "br_pos r + 8 \<le> length (br_bytes r)")
    case True
    then show ?thesis using z by (simp add: refill_def Let_def)
  next
    case False
    then have "length (br_remaining r) < 64" using len z by simp
    then show ?thesis
      using rf z length_br_remaining [of "refill r"] by auto
  qed
  show "br_ok s" using ok rf lt by (auto simp: s_def br_ok_def)
  show "br_remaining s = br_remaining r" using rf ok by (auto simp: s_def br_ok_def)
  show "0 < br_nbits s" using rf some by (auto simp: s_def)
qed

lemma drop_acc_ok:
  assumes "br_ok r"
  shows "br_ok (r\<lparr>br_acc := 0, br_nbits := 0\<rparr>)"
    "br_remaining (r\<lparr>br_acc := 0, br_nbits := 0\<rparr>) = drop (br_nbits r) (br_remaining r)"
proof -
  have "8 * br_pos r = br_nbits r + (8 * br_pos r - br_nbits r)"
    using assms by (simp add: br_ok_def acc_ok_def)
  then show "br_remaining (r\<lparr>br_acc := 0, br_nbits := 0\<rparr>) = drop (br_nbits r) (br_remaining r)"
    by (simp add: br_remaining_def)
  show "br_ok (r\<lparr>br_acc := 0, br_nbits := 0\<rparr>)"
    using assms by (simp add: br_ok_def acc_ok_def)
qed

lemma read_zeros_eof:
  assumes "br_ok r" and "br_remaining r = []"
  shows "read_zeros r z = Inl UnexpectedEof"
proof -
  have "br_nbits r = 0" "br_nbits (refill r) = 0"
    using assms length_br_remaining [of r] refill_ok [of r] length_br_remaining [of "refill r"]
    by (auto simp: br_ok_def)
  then show ?thesis by (subst read_zeros.simps) (simp add: Let_def)
qed

text \<open>One round: the accumulator's \<open>n\<close> bits hold the next 1, or are all zero.\<close>

lemma read_zeros_round:
  assumes ok: "br_ok r" and some: "br_remaining r \<noteq> []"
  shows "(\<exists>k r' rest. br_remaining r = replicate k False @ True # rest
        \<and> read_zeros r z = Inr (z + k, r') \<and> br_ok r' \<and> br_remaining r' = rest)
    \<or> (\<exists>n s. 0 < n \<and> n \<le> length (br_remaining r) \<and> take n (br_remaining r) = replicate n False
        \<and> read_zeros r z = read_zeros s (z + n) \<and> br_ok s \<and> br_remaining s = drop n (br_remaining r))"
proof -
  define s where "s = (if br_nbits r = 0 then refill r else r)"
  have s: "br_ok s" "br_remaining s = br_remaining r" "0 < br_nbits s"
    using read_zeros_step [OF ok some] by (simp_all add: s_def)
  have a: "acc_ok s" and n64: "br_nbits s < 64" using s(1) by (auto simp: br_ok_def)
  have len: "br_nbits s \<le> length (br_remaining s)" using length_br_remaining [OF a] by simp
  let ?run = "leading_zeros (br_acc s)"
  let ?n = "br_nbits s"
  have top: "take ?n (msb_bits 64 (br_acc s)) = take ?n (br_remaining s)"
    using acc_top_bits [OF a, of ?n] by simp
  show ?thesis
  proof (cases "?run < ?n")
    case True
    let ?s' = "s\<lparr>br_acc := push_bit (?run + 1) (br_acc s), br_nbits := ?n - (?run + 1)\<rparr>"
    have eq: "read_zeros r z = Inr (z + ?run, ?s')"
      using True s(3) by (subst read_zeros.simps) (simp add: Let_def s_def [symmetric])
    have sh: "br_ok ?s'" "br_remaining ?s' = drop (?run + 1) (br_remaining s)"
      using shift_ok [OF a, of "?run + 1"] True by auto
    have "take ?n (br_remaining s)
        = replicate ?run False @ True # drop (Suc ?run) (take ?n (br_remaining s))"
      using leading_zeros_split [OF True] n64 top by simp
    then have "take (Suc ?run) (take ?n (br_remaining s)) = replicate ?run False @ [True]"
      by (metis (no_types, lifting) append_take_drop_id append_Cons append_Nil append_assoc
          append_eq_append_conv append_same_eq)
    then have "take (Suc ?run) (br_remaining s) = replicate ?run False @ [True]"
      using True by (simp add: min_def)
    then have "br_remaining s = (replicate ?run False @ [True]) @ drop (Suc ?run) (br_remaining s)"
      by (metis append_take_drop_id)
    then have "br_remaining r = replicate ?run False @ True # drop (Suc ?run) (br_remaining s)"
      using s(2) by simp
    then show ?thesis using eq sh by auto
  next
    case False
    have "take ?n (br_remaining s) = replicate ?n False"
      using leading_zeros_all [of ?n "br_acc s"] False n64 top by simp
    moreover have "read_zeros r z = read_zeros (s\<lparr>br_acc := 0, br_nbits := 0\<rparr>) (z + ?n)"
      using False s(3) by (subst read_zeros.simps) (simp add: Let_def s_def [symmetric])
    ultimately show ?thesis using s drop_acc_ok [OF s(1)] len by auto
  qed
qed

lemma unary_unique:
  assumes "replicate j False @ True # a = replicate k False @ True # b"
  shows "j = k \<and> a = b"
proof -
  have len: "length (takeWhile Not (replicate n False @ True # c)) = n" for n c
    by (induction n) auto
  have "j = k" using arg_cong [OF assms, of "\<lambda>bs. length (takeWhile Not bs)"] by (simp only: len)
  then show ?thesis using assms by simp
qed

lemma read_zeros_next:
  assumes "br_ok r" and "br_remaining r = replicate k False @ True # rest"
  shows "\<exists>r'. read_zeros r z = Inr (z + k, r') \<and> br_ok r' \<and> br_remaining r' = rest"
  using assms
proof (induction k arbitrary: r z rule: less_induct)
  case (less k)
  have some: "br_remaining r \<noteq> []" using less.prems(2) by simp
  from read_zeros_round [OF less.prems(1) some, of z] show ?case
  proof (elim disjE exE conjE)
    fix j r' rest'
    assume "br_remaining r = replicate j False @ True # rest'" "read_zeros r z = Inr (z + j, r')"
      "br_ok r'" "br_remaining r' = rest'"
    moreover from this have "j = k \<and> rest' = rest"
      by (intro unary_unique) (simp only: less.prems(2))
    ultimately show ?thesis by blast
  next
    fix n s
    assume n: "0 < n" "take n (br_remaining r) = replicate n False" "br_ok s"
      and eq: "read_zeros r z = read_zeros s (z + n)" "br_remaining s = drop n (br_remaining r)"
      and len: "n \<le> length (br_remaining r)"
    have "n \<le> k"
    proof (rule ccontr)
      assume "\<not> n \<le> k"
      then have k: "k < n" by simp
      have "br_remaining r ! k = take n (br_remaining r) ! k" by (simp add: k)
      also have "\<dots> = False" by (simp add: n(2) k)
      finally show False using less.prems(2) by (simp add: nth_append)
    qed
    then have "br_remaining s = replicate (k - n) False @ True # rest"
      using eq(2) less.prems(2) by simp
    from less.IH [OF _ n(3) this, of "z + n"] n(1) \<open>n \<le> k\<close> eq(1) show ?thesis by simp
  qed
qed

lemma read_zeros_past:
  assumes "br_ok r" and "True \<notin> set (br_remaining r)"
  shows "read_zeros r z = Inl UnexpectedEof"
  using assms
proof (induction "length (br_remaining r)" arbitrary: r z rule: less_induct)
  case less
  show ?case
  proof (cases "br_remaining r = []")
    case True
    then show ?thesis using read_zeros_eof less.prems(1) by blast
  next
    case False
    from read_zeros_round [OF less.prems(1) False, of z] show ?thesis
    proof (elim disjE exE conjE)
      fix j rest'
      assume "br_remaining r = replicate j False @ True # rest'"
      then show ?thesis using less.prems(2) by simp
    next
      fix n s
      assume n: "0 < n" "n \<le> length (br_remaining r)" "br_ok s"
        and eq: "read_zeros r z = read_zeros s (z + n)" "br_remaining s = drop n (br_remaining r)"
      have "length (br_remaining s) < length (br_remaining r)" using n eq(2) by simp
      moreover have "True \<notin> set (br_remaining s)"
        using less.prems(2) eq(2) by (metis in_set_dropD)
      ultimately show ?thesis using less.hyps [of s "z + n"] n(3) eq(1) by simp
    qed
  qed
qed

interpretation br: bit_source br_ok br_remaining read_bits "read_zeros" UnexpectedEof
proof unfold_locales
  fix s n
  assume ok: "br_ok s" and n: "n \<le> (64::nat)"
  show "\<exists>s'. read_bits s n = Inr (bits_val (take n (br_remaining s)), s') \<and> br_ok s'
      \<and> br_remaining s' = drop n (br_remaining s)" if "n \<le> length (br_remaining s)"
    by (rule read_bits_next [OF ok n that])
  show "read_bits s n = Inl UnexpectedEof" if "length (br_remaining s) < n"
    by (rule read_bits_past [OF ok n that])
qed (auto intro: read_zeros_next read_zeros_past)

section \<open>The writer\<close>

text \<open>The writer's bits: those it has written and its pending ones.\<close>

definition w_bits :: "bit_output \<Rightarrow> bool list" where
  "w_bits w = byte_bits (bo_out w) @ take (pending w) (msb_bits 64 (bo_acc w))"

definition w_ok :: "bit_output \<Rightarrow> bool" where
  "w_ok w \<longleftrightarrow> pending w < 32 \<and> (\<forall>i < 64 - pending w. \<not> bit (bo_acc w) i)"

lemma w_new_ok: "w_ok (bit_output_new out)" "w_bits (bit_output_new out) = byte_bits out"
  by (simp_all add: w_ok_def w_bits_def bit_output_new_def)

lemma put_bits:
  fixes acc bs :: u64
  assumes p: "p < 32" "\<forall>i < 64 - p. \<not> bit acc i" and n: "n \<le> 32" "\<forall>i \<ge> n. \<not> bit bs i"
  shows "take (p + n) (msb_bits 64 (acc OR push_bit (64 - p - n) bs))
      = take p (msb_bits 64 acc) @ msb_bits n bs" (is "?l = ?r")
    and "\<forall>i < 64 - (p + n). \<not> bit (acc OR push_bit (64 - p - n) bs) i"
proof -
  show "?l = ?r"
  proof (rule nth_equalityI)
    fix i assume "i < length ?l"
    then have i: "i < p + n" "i < 64" using p n by auto
    have l: "?l ! i \<longleftrightarrow> bit acc (63 - i) \<or> bit (push_bit (64 - p - n) bs) (63 - i)"
      using i by (simp add: nth_msb_bits bit_or_iff)
    show "?l ! i = ?r ! i"
    proof (cases "i < p")
      case True
      then have "\<not> bit (push_bit (64 - p - n) bs) (63 - i)"
        using p(1) n by (auto simp: bit_push_bit_iff)
      then show ?thesis using True i l p(1) by (simp add: nth_append nth_msb_bits)
    next
      case False
      then have "\<not> bit acc (63 - i)" using p i by auto
      moreover have "bit (push_bit (64 - p - n) bs) (63 - i) \<longleftrightarrow> bit bs (n - Suc (i - p))"
      proof -
        have "64 - p - n \<le> 63 - i" "63 - i - (64 - p - n) = n - Suc (i - p)"
          using False i p n by auto
        moreover have "63 - i < (64::nat)" by simp
        ultimately show ?thesis by (simp only: bit_push_bit_iff) simp
      qed
      ultimately show ?thesis using False i l p(1) by (simp add: nth_append nth_msb_bits)
    qed
  qed (use p n in simp)
  show "\<forall>i < 64 - (p + n). \<not> bit (acc OR push_bit (64 - p - n) bs) i"
    using p by (auto simp: bit_or_iff bit_push_bit_iff)
qed

lemma flush_bits:
  fixes acc :: u64
  assumes "32 \<le> n" "n \<le> 64" and z: "\<forall>i < 64 - n. \<not> bit acc i"
  shows "byte_bits (to_be32 (ucast (drop_bit 32 acc))) @ take (n - 32) (msb_bits 64 (push_bit 32 acc))
      = take n (msb_bits 64 acc)"
    and "\<forall>i < 64 - (n - 32). \<not> bit (push_bit 32 acc) i"
proof -
  have "msb_bits 32 (ucast (drop_bit 32 acc) :: u32) = msb_bits 32 (drop_bit 32 acc)"
    by (rule nth_equalityI) (auto simp: nth_msb_bits bit_simps)
  then have "byte_bits (to_be32 (ucast (drop_bit 32 acc))) = take 32 (msb_bits 64 acc)"
    by (simp add: byte_bits_to_be take_msb_bits)
  moreover have "take (n - 32) (msb_bits 64 (push_bit 32 acc)) = take (n - 32) (drop 32 (msb_bits 64 acc))"
    using assms(1,2) by (intro nth_equalityI) (auto simp: nth_msb_bits bit_simps)
  ultimately show "byte_bits (to_be32 (ucast (drop_bit 32 acc)))
      @ take (n - 32) (msb_bits 64 (push_bit 32 acc)) = take n (msb_bits 64 acc)"
    using assms(1) take_add [of 32 "n - 32" "msb_bits 64 acc"] by simp
  show "\<forall>i < 64 - (n - 32). \<not> bit (push_bit 32 acc) i"
    using assms by (auto simp: bit_push_bit_iff)
qed

lemma put_ok:
  assumes w: "w_ok w" and n: "n \<le> 32" "\<forall>i \<ge> n. \<not> bit bs i"
  shows "w_ok (put w bs n)" "w_bits (put w bs n) = w_bits w @ msb_bits n bs"
proof -
  let ?acc = "bo_acc w OR push_bit (64 - pending w - n) bs"
  have p: "pending w < 32" "\<forall>i < 64 - pending w. \<not> bit (bo_acc w) i"
    using w by (auto simp: w_ok_def)
  note pb = put_bits [OF p n]
  have "w_ok (put w bs n) \<and> w_bits (put w bs n) = w_bits w @ msb_bits n bs"
  proof (cases "n = 0")
    case True
    then show ?thesis using w by (simp add: put_def)
  next
    case n0: False
    show ?thesis
    proof (cases "32 \<le> pending w + n")
      case True
      have "pending w + n \<le> 64" using p n by simp
      note fb = flush_bits [OF True this pb(2)]
      show ?thesis
        using True n0 fb pb(1) p n by (simp add: put_def Let_def w_ok_def w_bits_def)
    next
      case False
      then show ?thesis using n0 pb by (simp add: put_def Let_def w_ok_def w_bits_def)
    qed
  qed
  then show "w_ok (put w bs n)" "w_bits (put w bs n) = w_bits w @ msb_bits n bs" by simp_all
qed

lemma low_bits_mask: "n \<le> 64 \<Longrightarrow> low_bits n = mask n"
  using mask_eq_exp_minus_1 [of n, where ?'a = u64]
  by (cases "n = 64") (simp_all add: low_bits_def mask_eq_exp_minus_1)

lemma and_low_bits: "n \<le> 64 \<Longrightarrow> v AND low_bits n = take_bit n v"
  by (simp add: low_bits_mask take_bit_eq_mask)

lemma not_bit_take_bit: "\<forall>i \<ge> n. \<not> bit (take_bit n (v :: u64)) i"
  by (simp add: bit_take_bit_iff)

lemma output_nbits_ok:
  assumes w: "w_ok w" and n: "n \<le> 64"
  shows "w_ok (output_nbits w v n)" "w_bits (output_nbits w v n) = w_bits w @ msb_bits n v"
proof -
  have "w_ok (output_nbits w v n) \<and> w_bits (output_nbits w v n) = w_bits w @ msb_bits n v"
  proof (cases "n > 32")
    case True
    let ?w = "put w (take_bit (n - 32) (drop_bit 32 v)) (n - 32)"
    have "n = (n - 32) + 32" using True by simp
    then have "msb_bits n v = msb_bits (n - 32) (drop_bit 32 v) @ msb_bits 32 v"
      by (metis msb_bits_append)
    moreover have "w_ok ?w" "w_bits ?w = w_bits w @ msb_bits (n - 32) (drop_bit 32 v)"
      using put_ok [OF w, of "n - 32" "take_bit (n - 32) (drop_bit 32 v)"] n not_bit_take_bit
      by (auto simp: msb_bits_take_bit)
    moreover have "output_nbits w v n = put ?w (take_bit 32 v) 32"
      using True n by (simp add: output_nbits_def and_low_bits)
    ultimately show ?thesis
      using put_ok [of ?w 32 "take_bit 32 v"] not_bit_take_bit by (auto simp: msb_bits_take_bit)
  next
    case False
    then show ?thesis
      using put_ok [OF w, of n "take_bit n v"] not_bit_take_bit
      by (auto simp: output_nbits_def and_low_bits msb_bits_take_bit)
  qed
  then show "w_ok (output_nbits w v n)" "w_bits (output_nbits w v n) = w_bits w @ msb_bits n v"
    by simp_all
qed

lemma output_zeros_ok:
  "w_ok w \<Longrightarrow> w_ok (output_zeros w n) \<and> w_bits (output_zeros w n) = w_bits w @ replicate n False"
proof (induction w n rule: output_zeros.induct)
  case (1 w n)
  show ?case
  proof (cases "n > 0")
    case True
    let ?c = "min n 32"
    have p: "w_ok (put w 0 ?c)" "w_bits (put w 0 ?c) = w_bits w @ replicate ?c False"
      using put_ok [OF "1.prems", of ?c 0] by (auto simp: msb_bits_zero)
    moreover have "replicate ?c False @ replicate (n - ?c) False = replicate n False"
      by (simp add: replicate_add [symmetric])
    ultimately show ?thesis
      using True "1.IH" [OF True refl p(1)]
      by (subst (1 2) output_zeros.simps) (simp add: Let_def)
  next
    case False
    then have "output_zeros w n = w" by (subst output_zeros.simps) simp
    then show ?thesis using "1.prems" False by simp
  qed
qed

lemma rice_code_bits:
  assumes "t + 1 + fs \<le> 32"
  shows "msb_bits (t + 1 + fs) (push_bit fs 1 OR take_bit fs (v :: u64))
      = replicate t False @ True # msb_bits fs v"
    and "\<forall>i \<ge> t + 1 + fs. \<not> bit (push_bit fs 1 OR take_bit fs (v :: u64)) i"
proof -
  let ?x = "push_bit fs 1 OR take_bit fs v"
  have b: "bit ?x i \<longleftrightarrow> i = fs \<or> i < fs \<and> bit v i" for i
    using assms by (cases "i = fs") (auto simp: bit_or_iff bit_exp_iff bit_take_bit_iff)
  show "msb_bits (t + 1 + fs) ?x = replicate t False @ True # msb_bits fs v"
  proof (rule nth_equalityI)
    fix i assume "i < length (msb_bits (t + 1 + fs) ?x)"
    then have i: "i < t + 1 + fs" by simp
    then have l: "msb_bits (t + 1 + fs) ?x ! i = bit ?x (t + 1 + fs - Suc i)"
      by (rule nth_msb_bits)
    consider "i < t" | "i = t" | j where "i = t + Suc j" "j < fs"
      using i by (metis add_Suc_right add_diff_inverse_nat less_antisym linorder_neqE_nat
          nat_add_left_cancel_less plus_1_eq_Suc add.commute add.left_commute less_natE)
    then show "msb_bits (t + 1 + fs) ?x ! i = (replicate t False @ True # msb_bits fs v) ! i"
    proof cases
      case 1
      then have "t + 1 + fs - Suc i > fs" by simp
      then show ?thesis using 1 unfolding l b by (simp add: nth_append)
    next
      case 2
      then show ?thesis unfolding l b by (simp add: nth_append)
    next
      case 3
      then have "fs - Suc j \<noteq> fs" "t + 1 + fs - Suc i = fs - Suc j" by auto
      then show ?thesis using 3 unfolding l b by (simp add: nth_append nth_msb_bits)
    qed
  qed simp
  show "\<forall>i \<ge> t + 1 + fs. \<not> bit ?x i" using b by simp
qed

lemma output_rice_value_ok:
  assumes w: "w_ok w" and fs: "fs < 64"
  shows "w_ok (output_rice_value w v fs (push_bit fs 1 - 1))"
    "w_bits (output_rice_value w v fs (push_bit fs 1 - 1))
      = w_bits w @ replicate (unat (drop_bit fs v)) False @ True # msb_bits fs v"
proof -
  let ?top = "unat (drop_bit fs v)"
  have m: "v AND (push_bit fs 1 - 1) = take_bit fs v"
    using and_low_bits [of fs v] fs by (simp add: low_bits_def)
  have "w_ok (output_rice_value w v fs (push_bit fs 1 - 1))
    \<and> w_bits (output_rice_value w v fs (push_bit fs 1 - 1))
      = w_bits w @ replicate ?top False @ True # msb_bits fs v"
  proof (cases "?top + 1 + fs \<le> 32")
    case True
    then show ?thesis
      using put_ok [OF w True rice_code_bits(2) [OF True, of v]] rice_code_bits(1) [OF True, of v]
      by (simp only: output_rice_value_def Let_def m if_True)
  next
    case False
    let ?z = "put (output_zeros w ?top) 1 1"
    have "\<forall>i \<ge> 1. \<not> bit (1 :: u64) i" by (auto simp: bit_1_iff)
    then have z: "w_ok ?z" "w_bits ?z = w_bits w @ replicate ?top False @ [True]"
      using put_ok [of "output_zeros w ?top" 1 1] output_zeros_ok [OF w, of ?top]
      by (auto simp: msb_bits_def)
    have "msb_bits fs (take_bit fs v) = msb_bits fs v" by (rule msb_bits_take_bit)
    then show ?thesis
      using False output_nbits_ok [OF z(1), of fs "take_bit fs v"] z(2) fs
      by (simp only: output_rice_value_def Let_def m if_False) simp
  qed
  then show "w_ok (output_rice_value w v fs (push_bit fs 1 - 1))"
    "w_bits (output_rice_value w v fs (push_bit fs 1 - 1))
      = w_bits w @ replicate ?top False @ True # msb_bits fs v" by simp_all
qed

lemma finish_bits:
  assumes "w_ok w"
  shows "\<exists>k < 8. byte_bits (bit_output_finish w) = w_bits w @ replicate k False"
proof -
  let ?k = "(pending w + 7) div 8"
  have p: "pending w < 32" "\<forall>i < 64 - pending w. \<not> bit (bo_acc w) i"
    using assms by (auto simp: w_ok_def)
  have k: "pending w \<le> 8 * ?k" "8 * ?k < pending w + 8" by linarith+
  let ?bs = "msb_bits 64 (bo_acc w)"
  have "byte_bits (take ?k (to_be64 (bo_acc w))) = take (8 * ?k) ?bs"
    by (simp only: take_byte_bits [symmetric] byte_bits_to_be)
  also have "\<dots> = take (pending w) ?bs @ take (8 * ?k - pending w) (drop (pending w) ?bs)"
    using k(1) take_add [of "pending w" "8 * ?k - pending w" ?bs] by simp
  also have "take (8 * ?k - pending w) (drop (pending w) ?bs) = replicate (8 * ?k - pending w) False"
    using p k by (intro nth_equalityI) (auto simp: nth_msb_bits)
  finally show ?thesis
    using k by (intro exI [of _ "8 * ?k - pending w"]) (auto simp: bit_output_finish_def w_bits_def)
qed

end
