(* ===== verification/Rice_Correct.thy ===== *)
theory Rice_Correct
  imports Rice_Bits
begin

text \<open>
  The Rice codec against itself: what \<open>rice_encode\<close> writes, \<open>rice_decode\<close> reads back, and on any
  input the decoder gives the samples asked for or reports the end of the stream. A block's bits
  are \<open>block_code\<close>; \<open>pixels\<close> undoes the differences. The proofs rest on the writer's
  append lemmas and on the laws of \<open>br\<close>.
\<close>

section \<open>The zigzag difference\<close>

lemma width_mask_mask: "n \<le> 64 \<Longrightarrow> width_mask n = mask n"
  using low_bits_mask [of n] by (auto simp: width_mask_def low_bits_def split: if_splits)

lemma sint_sign_extend:
  assumes "0 < n" and "n \<le> 64"
  shows "sint (sign_extend v n) = signed_take_bit (n - 1) (uint v)"
proof (rule bit_eqI)
  fix k
  obtain m where m: "n = Suc m" "m < 64" using assms by (cases n) auto
  consider "63 \<le> k" "m = 63" | "63 \<le> k" "m < 63" | "m < k" "k < 63" | "m = k" "k < 63" | "k < m" "k < 63"
    using m by linarith
  then show "bit (sint (sign_extend v n)) k = bit (signed_take_bit (n - 1) (uint v)) k"
    by cases (auto simp: m(1) sign_extend_def Let_def bit_simps min_def)
qed

lemma sign_extend_mod:
  assumes "0 < n" and "n \<le> 64"
  shows "take_bit n (sign_extend v n) = take_bit n v"
  using assms by (intro bit_word_eqI) (auto simp: sign_extend_def Let_def bit_simps min_def)

definition unzigzag :: "u64 \<Rightarrow> u64" where
  "unzigzag d = (if d AND 1 = 1 then NOT (drop_bit 1 d) else drop_bit 1 d)"

definition zigzag :: "u64 \<Rightarrow> u64" where
  "zigzag s = (let magnitude = (if 0 \<le> sint s then s else - s)
      in if 0 \<le> sint s then push_bit 1 magnitude else push_bit 1 magnitude - 1)"

lemma uint_zigzag: "uint (zigzag s) = (if 0 \<le> sint s then 2 * sint s else - 2 * sint s - 1)"
proof -
  define x where "x = sint s"
  have s: "s = word_of_int x" by (simp add: x_def)
  have x: "- (2 ^ 63) \<le> x" "x < 2 ^ 63"
    using sint_greater_eq [of s] sint_less [of s] by (simp_all add: x_def)
  show ?thesis
  proof (cases "0 \<le> x")
    case True
    then have "zigzag s = word_of_int (2 * x)"
      by (simp add: zigzag_def Let_def x_def [symmetric] push_bit_eq_mult) (simp add: s)
    moreover have "uint (word_of_int (2 * x) :: u64) = 2 * x"
      using True x by (subst uint_word_of_int) simp
    ultimately show ?thesis using True by (simp only: x_def [symmetric] if_True)
  next
    case False
    then have "zigzag s = word_of_int (- 2 * x - 1)"
      by (simp add: zigzag_def Let_def x_def [symmetric] push_bit_eq_mult) (simp add: s)
    moreover have "uint (word_of_int (- 2 * x - 1) :: u64) = - 2 * x - 1"
      using False x by (subst uint_word_of_int) simp
    ultimately show ?thesis using False by (simp only: x_def [symmetric] if_False)
  qed
qed

lemma unzigzag_int:
  "unzigzag d = word_of_int (if odd (uint d) then - (uint d div 2) - 1 else uint d div 2)"
proof -
  have h: "drop_bit 1 d = word_of_int (uint d div 2)"
    using uint_lt2p [of d]
    by (intro word_uint_eq_iff [THEN iffD2])
       (simp add: uint_word_of_int drop_bit_eq_div unsigned_drop_bit_eq uint_div_distrib)
  have "d AND 1 = 1 \<longleftrightarrow> odd (uint d)"
    by (metis and_one_eq bit_0 bit_uint_iff odd_iff_mod_2_eq_one len_gt_0)
  then show ?thesis by (simp only: unzigzag_def h not_eq_complement) simp
qed

lemma unzigzag_zigzag: "unzigzag (zigzag s) = s"
proof (cases "0 \<le> sint s")
  case True
  then show ?thesis by (simp add: unzigzag_int uint_zigzag)
next
  case False
  have "(- 2 * sint s - 1) div 2 = - sint s - 1" by linarith
  then show ?thesis using False by (simp add: unzigzag_int uint_zigzag)
qed

section \<open>Differences and pixels\<close>

lemma int_bits_cases: "0 < int_bits bp" "int_bits bp \<le> 64" "int_bits bp = 8 * int_elem_size bp"
  by (cases bp; simp add: int_bits_def)+

lemma rice_diff_zigzag:
  "rice_diff n msk lp nx = zigzag (sign_extend ((nx - lp) AND msk) n)"
  by (simp add: rice_diff_def zigzag_def Let_def)

lemma rice_next_unzigzag: "rice_next msk lp d = (lp + unzigzag d) AND msk"
  by (simp add: rice_next_def unzigzag_def Let_def)

lemma take_bit_add_right: "take_bit n (a + take_bit n b) = take_bit n (a + b)" for a b :: u64
proof -
  have t: "uint (take_bit n (a + c)) = take_bit (min n 64) (uint a + uint c)" for c :: u64
    by (simp add: unsigned_take_bit_eq uint_word_ariths flip: take_bit_eq_mod)
       (simp add: take_bit_eq_mod [of 64, simplified, symmetric])
  have "take_bit (min n 64) (uint a + take_bit n (uint b)) = take_bit (min n 64) (uint a + uint b)"
    using take_bit_add [of "min n 64" "uint a" "take_bit n (uint b)"]
      take_bit_add [of "min n 64" "uint a" "uint b"] by (simp add: min_def split: if_splits)
  then show ?thesis
    by (intro word_uint_eq_iff [THEN iffD2]) (simp only: t unsigned_take_bit_eq [of n b])
qed

lemma rice_next_diff:
  assumes n: "0 < n" "n \<le> 64" and nx: "take_bit n nx = nx"
  shows "rice_next (mask n) lp (rice_diff n (mask n) lp nx) = nx"
proof -
  let ?s = "sign_extend (take_bit n (nx - lp)) n"
  have "rice_next (mask n) lp (rice_diff n (mask n) lp nx) = take_bit n (lp + ?s)"
    by (simp add: rice_next_unzigzag rice_diff_zigzag unzigzag_zigzag take_bit_eq_mask)
  also have "\<dots> = take_bit n (lp + take_bit n ?s)"
    by (simp only: take_bit_add_right)
  also have "take_bit n ?s = take_bit n (nx - lp)"
    using n by (simp add: sign_extend_mod)
  also have "take_bit n (lp + take_bit n (nx - lp)) = take_bit n (lp + (nx - lp))"
    by (simp only: take_bit_add_right)
  finally show ?thesis using nx by simp
qed

lemma rice_diff_bound:
  assumes n: "0 < n" "n \<le> 64"
  shows "take_bit n (rice_diff n msk lp nx) = rice_diff n msk lp nx"
proof -
  obtain m where m: "n = Suc m" using n by (cases n) auto
  define x where "x = sint (sign_extend ((nx - lp) AND msk) n)"
  have "x = signed_take_bit m (uint ((nx - lp) AND msk))"
    using sint_sign_extend [OF n] by (simp add: x_def m)
  then have x: "- (2 ^ m) \<le> x" "x < 2 ^ m"
    by (simp_all add: signed_take_bit_int_greater_eq_minus_exp signed_take_bit_int_less_exp)
  have "uint (rice_diff n msk lp nx) = (if 0 \<le> x then 2 * x else - 2 * x - 1)"
    by (simp add: rice_diff_zigzag uint_zigzag x_def)
  then have "uint (rice_diff n msk lp nx) < 2 ^ n" using x by (auto simp: m)
  then have "take_bit n (uint (rice_diff n msk lp nx)) = uint (rice_diff n msk lp nx)"
    by (intro take_bit_int_eq_self) auto
  then show ?thesis
    by (metis word_uint_eq_iff unsigned_take_bit_eq)
qed

lemma sign_extend_of_int:
  assumes n: "0 < n" "n \<le> 64" and v: "- (2 ^ (n - 1)) \<le> v" "v < 2 ^ (n - 1)"
  shows "sint (sign_extend (take_bit n (word_of_int v)) n) = v"
proof -
  have "uint (take_bit n (word_of_int v :: u64)) = take_bit n v"
    using n by (simp only: unsigned_take_bit_eq uint_word_of_int_eq take_bit_take_bit) (simp add: min_def)
  moreover have "\<not> n \<le> n - 1" using n by simp
  ultimately have "sint (sign_extend (take_bit n (word_of_int v)) n) = signed_take_bit (n - 1) v"
    by (simp only: sint_sign_extend [OF n] signed_take_bit_take_bit if_False)
  also have "\<dots> = v" using v by (simp only: signed_take_bit_int_eq_self_iff)
  finally show ?thesis .
qed

lemma rice_output_of_int:
  assumes "in_width bp v"
  shows "rice_output bp (take_bit (int_bits bp) (word_of_int v)) = v"
proof (cases bp)
  case IU8
  have "uint (take_bit 8 (word_of_int v :: u64)) = v"
    using assms IU8 by (simp only: unsigned_take_bit_eq uint_word_of_int_eq take_bit_take_bit)
      (simp add: take_bit_int_eq_self)
  moreover have "sint w = uint w" if "uint w < 256" for w :: u64
  proof -
    have "- (2 ^ 63) \<le> uint w" by (rule order_trans [OF _ uint_ge_0]) simp
    then show ?thesis using that by (simp add: sint_uint signed_take_bit_int_eq_self_iff)
  qed
  ultimately show ?thesis using assms IU8 by (simp add: rice_output_def int_bits_def)
qed (use assms sign_extend_of_int [of "int_bits bp" v] int_bits_cases [of bp] in
    \<open>simp_all add: rice_output_def int_bits_def\<close>)

text \<open>The pixels of a run of differences, and the pixel it ends on.\<close>

fun pixels :: "u64 \<Rightarrow> u64 \<Rightarrow> u64 list \<Rightarrow> u64 list" where
  "pixels msk lp [] = []"
| "pixels msk lp (d # ds) = rice_next msk lp d # pixels msk (rice_next msk lp d) ds"

lemma length_pixels [simp]: "length (pixels msk lp ds) = length ds"
  by (induction ds arbitrary: lp) auto

lemma block_diffs_pixels:
  "block_diffs (int_bits bp) (mask (int_bits bp)) lp vs = (ds, lp') \<Longrightarrow>
    take_bit (int_bits bp) lp = lp \<Longrightarrow> list_all (in_width bp) vs \<Longrightarrow>
    map (rice_output bp) (pixels (mask (int_bits bp)) lp ds) = vs
    \<and> last (lp # pixels (mask (int_bits bp)) lp ds) = lp'
    \<and> take_bit (int_bits bp) lp' = lp' \<and> length ds = length vs
    \<and> list_all (\<lambda>d. take_bit (int_bits bp) d = d) ds"
proof (induction vs arbitrary: lp ds)
  case (Cons v vs)
  let ?m = "mask (int_bits bp) :: u64"
  let ?nx = "take_bit (int_bits bp) (word_of_int v)"
  obtain ds' where ds: "block_diffs (int_bits bp) ?m ?nx vs = (ds', lp')"
    "ds = rice_diff (int_bits bp) ?m lp ?nx # ds'"
    using Cons.prems(1) by (auto simp: take_bit_eq_mask Let_def split: prod.splits)
  have nx: "rice_next ?m lp (rice_diff (int_bits bp) ?m lp ?nx) = ?nx"
    using int_bits_cases [of bp] by (intro rice_next_diff) auto
  show ?case
    using Cons.IH [OF ds(1)] Cons.prems(3) nx int_bits_cases(1,2) [of bp]
    by (simp add: ds(2) rice_output_of_int rice_diff_bound)
qed simp

section \<open>A block\<close>

definition split_code :: "nat \<Rightarrow> u64 \<Rightarrow> bool list" where
  "split_code fs d = replicate (unat (drop_bit fs d)) False @ True # msb_bits fs d"

lemma split_code_value: "push_bit fs (drop_bit fs d) OR take_bit fs d = (d :: u64)"
  by (rule bit_word_eqI) (auto simp: bit_simps)

lemma decode_raw_pixels:
  assumes "br_ok r" and "list_all (\<lambda>d. take_bit (int_bits bp) d = d) ds"
    and "br_remaining r = concat (map (msb_bits (int_bits bp)) ds) @ rest"
  shows "\<exists>r'. decode_raw bp msk (length ds) r lp
      = Inr (map (rice_output bp) (pixels msk lp ds), r', last (lp # pixels msk lp ds))
    \<and> br_ok r' \<and> br_remaining r' = rest"
  using assms
proof (induction ds arbitrary: r lp)
  case (Cons d ds)
  have "br_remaining r = msb_bits (int_bits bp) d @ concat (map (msb_bits (int_bits bp)) ds) @ rest"
    using Cons.prems(3) by simp
  from br.fetch_field [OF Cons.prems(1) int_bits_cases(2) this]
  obtain r1 where r1: "read_bits r (int_bits bp) = Inr (d, r1)" "br_ok r1"
    "br_remaining r1 = concat (map (msb_bits (int_bits bp)) ds) @ rest"
    using Cons.prems(2) by auto
  from Cons.IH [OF r1(2) _ r1(3), of "rice_next msk lp d"] Cons.prems(2)
  show ?case using r1(1) by (auto simp: int_bits_def Let_def)
qed simp

lemma decode_split_pixels:
  assumes "br_ok r" and "fs \<le> 64" and "br_remaining r = concat (map (split_code fs) ds) @ rest"
  shows "\<exists>r'. decode_split bp msk fs (length ds) r lp
      = Inr (map (rice_output bp) (pixels msk lp ds), r', last (lp # pixels msk lp ds))
    \<and> br_ok r' \<and> br_remaining r' = rest"
  using assms
proof (induction ds arbitrary: r lp)
  case (Cons d ds)
  let ?rest = "concat (map (split_code fs) ds) @ rest"
  have "br_remaining r = replicate (unat (drop_bit fs d)) False @ True # msb_bits fs d @ ?rest"
    using Cons.prems(3) by (simp add: split_code_def [of fs d])
  from br.zeros_next [OF Cons.prems(1) this, of 0]
  obtain r1 where r1: "read_zeros r 0 = Inr (unat (drop_bit fs d), r1)" "br_ok r1"
    "br_remaining r1 = msb_bits fs d @ ?rest" by auto
  from br.fetch_field [OF r1(2) Cons.prems(2) r1(3)]
  obtain r2 where r2: "read_bits r1 fs = Inr (take_bit fs d, r2)" "br_ok r2" "br_remaining r2 = ?rest"
    by auto
  from Cons.IH [OF r2(2) Cons.prems(2) r2(3), of "rice_next msk lp d"]
  show ?case using r1(1) r2(1) by (auto simp: Let_def split_code_value)
qed simp

text \<open>The split the encoder chooses, and the bits it writes for a block.\<close>

definition block_split :: "u64 list \<Rightarrow> nat" where
  "block_split ds = split_of 0 (mean_less_one (sum_list (map unat ds)) (length ds) div 2)"

definition block_code :: "int_bitpix \<Rightarrow> u64 list \<Rightarrow> bool list" where
  "block_code bp ds =
     (let fsbits = sf_bits (split_field bp); fsmax = sf_max (split_field bp); fs = block_split ds
      in if fs \<ge> fsmax then msb_bits fsbits (of_nat (fsmax + 1) :: u64) @ concat (map (msb_bits (int_bits bp)) ds)
         else if fs = 0 \<and> sum_list (map unat ds) = 0 then msb_bits fsbits (0 :: u64)
         else msb_bits fsbits (of_nat (fs + 1) :: u64) @ concat (map (split_code fs) ds))"

lemma split_field_bounds:
  "sf_max (split_field bp) < 64" "sf_bits (split_field bp) \<le> 6"
  "sf_max (split_field bp) + 1 < 2 ^ sf_bits (split_field bp)"
  by (cases bp; simp)+

lemma foldl_output_nbits:
  "w_ok w \<Longrightarrow> n \<le> 64 \<Longrightarrow> w_ok (foldl (\<lambda>w d. output_nbits w d n) w ds)
    \<and> w_bits (foldl (\<lambda>w d. output_nbits w d n) w ds) = w_bits w @ concat (map (msb_bits n) ds)"
  by (induction ds arbitrary: w) (auto simp: output_nbits_ok)

lemma foldl_output_rice:
  "w_ok w \<Longrightarrow> fs < 64 \<Longrightarrow>
    w_ok (foldl (\<lambda>w d. output_rice_value w d fs (push_bit fs 1 - 1)) w ds)
    \<and> w_bits (foldl (\<lambda>w d. output_rice_value w d fs (push_bit fs 1 - 1)) w ds)
      = w_bits w @ concat (map (split_code fs) ds)"
proof (induction ds arbitrary: w)
  case (Cons d ds)
  note ov = output_rice_value_ok [OF Cons.prems, of d]
  show ?case using Cons.IH [OF ov(1) Cons.prems(2)] ov(2)
    by (simp add: split_code_def [of fs d])
qed simp

lemma encode_block_bits:
  assumes "w_ok w"
  shows "w_ok (encode_block bp w ds) \<and> w_bits (encode_block bp w ds) = w_bits w @ block_code bp ds"
proof -
  let ?fsbits = "sf_bits (split_field bp)"
  have b: "?fsbits \<le> 64" "int_bits bp \<le> 64" "block_split ds < sf_max (split_field bp) \<Longrightarrow> block_split ds < 64"
    using split_field_bounds [of bp] int_bits_cases [of bp] by auto
  have h: "w_ok (output_nbits w v ?fsbits)"
    "w_bits (output_nbits w v ?fsbits) = w_bits w @ msb_bits ?fsbits v" for v
    using output_nbits_ok [OF assms b(1)] by auto
  note d = encode_block_def block_code_def Let_def block_split_def [symmetric] int_bits_def [symmetric]
  consider "sf_max (split_field bp) \<le> block_split ds"
    | "\<not> sf_max (split_field bp) \<le> block_split ds" "block_split ds = 0 \<and> sum_list (map unat ds) = 0"
    | "\<not> sf_max (split_field bp) \<le> block_split ds" "\<not> (block_split ds = 0 \<and> sum_list (map unat ds) = 0)"
    by linarith
  then show ?thesis
  proof cases
    case 1
    then show ?thesis using foldl_output_nbits [OF h(1) b(2)] h(2) by (simp add: d)
  next
    case 2
    then have "encode_block bp w ds = output_nbits w 0 ?fsbits" "block_code bp ds = msb_bits ?fsbits (0 :: u64)"
      unfolding d by (simp_all only: 2(1) if_False) (simp_all only: 2(2) simp_thms if_True)
    then show ?thesis using h [of 0] by simp
  next
    case 3
    then have "block_split ds < 64" using b(3) by simp
    from foldl_output_rice [OF h(1) this] 3 h(2) show ?thesis
      by (simp only: d if_False) simp
  qed
qed

lemma code_word:
  assumes "k + 1 < 2 ^ n" and "n \<le> 6"
  shows "take_bit n (of_nat (k + 1) :: u64) = of_nat (k + 1)" "(of_nat (k + 1) :: u64) \<noteq> 0"
    "(of_nat (k + 1) :: u64) - 1 = of_nat k" "unat (of_nat k :: u64) = k"
proof -
  have "(2::nat) ^ n \<le> 2 ^ 6" using assms(2) by (intro power_increasing) auto
  then have k: "k + 1 < 64" using assms(1) by simp
  then have u: "unat (of_nat (k + 1) :: u64) = k + 1" by (simp add: unat_of_nat del: of_nat_add of_nat_Suc)
  show "take_bit n (of_nat (k + 1) :: u64) = of_nat (k + 1)"
    using assms(1) u by (intro word_unat_eq_iff [THEN iffD2])
      (simp add: unsigned_take_bit_eq take_bit_nat_eq_self del: of_nat_add of_nat_Suc)
  show "(of_nat (k + 1) :: u64) \<noteq> 0" using u by (metis add_is_0 one_neq_zero unsigned_0)
  show "(of_nat (k + 1) :: u64) - 1 = of_nat k" by simp
  show "unat (of_nat k :: u64) = k" using k by (simp add: unat_of_nat)
qed

lemma sum_unat_zero: "sum_list (map unat ds) = 0 \<Longrightarrow> pixels msk lp ds = pixels msk lp (replicate (length ds) 0)"
  by (induction ds arbitrary: lp) (auto simp: unsigned_eq_0_iff)

lemma pixels_zero:
  "lp AND msk = lp \<Longrightarrow> pixels msk lp (replicate n 0) = replicate n lp"
  by (induction n) (simp_all add: rice_next_def)

lemma decode_block_code:
  assumes ok: "br_ok r" and rem: "br_remaining r = block_code bp ds @ rest"
    and ds: "list_all (\<lambda>d. take_bit (int_bits bp) d = d) ds" and lp: "lp AND msk = lp"
  shows "\<exists>r'. decode_block bp msk (length ds) r lp
      = Inr (map (rice_output bp) (pixels msk lp ds), r', last (lp # pixels msk lp ds))
    \<and> br_ok r' \<and> br_remaining r' = rest"
proof -
  let ?fsbits = "sf_bits (split_field bp)"
  let ?fsmax = "sf_max (split_field bp)"
  note b = split_field_bounds [of bp]
  have b64: "?fsbits \<le> 64" using b(2) by simp
  note cw = code_word [OF _ b(2)]
  note d = block_code_def Let_def
  have max: "unat (of_nat ?fsmax :: u64) = ?fsmax" by (rule cw(4) [OF b(3)])
  consider "?fsmax \<le> block_split ds"
    | "\<not> ?fsmax \<le> block_split ds" "block_split ds = 0 \<and> sum_list (map unat ds) = 0"
    | "\<not> ?fsmax \<le> block_split ds" "\<not> (block_split ds = 0 \<and> sum_list (map unat ds) = 0)"
    by linarith
  then show ?thesis
  proof cases
    case 1
    then have "br_remaining r = msb_bits ?fsbits (of_nat (?fsmax + 1) :: u64)
        @ concat (map (msb_bits (int_bits bp)) ds) @ rest"
      using rem by (simp only: d if_True append_assoc)
    from br.fetch_field [OF ok b64 this]
    obtain r1 where r1: "read_bits r ?fsbits = Inr (of_nat (?fsmax + 1), r1)" "br_ok r1"
      "br_remaining r1 = concat (map (msb_bits (int_bits bp)) ds) @ rest"
      by (simp only: cw(1) [OF b(3)]) blast
    have "decode_block bp msk (length ds) r lp = decode_raw bp msk (length ds) r1 lp"
      by (simp only: decode_block_def r1(1) bind_simps prod.case cw(2,3) [OF b(3)] if_False if_True simp_thms)
    then show ?thesis using decode_raw_pixels [OF r1(2) ds r1(3)] by simp
  next
    case 2
    then have "br_remaining r = msb_bits ?fsbits (0 :: u64) @ rest"
      using rem by (simp only: d simp_thms if_True if_False)
    from br.fetch_field [OF ok b64 this]
    obtain r1 where r1: "read_bits r ?fsbits = Inr (0, r1)" "br_ok r1" "br_remaining r1 = rest"
      by auto
    have "pixels msk lp ds = replicate (length ds) lp"
      using 2 sum_unat_zero [of ds msk lp] pixels_zero [OF lp] by simp
    then show ?thesis using r1 by (simp add: decode_block_def)
  next
    case 3
    then have "br_remaining r = msb_bits ?fsbits (of_nat (block_split ds + 1) :: u64)
        @ concat (map (split_code (block_split ds)) ds) @ rest"
      using rem by (simp only: d if_False append_assoc)
    note fr = br.fetch_field [OF ok b64 this]
    have lt: "block_split ds + 1 < 2 ^ ?fsbits" using 3(1) b(3) by simp
    obtain r1 where r1: "read_bits r ?fsbits = Inr (of_nat (block_split ds + 1), r1)" "br_ok r1"
      "br_remaining r1 = concat (map (split_code (block_split ds)) ds) @ rest"
      using fr by (simp only: cw(1) [OF lt]) blast
    have ne: "(of_nat (block_split ds) :: u64) \<noteq> of_nat ?fsmax"
      using 3(1) max cw(4) [OF lt] by (metis le_refl)
    have "decode_block bp msk (length ds) r lp
        = decode_split bp msk (block_split ds) (length ds) r1 lp"
      by (simp only: decode_block_def r1(1) bind_simps prod.case cw(2,3,4) [OF lt] ne if_False)
    then show ?thesis
      using decode_split_pixels [OF r1(2) _ r1(3)] 3(1) b(1) by simp
  qed
qed

section \<open>The stream\<close>

text \<open>The bits of a tile's blocks after the first pixel.\<close>

function stream_code :: "rice_codec \<Rightarrow> u64 \<Rightarrow> u64 \<Rightarrow> int list \<Rightarrow> bool list" where
  "stream_code c msk lp vs =
     (if vs = [] \<or> blocksize c = 0 then []
      else let (ds, lp') = block_diffs (int_bits (bytepix c)) msk lp (take (blocksize c) vs)
           in block_code (bytepix c) ds @ stream_code c msk lp' (drop (blocksize c) vs))"
  by pat_completeness auto
termination by (relation "measure (\<lambda>(c, msk, lp, vs). length vs)") auto

declare stream_code.simps [simp del]

lemma encode_blocks_bits:
  "w_ok w \<Longrightarrow> w_ok (encode_blocks c msk w lp vs)
    \<and> w_bits (encode_blocks c msk w lp vs) = w_bits w @ stream_code c msk lp vs"
proof (induction c msk w lp vs rule: encode_blocks.induct)
  case (1 c msk w lp vs)
  show ?case
  proof (cases "vs = [] \<or> blocksize c = 0")
    case True
    then show ?thesis using "1.prems"
      by (simp add: encode_blocks.simps [of c msk w lp vs] stream_code.simps [of c msk lp vs])
  next
    case False
    obtain ds lp' where bd: "block_diffs (8 * int_elem_size (bytepix c)) msk lp (take (blocksize c) vs) = (ds, lp')"
      by (cases "block_diffs (8 * int_elem_size (bytepix c)) msk lp (take (blocksize c) vs)")
    note eb = encode_block_bits [OF "1.prems", of "bytepix c" ds]
    from "1.IH" [OF False bd [symmetric] refl] eb
    show ?thesis
      using False bd by (simp add: encode_blocks.simps [of c msk w lp vs]
          stream_code.simps [of c msk lp vs] int_bits_def)
  qed
qed

lemma decode_blocks_stream:
  "br_ok r \<Longrightarrow> br_remaining r = stream_code c (mask (int_bits (bytepix c))) lp vs @ rest \<Longrightarrow>
    0 < blocksize c \<Longrightarrow> take_bit (int_bits (bytepix c)) lp = lp \<Longrightarrow> list_all (in_width (bytepix c)) vs \<Longrightarrow>
    decode_blocks c (mask (int_bits (bytepix c))) (length vs) r lp = Inr vs"
proof (induction "length vs" arbitrary: r lp vs rule: less_induct)
  case less
  let ?m = "mask (int_bits (bytepix c)) :: u64"
  show ?case
  proof (cases "vs = []")
    case True
    then show ?thesis by (simp add: decode_blocks.simps)
  next
    case False
    let ?blk = "take (blocksize c) vs" and ?vs = "drop (blocksize c) vs"
    obtain ds lp' where bd: "block_diffs (int_bits (bytepix c)) ?m lp ?blk = (ds, lp')"
      by (cases "block_diffs (int_bits (bytepix c)) ?m lp ?blk")
    have "list_all (in_width (bytepix c)) (?blk @ ?vs)" using less.prems(5) by simp
    then have w: "list_all (in_width (bytepix c)) ?blk" "list_all (in_width (bytepix c)) ?vs"
      by (simp_all only: list_all_append)
    from block_diffs_pixels [OF bd less.prems(4) w(1)]
    have px: "map (rice_output (bytepix c)) (pixels ?m lp ds) = ?blk" "last (lp # pixels ?m lp ds) = lp'"
      "take_bit (int_bits (bytepix c)) lp' = lp'" "length ds = length ?blk"
      "list_all (\<lambda>d. take_bit (int_bits (bytepix c)) d = d) ds" by simp_all
    have "br_remaining r = block_code (bytepix c) ds @ stream_code c ?m lp' ?vs @ rest"
      using less.prems(2,3) False bd by (simp add: stream_code.simps [of c ?m lp vs])
    moreover have "lp AND ?m = lp" using less.prems(4) by (simp only: take_bit_eq_mask)
    ultimately have "\<exists>r'. decode_block (bytepix c) ?m (length ds) r lp
        = Inr (map (rice_output (bytepix c)) (pixels ?m lp ds), r', last (lp # pixels ?m lp ds))
      \<and> br_ok r' \<and> br_remaining r' = stream_code c ?m lp' ?vs @ rest"
      using px(5) by (intro decode_block_code [OF less.prems(1)])
    then obtain r' where r': "decode_block (bytepix c) ?m (length ?blk) r lp = Inr (?blk, r', lp')" "br_ok r'"
      "br_remaining r' = stream_code c ?m lp' ?vs @ rest"
      by (simp only: px(1,2,4)) blast
    have "length ?vs < length vs" using False less.prems(3) by simp
    from less.hyps [OF this r'(2,3) less.prems(3) px(3) w(2)]
    have IH: "decode_blocks c ?m (length ?vs) r' lp' = Inr ?vs" .
    have "length ?blk = min (blocksize c) (length vs)" "length vs - min (blocksize c) (length vs) = length ?vs"
      by (simp_all add: min_def)
    then show ?thesis
      using r'(1) IH False less.prems(3)
      by (simp add: decode_blocks.simps [of c ?m "length vs"] Let_def)
  qed
qed

text \<open>C10: A tile of samples that fit the codec's pixel width, encoded and then decoded for the same
  number of samples, gives the samples back, at every block size the codec can have.\<close>

theorem rice_roundtrip:
  assumes "0 < blocksize c" and "list_all (in_width (bytepix c)) vs"
  shows "rice_decode c (rice_encode c vs) (length vs) = Inr vs"
proof (cases vs)
  case Nil
  then show ?thesis by (simp add: rice_decode_def)
next
  case (Cons v vs')
  let ?n = "int_bits (bytepix c)"
  let ?first = "take_bit ?n (word_of_int v :: u64)"
  have n: "?n \<le> 64" by (rule int_bits_cases)
  let ?w = "output_nbits (bit_output_new []) ?first ?n"
  have w: "w_ok ?w" "w_bits ?w = msb_bits ?n ?first"
    using output_nbits_ok [OF w_new_ok(1) n, of "[]" ?first] w_new_ok(2) [of "[]"] by auto
  note eb = encode_blocks_bits [OF w(1), of c "mask ?n" ?first vs]
  have enc: "rice_encode c vs = bit_output_finish (encode_blocks c (mask ?n) ?w ?first vs)"
    using Cons n by (simp add: rice_encode_def Let_def width_mask_mask take_bit_eq_mask int_bits_def)
  obtain k where "byte_bits (rice_encode c vs)
      = msb_bits ?n ?first @ stream_code c (mask ?n) ?first vs @ replicate k False"
    using finish_bits [of "encode_blocks c (mask ?n) ?w ?first vs"] eb w(2) enc by auto
  then have "br_remaining (bit_reader_new (rice_encode c vs))
      = msb_bits ?n ?first @ stream_code c (mask ?n) ?first vs @ replicate k False"
    by (simp add: br_new_ok)
  from br.fetch_field [OF br_new_ok(1) n this]
  obtain r where r: "read_bits (bit_reader_new (rice_encode c vs)) ?n = Inr (?first, r)" "br_ok r"
    "br_remaining r = stream_code c (mask ?n) ?first vs @ replicate k False" by auto
  have "decode_blocks c (mask ?n) (length vs) r ?first = Inr vs"
    by (rule decode_blocks_stream [OF r(2,3) assms(1) _ assms(2)]) simp
  then show ?thesis
    using Cons r(1) n by (simp add: rice_decode_def Let_def width_mask_mask int_bits_def)
qed

lemma rice_roundtrip_witness:
  "rice_decode \<lparr>blocksize = 16, bytepix = II16\<rparr>
     (rice_encode \<lparr>blocksize = 16, bytepix = II16\<rparr> [7, -32768, 32767]) 3 = Inr [7, -32768, 32767]"
  using rice_roundtrip [of "\<lparr>blocksize = 16, bytepix = II16\<rparr>" "[7, -32768, 32767]"]
  by (simp add: numeral_3_eq_3)

section \<open>Any input\<close>

lemma rice_output_in_width:
  assumes "take_bit (int_bits bp) p = p"
  shows "in_width bp (rice_output bp p)"
proof (cases bp)
  case IU8
  have "uint (take_bit 8 p) < 2 ^ 8" by (simp only: unsigned_take_bit_eq take_bit_int_less_exp)
  then have u: "uint p < 256" using assms IU8 by (simp add: int_bits_def)
  have "- (2 ^ 63) \<le> uint p" by (rule order_trans [OF _ uint_ge_0]) simp
  then have "sint p = uint p" using u by (simp add: sint_uint signed_take_bit_int_eq_self_iff)
  then show ?thesis using IU8 u by (simp add: rice_output_def)
next
  case II16
  then show ?thesis
    using signed_take_bit_int_less_exp [of 15 "uint p"] signed_take_bit_int_greater_eq_minus_exp [of 15 "uint p"]
    by (simp add: rice_output_def sint_sign_extend)
next
  case II32
  then show ?thesis
    using signed_take_bit_int_less_exp [of 31 "uint p"] signed_take_bit_int_greater_eq_minus_exp [of 31 "uint p"]
    by (simp add: rice_output_def sint_sign_extend)
next
  case II64
  then show ?thesis
    using signed_take_bit_int_less_exp [of 63 "uint p"] signed_take_bit_int_greater_eq_minus_exp [of 63 "uint p"]
    by (simp add: rice_output_def sint_sign_extend)
qed

text \<open>What a block's decoding gives: the end of the stream, or its samples in range.\<close>

definition samples_ok :: "int_bitpix \<Rightarrow> nat \<Rightarrow> (int list \<times> bit_reader \<times> u64) fits_result \<Rightarrow> bool" where
  "samples_ok bp n res \<longleftrightarrow> res = Inl UnexpectedEof
     \<or> (\<exists>vs r' lp'. res = Inr (vs, r', lp') \<and> br_ok r' \<and> length vs = n \<and> list_all (in_width bp) vs
          \<and> take_bit (int_bits bp) lp' = lp')"

lemma samples_ok_eof [simp]: "samples_ok bp n (Inl UnexpectedEof)"
  by (simp add: samples_ok_def)

lemma samples_ok_Suc:
  assumes "samples_ok bp n res" and "take_bit (int_bits bp) p = p"
  shows "samples_ok bp (Suc n) (bind res (\<lambda>(vs, r, lp). Inr (rice_output bp p # vs, r, lp)))"
  using assms rice_output_in_width [of bp p] by (auto simp: samples_ok_def)

lemma rice_next_masked: "take_bit n (rice_next (mask n) lp d) = rice_next (mask n) lp d"
  by (simp add: rice_next_def Let_def take_bit_eq_mask and.assoc)

lemma decode_raw_result:
  "br_ok r \<Longrightarrow> take_bit (int_bits bp) lp = lp \<Longrightarrow>
    samples_ok bp n (decode_raw bp (mask (int_bits bp)) n r lp)"
proof (induction n arbitrary: r lp)
  case 0
  then show ?case by (simp add: samples_ok_def)
next
  case (Suc n)
  from br.fetch_result [OF Suc.prems(1) int_bits_cases(2) [of bp]] show ?case
  proof (elim disjE exE conjE)
    fix d r1 assume r1: "read_bits r (int_bits bp) = Inr (d, r1)" "br_ok r1"
    from samples_ok_Suc [OF Suc.IH [OF r1(2) rice_next_masked [of _ lp d]] rice_next_masked]
    show ?thesis using r1(1) by (simp add: int_bits_def Let_def)
  qed (simp add: int_bits_def)
qed

lemma decode_split_result:
  "br_ok r \<Longrightarrow> fs \<le> 64 \<Longrightarrow> take_bit (int_bits bp) lp = lp \<Longrightarrow>
    samples_ok bp n (decode_split bp (mask (int_bits bp)) fs n r lp)"
proof (induction n arbitrary: r lp)
  case 0
  then show ?case by (simp add: samples_ok_def)
next
  case (Suc n)
  from br.zeros_result [OF Suc.prems(1), of 0] show ?case
  proof (elim disjE exE conjE)
    fix z r1 assume r1: "read_zeros r 0 = Inr (0 + z, r1)" "br_ok r1"
    from br.fetch_result [OF r1(2) Suc.prems(2)] show ?thesis
    proof (elim disjE exE conjE)
      fix low r2 assume r2: "read_bits r1 fs = Inr (low, r2)" "br_ok r2"
      from samples_ok_Suc [OF Suc.IH [OF r2(2) Suc.prems(2)
          rice_next_masked [of _ lp "push_bit fs (of_nat z) OR low"]] rice_next_masked]
      show ?thesis using r1(1) r2(1) by (simp add: Let_def)
    qed (use r1 in simp)
  qed simp
qed

lemma decode_block_result:
  assumes ok: "br_ok r" and lp: "take_bit (int_bits bp) lp = lp"
  shows "samples_ok bp n (decode_block bp (mask (int_bits bp)) n r lp)"
proof -
  let ?fsbits = "sf_bits (split_field bp)"
  have b: "?fsbits \<le> 64" "?fsbits \<le> 6" using split_field_bounds(2) [of bp] by auto
  from br.fetch_result [OF ok b(1)] show ?thesis
  proof (elim disjE exE conjE)
    fix code r1 assume r1: "read_bits r ?fsbits = Inr (code, r1)" "br_ok r1" "take_bit ?fsbits code = code"
    have "unat (take_bit ?fsbits code) < 2 ^ ?fsbits"
      by (simp only: unsigned_take_bit_eq take_bit_nat_less_exp)
    also have "(2::nat) ^ ?fsbits \<le> 2 ^ 6" using b(2) by (intro power_increasing) auto
    finally have c: "unat code < 64" using r1(3) by simp
    have "unat (code - 1) \<le> 64" if "code \<noteq> 0"
    proof -
      have "0 < unat code" using that by (simp add: unat_gt_0)
      then show ?thesis using c by (simp add: unat_sub_if_size)
    qed
    then have "samples_ok bp n (decode_split bp (mask (int_bits bp)) (unat (code - 1)) n r1 lp)" if "code \<noteq> 0"
      using that by (intro decode_split_result [OF r1(2) _ lp])
    moreover have "samples_ok bp n (Inr (replicate n (rice_output bp lp), r1, lp))"
      using r1(2) lp rice_output_in_width [OF lp] by (simp add: samples_ok_def list_all_iff)
    ultimately show ?thesis
      using r1(1) decode_raw_result [OF r1(2) lp, of n] by (simp add: decode_block_def)
  qed (simp add: decode_block_def)
qed

lemma decode_blocks_result:
  "br_ok r \<Longrightarrow> take_bit (int_bits (bytepix c)) lp = lp \<Longrightarrow> 0 < blocksize c \<Longrightarrow>
    decode_blocks c (mask (int_bits (bytepix c))) count r lp = Inl UnexpectedEof
    \<or> (\<exists>vs. decode_blocks c (mask (int_bits (bytepix c))) count r lp = Inr vs
        \<and> length vs = count \<and> list_all (in_width (bytepix c)) vs)"
proof (induction count arbitrary: r lp rule: less_induct)
  case (less count)
  let ?m = "mask (int_bits (bytepix c)) :: u64"
  let ?n = "min (blocksize c) count"
  show ?case
  proof (cases "count = 0")
    case True
    then show ?thesis by (simp add: decode_blocks.simps)
  next
    case False
    then have eq: "decode_blocks c ?m count r lp =
        bind (decode_block (bytepix c) ?m ?n r lp) (\<lambda>(vs, r', lp').
          bind (decode_blocks c ?m (count - ?n) r' lp') (\<lambda>rest. Inr (vs @ rest)))"
      using less.prems(3) by (subst decode_blocks.simps) (simp add: Let_def)
    have dec: "count - ?n < count" using False less.prems(3) by simp
    from decode_block_result [OF less.prems(1,2), of ?n] show ?thesis
      unfolding samples_ok_def
    proof (elim disjE exE conjE)
      fix vs r' lp'
      assume b: "decode_block (bytepix c) ?m ?n r lp = Inr (vs, r', lp')" "br_ok r'"
        "length vs = ?n" "list_all (in_width (bytepix c)) vs" "take_bit (int_bits (bytepix c)) lp' = lp'"
      from less.IH [OF dec b(2,5) less.prems(3)] show ?thesis
        using b eq by (auto simp: min_def)
    qed (simp add: eq)
  qed
qed



end
