(* ===== verification/Plio.thy ===== *)
theory Plio
  imports Plane
begin

text \<open>
  The \<^verbatim>\<open>PLIO_1\<close> line-list codec of \<^verbatim>\<open>src/compression/plio/mod.rs\<close>. A line list is a list of
  big-endian 16-bit words appended to a byte buffer (\<open>words\<close>); the encoder's and the decoder's
  loops pass their variables in a record. Samples and positions are \<open>int\<close>: the values the code
  keeps in \<^verbatim>\<open>i64\<close> stay far below its bounds once \<open>check\<close> has passed.
\<close>

section \<open>The values a stream holds\<close>

definition STREAM_MAX :: int where "STREAM_MAX = 16777215"

definition streamed :: "int \<Rightarrow> int \<Rightarrow> bool" where
  "streamed offset v =
     (i64_min \<le> v + offset \<and> v + offset \<le> i64_max \<and> 0 \<le> v + offset \<and> v + offset \<le> STREAM_MAX)"

text \<open>\<^verbatim>\<open>position\<close>: the first index whose element satisfies the predicate.\<close>

fun position :: "('a \<Rightarrow> bool) \<Rightarrow> 'a list \<Rightarrow> nat option" where
  "position p [] = None"
| "position p (x # xs) = (if p x then Some 0 else map_option Suc (position p xs))"

definition check_values :: "int \<Rightarrow> int list \<Rightarrow> int \<Rightarrow> int \<Rightarrow> unit fits_result" where
  "check_values offset vs lo hi =
     (if streamed offset lo \<and> streamed offset hi then Inr ()
      else if \<not> foldl (\<lambda>found v. found \<or> \<not> streamed offset v) False vs then Inr ()
      else
        let index = the (position (\<lambda>v. \<not> streamed offset v) vs)
        in Inl (PlioValueOutOfRange index (vs ! index)))"

fun plio_check :: "int \<Rightarrow> int_bitpix \<Rightarrow> int list \<Rightarrow> unit fits_result" where
  "plio_check offset IU8 vs = check_values offset vs 0 255"
| "plio_check offset II16 vs = check_values offset vs (-32768) 32767"
| "plio_check offset II32 vs = check_values offset vs i32_min i32_max"
| "plio_check offset II64 vs = check_values offset vs i64_min i64_max"

section \<open>The words of a list\<close>

record words =
  wd_out :: bytes
  wd_start :: nat

definition words_new :: "bytes \<Rightarrow> words" where
  "words_new out = \<lparr>wd_out = out, wd_start = length out\<rparr>"

definition words_push :: "words \<Rightarrow> u16 \<Rightarrow> words" where
  "words_push w x = w\<lparr>wd_out := wd_out w @ to_be16 x\<rparr>"

definition words_len :: "words \<Rightarrow> nat" where
  "words_len w = (length (wd_out w) - wd_start w) div 2"

definition words_set :: "words \<Rightarrow> nat \<Rightarrow> u16 \<Rightarrow> words" where
  "words_set w index x =
     (let at = wd_start w + 2 * index
      in w\<lparr>wd_out := take at (wd_out w) @ to_be16 x @ drop (at + 2) (wd_out w)\<rparr>)"

definition update_last :: "words \<Rightarrow> (u16 \<Rightarrow> u16) \<Rightarrow> words" where
  "update_last w f =
     (let at = length (wd_out w) - 2
      in words_set w ((at - wd_start w) div 2) (f (from_be16 (take 2 (drop at (wd_out w))))))"

section \<open>Encoding\<close>

definition run_len :: "int list \<Rightarrow> int \<Rightarrow> nat" where
  "run_len vs v =
     (let whole = length (takeWhile (\<lambda>chunk. foldl (\<lambda>same x. same \<and> x = v) True chunk) (as_chunks 16 vs)) * 16
      in whole + length (takeWhile (\<lambda>x. x = v) (drop whole vs)))"

definition length_words :: "nat \<Rightarrow> (u16 \<times> u16) fits_result" where
  "length_words n =
     (if n mod 32768 \<le> 32767 \<and> n div 32768 \<le> 32767
      then Inr (of_nat (n mod 32768), of_nat (n div 32768))
      else Inl (UnsupportedCompression (PlioListLength n)))"

text \<open>The loops that emit a run of \<open>n\<close> pixels in words of at most 4095, \<open>base\<close> being the
  opcode's nibble.\<close>

function push_runs :: "words \<Rightarrow> int \<Rightarrow> int \<Rightarrow> words" where
  "push_runs w base n =
     (if n > 0 then push_runs (words_push w (word_of_int (min n 4095 + base))) base (n - 4095) else w)"
  by pat_completeness auto
termination by (relation "measure (\<lambda>(w, base, n). nat n)") auto

declare push_runs.simps [simp del]

text \<open>The change of the high value before a segment: the words, the new high value, and whether a
  lone pixel went into the adjusting word.\<close>

definition emit_adjust :: "words \<Rightarrow> int \<Rightarrow> int \<Rightarrow> int \<Rightarrow> int \<Rightarrow> words \<times> int \<times> bool" where
  "emit_adjust w hi pv np nz =
     (let dv = pv - hi
      in if pv > 0 \<and> dv \<noteq> 0
         then if \<bar>dv\<bar> > 4095
              then (words_push (words_push w (word_of_int (pv mod 4096 + 4096))) (word_of_int (pv div 4096)), pv, False)
              else
                let w' = words_push w (if dv < 0 then word_of_int (- dv + 12288) else word_of_int (dv + 8192))
                in if np = 1 \<and> nz = 0
                   then (update_last w' (\<lambda>last. last OR 16384), pv, True)
                   else (w', pv, False)
         else (w, hi, False))"

definition emit_zeros :: "words \<Rightarrow> int \<Rightarrow> int \<Rightarrow> int \<Rightarrow> bool \<Rightarrow> words \<times> bool" where
  "emit_zeros w pv np nz stop =
     (if \<not> stop \<and> nz > 0
      then
        let w' = push_runs w 0 nz
        in if np = 1 \<and> pv > 0
           then (update_last w' (\<lambda>last. word_of_int (sint last + 20481)), True)
           else (w', stop)
      else (w, stop))"

definition emit_segment :: "words \<Rightarrow> int \<Rightarrow> int \<Rightarrow> int \<Rightarrow> int \<Rightarrow> words \<times> int" where
  "emit_segment w hi pv np nz =
     (let (w1, hi1, done1) = emit_adjust w hi pv np nz;
          (w2, done2) = emit_zeros w1 pv np nz done1
      in (if done2 then w2 else push_runs w2 16384 np, hi1))"

record plio_enc =
  pe_words :: words
  pe_pv :: int
  pe_x1 :: int
  pe_iz :: int
  pe_hi :: int
  pe_nv :: int
  pe_ip :: nat

text \<open>One round of the encoder's loop, at the pixel \<open>pe_ip\<close>, counted from 1.\<close>

definition plio_step :: "int list \<Rightarrow> int \<Rightarrow> plio_enc \<Rightarrow> plio_enc" where
  "plio_step vs offset s =
     (let xe = length vs;
          pix = (\<lambda>i1. vs ! (i1 - 1) + offset);
          ip = pe_ip s + run_len (drop (pe_ip s) vs) (pe_pv s - offset);
          nv = (if ip < xe then pix (ip + 1) else pe_nv s);
          starts = (ip < xe \<and> nv \<noteq> pe_pv s \<and> pe_pv s = 0);
          flush = (if ip < xe then nv \<noteq> pe_pv s \<and> pe_pv s \<noteq> 0 else True);
          pv = (if starts then nv else pe_pv s);
          x1 = (if starts then int ip + 1
                else if \<not> ip < xe \<and> pe_pv s = 0 then int xe + 1
                else pe_x1 s)
      in if flush
         then
           let (w, hi) = emit_segment (pe_words s) (pe_hi s) pv (int ip - x1 + 1) (x1 - pe_iz s)
           in \<lparr>pe_words = w, pe_pv = nv, pe_x1 = int ip + 1, pe_iz = int ip + 1, pe_hi = hi,
               pe_nv = nv, pe_ip = ip + 1\<rparr>
         else s\<lparr>pe_pv := pv, pe_x1 := x1, pe_nv := nv, pe_ip := ip + 1\<rparr>)"

lemma plio_step_advances: "pe_ip s < pe_ip (plio_step vs offset s)"
  by (simp add: plio_step_def Let_def split: prod.splits)

function plio_loop :: "int list \<Rightarrow> int \<Rightarrow> plio_enc \<Rightarrow> plio_enc" where
  "plio_loop vs offset s =
     (if pe_ip s \<le> length vs then plio_loop vs offset (plio_step vs offset s) else s)"
  by pat_completeness auto
termination
proof (relation "measure (\<lambda>(vs, offset, s). length vs + 1 - pe_ip s)", goal_cases)
  case 1
  then show ?case by simp
next
  case (2 vs offset s)
  then show ?case using plio_step_advances [of s vs offset] by simp
qed

declare plio_loop.simps [simp del]

definition plio_header :: "u16 list" where "plio_header = [0, 7, -100, 0, 0, 0, 0]"

definition plio_encode :: "int \<Rightarrow> int list \<Rightarrow> bytes \<Rightarrow> bytes fits_result" where
  "plio_encode offset vs out =
     (let ll = foldl words_push (words_new out) plio_header
      in if vs = [] then Inr (wd_out ll)
         else
           let s = plio_loop vs offset
                 \<lparr>pe_words = ll, pe_pv = vs ! 0 + offset, pe_x1 = 1, pe_iz = 1, pe_hi = 1, pe_nv = 0, pe_ip = 1\<rparr>
           in bind (length_words (words_len (pe_words s))) (\<lambda>(low, high).
                Inr (wd_out (words_set (words_set (pe_words s) 3 low) 4 high))))"

section \<open>Decoding\<close>

definition be_word :: "bytes \<Rightarrow> nat \<Rightarrow> u16 fits_result" where
  "be_word bs index =
     (if 2 * index + 2 \<le> length bs then Inr (from_be16 (take 2 (drop (2 * index) bs)))
      else Inl UnexpectedEof)"

definition nonnegative_word :: "bytes \<Rightarrow> nat \<Rightarrow> nat fits_result" where
  "nonnegative_word bs index =
     bind (be_word bs index) (\<lambda>w.
       if sint w < 0 then Inl (from_plio_defect NegativeHeader) else Inr (nat (sint w)))"

record plio_dec =
  pd_skip :: bool
  pd_op :: int
  pd_x1 :: int
  pd_pv :: int
  pd_px :: "int list"

text \<open>Write \<open>v\<close> at the output positions \<open>from\<close> to \<open>upto\<close>, counted from 1.\<close>

definition fill_range :: "int list \<Rightarrow> int \<Rightarrow> int \<Rightarrow> int \<Rightarrow> int list" where
  "fill_range px a b v = foldl (\<lambda>px i. px[nat (i - 1) := v]) px [a..b]"

text \<open>The effect of one instruction word, whose successor is \<open>next\<close>, if the list has one.\<close>

definition plio_exec :: "int \<Rightarrow> u16 \<Rightarrow> u16 fits_result \<Rightarrow> plio_dec \<Rightarrow> plio_dec fits_result" where
  "plio_exec xe word next s =
     (let opcode = uint word div 4096;
          data = uint word mod 4096
      in if opcode = 0 \<or> opcode = 4 \<or> opcode = 5
         then
           let x2 = pd_x1 s + data - 1;
               i2 = min x2 xe;
               np = i2 - pd_x1 s + 1;
               otop = pd_op s + np - 1
           in if np > 0
              then Inr (s\<lparr>pd_px := (if opcode = 4 then fill_range (pd_px s) (pd_op s) otop (pd_pv s)
                                    else if opcode = 5 \<and> i2 = x2 then (pd_px s)[nat (otop - 1) := pd_pv s]
                                    else pd_px s),
                          pd_op := otop + 1, pd_x1 := x2 + 1\<rparr>)
              else Inr (s\<lparr>pd_x1 := x2 + 1\<rparr>)
         else if opcode = 1
         then bind next (\<lambda>n. Inr (s\<lparr>pd_pv := uint n * 4096 + data, pd_skip := True\<rparr>))
         else if opcode = 2 then Inr (s\<lparr>pd_pv := pd_pv s + data\<rparr>)
         else if opcode = 3 then Inr (s\<lparr>pd_pv := pd_pv s - data\<rparr>)
         else if opcode = 6 \<or> opcode = 7
         then
           let pv = (if opcode = 6 then pd_pv s + data else pd_pv s - data)
           in Inr (if pd_x1 s \<le> xe
                   then s\<lparr>pd_pv := pv, pd_px := (pd_px s)[nat (pd_op s - 1) := pv],
                          pd_op := pd_op s + 1, pd_x1 := pd_x1 s + 1\<rparr>
                   else s\<lparr>pd_pv := pv, pd_x1 := pd_x1 s + 1\<rparr>)
         else Inl (from_plio_defect Opcode))"

function plio_run :: "bytes \<Rightarrow> nat \<Rightarrow> int \<Rightarrow> nat \<Rightarrow> plio_dec \<Rightarrow> int list fits_result" where
  "plio_run bs lllen xe ip s =
     (if ip \<le> lllen
      then if pd_skip s then plio_run bs lllen xe (ip + 1) (s\<lparr>pd_skip := False\<rparr>)
           else
             (case be_word bs (ip - 1) of
                Inl e \<Rightarrow> Inl e
              | Inr word \<Rightarrow>
                  (case plio_exec xe word (if ip \<ge> lllen then Inl UnexpectedEof else be_word bs ip) s of
                     Inl e \<Rightarrow> Inl e
                   | Inr s' \<Rightarrow> if pd_x1 s' > xe then Inr (pd_px s') else plio_run bs lllen xe (ip + 1) s'))
      else Inr (pd_px s))"
  by pat_completeness auto
termination by (relation "measure (\<lambda>(bs, lllen, xe, ip, s). lllen + 1 - ip)") auto

declare plio_run.simps [simp del]

text \<open>The header: the list's length and the position, counted from 1, of the first instruction.\<close>

definition list_bounds :: "bytes \<Rightarrow> (nat \<times> nat) fits_result" where
  "list_bounds bs =
     bind (be_word bs 2) (\<lambda>v3.
       if sint v3 > 0 then Inr (nat (sint v3), 4)
       else bind (nonnegative_word bs 3) (\<lambda>lo. bind (nonnegative_word bs 4) (\<lambda>hi.
              bind (nonnegative_word bs 1) (\<lambda>start. Inr (hi * 32768 + lo, start + 1)))))"

definition decode_words :: "bytes \<Rightarrow> nat \<Rightarrow> int list fits_result" where
  "decode_words bs npix =
     (if npix = 0 then Inr []
      else bind (list_bounds bs) (\<lambda>(lllen, llfirst).
             if lllen > length bs div 2 then Inl UnexpectedEof
             else if lllen = 0 \<or> llfirst > lllen + 1 then Inl (from_plio_defect ListBounds)
             else plio_run bs lllen (int npix) llfirst
                    \<lparr>pd_skip = False, pd_op = 1, pd_x1 = 1, pd_pv = 1, pd_px = replicate npix 0\<rparr>))"

definition plio_decode :: "int \<Rightarrow> bytes \<Rightarrow> nat \<Rightarrow> int list fits_result" where
  "plio_decode offset bs count =
     (if length bs mod 2 \<noteq> 0 then Inl UnexpectedEof
      else bind (decode_words bs count) (\<lambda>px.
             Inr (if offset \<noteq> 0 then map (\<lambda>v. v - offset) px else px)))"

end
