(* ===== verification/Plio_Correct.thy ===== *)
theory Plio_Correct
  imports Plio
begin

text \<open>
  The PLIO codec against itself. A line list after its header is the code of a script of
  \<open>instr\<close>uctions, whose meaning \<open>sem\<close> extends the pixels written so far under a current high
  value. The encoder's segments append the script of their pixels, the decoder runs a script to
  its meaning, and the two meet in the round trip.
\<close>

section \<open>Instructions\<close>

datatype instr = SetHigh nat | Up nat | Down nat | Zeros nat | Highs nat | ZerosHigh nat
  | UpOne nat | DownOne nat

fun code :: "instr \<Rightarrow> u16 list" where
  "code (SetHigh v) = [word_of_int (int v mod 4096 + 4096), word_of_int (int v div 4096)]"
| "code (Up d) = [word_of_int (int d + 8192)]"
| "code (Down d) = [word_of_int (int d + 12288)]"
| "code (Zeros d) = [word_of_int (int d)]"
| "code (Highs d) = [word_of_int (int d + 16384)]"
| "code (ZerosHigh d) = [word_of_int (int d + 20480)]"
| "code (UpOne d) = [word_of_int (int d + 24576)]"
| "code (DownOne d) = [word_of_int (int d + 28672)]"

fun wf_instr :: "instr \<Rightarrow> bool" where
  "wf_instr (SetHigh v) = (v < 2 ^ 24)"
| "wf_instr (ZerosHigh d) = (0 < d \<and> d < 4096)"
| "wf_instr (Up d) = (d < 4096)"
| "wf_instr (Down d) = (d < 4096)"
| "wf_instr (Zeros d) = (d < 4096)"
| "wf_instr (Highs d) = (d < 4096)"
| "wf_instr (UpOne d) = (d < 4096)"
| "wf_instr (DownOne d) = (d < 4096)"

fun sem :: "instr \<Rightarrow> int \<times> int list \<Rightarrow> int \<times> int list" where
  "sem (SetHigh v) (pv, out) = (int v, out)"
| "sem (Up d) (pv, out) = (pv + int d, out)"
| "sem (Down d) (pv, out) = (pv - int d, out)"
| "sem (Zeros d) (pv, out) = (pv, out @ replicate d 0)"
| "sem (Highs d) (pv, out) = (pv, out @ replicate d pv)"
| "sem (ZerosHigh d) (pv, out) = (pv, out @ replicate (d - 1) 0 @ [pv])"
| "sem (UpOne d) (pv, out) = (pv + int d, out @ [pv + int d])"
| "sem (DownOne d) (pv, out) = (pv - int d, out @ [pv - int d])"

definition run_script :: "instr list \<Rightarrow> int \<times> int list \<Rightarrow> int \<times> int list" where
  "run_script is st = fold sem is st"

lemma run_script_simps [simp]:
  "run_script [] st = st"
  "run_script (i # is) st = run_script is (sem i st)"
  "run_script (is @ js) st = run_script js (run_script is st)"
  by (simp_all add: run_script_def)

lemma sem_extends: "\<exists>ys. snd (sem i (pv, out)) = out @ ys"
  by (cases i) auto

lemma run_script_extends: "\<exists>ys. snd (run_script is st) = snd st @ ys"
proof (induction "is" arbitrary: st)
  case (Cons i "is")
  obtain ys where "snd (sem i st) = snd st @ ys"
    using sem_extends [of i "fst st" "snd st"] by auto
  then show ?case using Cons.IH [of "sem i st"] by auto
qed simp

section \<open>The decoder runs a script\<close>

definition synced :: "nat \<Rightarrow> int \<times> int list \<Rightarrow> plio_dec" where
  "synced npix st = \<lparr>pd_skip = False, pd_op = int (length (snd st)) + 1, pd_x1 = int (length (snd st)) + 1,
     pd_pv = fst st, pd_px = snd st @ replicate (npix - length (snd st)) 0\<rparr>"

lemma fill_range_append:
  "fill_range (out @ replicate (d + k) z) (int (length out) + 1) (int (length out) + int d) v
     = out @ replicate d v @ replicate k z"
proof (induction d arbitrary: out)
  case 0
  then show ?case by (simp add: fill_range_def)
next
  case (Suc d)
  let ?n = "int (length out) + 1"
  have "[?n..int (length out) + int (Suc d)] = ?n # [?n + 1..int (length out) + int (Suc d)]"
    by (rule upto_rec1) simp
  moreover have "(out @ replicate (Suc d + k) z)[nat (?n - 1) := v] = (out @ [v]) @ replicate (d + k) z"
    by (simp add: list_update_append)
  ultimately show ?case
    using Suc.IH [of "out @ [v]"] by (simp add: fill_range_def add.commute add.left_commute)
qed

lemma uint_code:
  "0 \<le> x \<Longrightarrow> x < 65536 \<Longrightarrow> uint (word_of_int x :: u16) = x"
  by (simp add: uint_word_of_int)

lemma opcode_data:
  assumes "d < 4096" and "0 \<le> k" and "k < 16"
  shows "uint (word_of_int (int d + k * 4096) :: u16) div 4096 = k"
    "uint (word_of_int (int d + k * 4096) :: u16) mod 4096 = int d"
proof -
  have "uint (word_of_int (int d + k * 4096) :: u16) = int d + k * 4096"
    using assms by (intro uint_code) auto
  then show "uint (word_of_int (int d + k * 4096) :: u16) div 4096 = k"
    "uint (word_of_int (int d + k * 4096) :: u16) mod 4096 = int d"
    using assms(1) by simp_all
qed

lemmas opcodes = opcode_data [where k = 0, simplified] opcode_data [where k = 2, simplified]
  opcode_data [where k = 3, simplified] opcode_data [where k = 4, simplified]
  opcode_data [where k = 5, simplified] opcode_data [where k = 6, simplified]
  opcode_data [where k = 7, simplified]

lemma replicate_update:
  assumes "i < n"
  shows "(replicate n z)[i := v] = replicate i z @ v # replicate (n - Suc i) z"
proof -
  have "replicate n z = replicate i z @ z # replicate (n - Suc i) z"
    using assms by (metis Suc_diff_Suc add_diff_inverse_nat less_imp_not_less replicate_Suc replicate_add)
  then show ?thesis by (metis length_replicate list_update_length)
qed

lemma append_replicate_update:
  "i = length out + j \<Longrightarrow> j < n \<Longrightarrow>
    (out @ replicate n z)[i := v] = out @ replicate j z @ v # replicate (n - Suc j) z"
  by (simp add: list_update_append replicate_update)

lemma exec_run:
  assumes d: "d < 4096" and len: "length out + d \<le> npix" and k: "k = 0 \<or> k = 4 \<or> k = 5 \<and> 0 < d"
    and w: "uint w div 4096 = k" "uint w mod 4096 = int d"
  shows "plio_exec (int npix) w nxt (synced npix (pv, out))
    = Inr (synced npix (pv, out @ (if k = 4 then replicate d pv
                                   else if k = 5 then replicate (d - 1) 0 @ [pv] else replicate d 0)))"
proof (cases "d = 0")
  case True
  then show ?thesis using k by (auto simp: plio_exec_def Let_def w synced_def)
next
  case False
  let ?m = "npix - length out - d"
  have m: "npix - length out = d + ?m" using len by simp
  have split: "replicate (npix - length out) (0::int) = replicate d 0 @ replicate ?m 0"
    using m replicate_add by metis
  consider "k = 0" | "k = 4" | "k = 5" using k by blast
  then show ?thesis
  proof cases
    case 1
    then show ?thesis using False len split
      by (simp add: plio_exec_def Let_def w synced_def min_def)
  next
    case 2
    have "fill_range (out @ replicate (npix - length out) 0) (int (length out) + 1) (int (length out) + int d) pv
        = out @ replicate d pv @ replicate ?m 0"
      using fill_range_append [of out d ?m] m by simp
    then show ?thesis using False len 2
      by (simp add: plio_exec_def Let_def w synced_def min_def)
  next
    case 3
    have "(out @ replicate (npix - length out) 0)[length out + d - Suc 0 := pv]
        = out @ replicate (d - 1) 0 @ pv # replicate ?m 0"
      using False len append_replicate_update [of _ out "d - 1" "npix - length out" 0 pv] by simp
    moreover have "nat (int (length out) + int d - 1) = length out + d - Suc 0" using False by simp
    ultimately show ?thesis using False len 3
      by (auto simp: plio_exec_def Let_def w synced_def min_def)
  qed
qed

lemma exec_one:
  assumes len: "length out < npix" and k: "k = 6 \<or> k = 7"
    and w: "uint w div 4096 = k" "uint w mod 4096 = int d"
  shows "plio_exec (int npix) w nxt (synced npix (pv, out))
    = Inr (synced npix (let v = (if k = 6 then pv + int d else pv - int d) in (v, out @ [v])))"
proof -
  have "(out @ replicate (npix - length out) 0)[length out := v] = out @ v # replicate (npix - Suc (length out)) 0"
    for v :: int using len by (simp add: list_update_append replicate_update)
  then show ?thesis using k len
    by (auto simp: plio_exec_def Let_def w synced_def nat_add_distrib)
qed

lemma exec_instr:
  assumes "wf_instr i" and "\<nexists>v. i = SetHigh v" and "length (snd st) < npix"
    and "length (snd (sem i st)) \<le> npix"
  shows "\<exists>w. code i = [w] \<and> plio_exec (int npix) w nxt (synced npix st) = Inr (synced npix (sem i st))"
proof -
  obtain pv out where st: "st = (pv, out)" by (cases st)
  show ?thesis
  proof (cases i)
    case (Up d)
    then show ?thesis using assms st by (simp add: plio_exec_def Let_def opcodes synced_def)
  next
    case (Down d)
    then show ?thesis using assms st by (simp add: plio_exec_def Let_def opcodes synced_def)
  next
    case (Zeros d)
    then show ?thesis using assms st exec_run [of d out npix 0 "word_of_int (int d)" nxt pv]
      by (simp add: opcodes)
  next
    case (Highs d)
    then show ?thesis using assms st exec_run [of d out npix 4 "word_of_int (int d + 16384)" nxt pv]
      by (simp add: opcodes)
  next
    case (ZerosHigh d)
    then show ?thesis using assms st exec_run [of d out npix 5 "word_of_int (int d + 20480)" nxt pv]
      by (simp add: opcodes)
  next
    case (UpOne d)
    then show ?thesis using assms st exec_one [of out npix 6 "word_of_int (int d + 24576)" d nxt pv]
      by (simp add: opcodes Let_def)
  next
    case (DownOne d)
    then show ?thesis using assms st exec_one [of out npix 7 "word_of_int (int d + 28672)" d nxt pv]
      by (simp add: opcodes Let_def)
  qed (use assms in auto)
qed

lemma exec_set_high:
  assumes v: "v < 2 ^ 24"
  shows "plio_exec (int npix) (word_of_int (int v mod 4096 + 4096)) (Inr (word_of_int (int v div 4096)))
      (synced npix (pv, out)) = Inr ((synced npix (int v, out))\<lparr>pd_skip := True\<rparr>)"
proof -
  have a: "int v mod 4096 < 4096" by simp
  have "uint (word_of_int (int v mod 4096 + 4096) :: u16) = int v mod 4096 + 4096"
    using a by (intro uint_code) auto
  moreover have "uint (word_of_int (int v div 4096) :: u16) = int v div 4096"
    using v by (intro uint_code) auto
  moreover have "(int v mod 4096 + 4096) div 4096 = 1" using a by simp
  ultimately show ?thesis
    by (simp add: plio_exec_def Let_def synced_def)
qed

lemma length_run_script: "length (snd st) \<le> length (snd (run_script is st))"
  using run_script_extends [of "is" st] by auto

text \<open>From the position \<open>ip\<close> on, the list's words are a script's code; the script fills the tile.\<close>

lemma plio_run_script:
  assumes words: "\<forall>i < length wl. be_word bs i = Inr (wl ! i)"
  shows "list_all wf_instr is \<Longrightarrow> drop ip wl = concat (map code is) \<Longrightarrow> length (snd st) < npix \<Longrightarrow>
    length (snd (run_script is st)) = npix \<Longrightarrow>
    plio_run bs (length wl) (int npix) (ip + 1) (synced npix st) = Inr (snd (run_script is st))"
proof (induction "is" arbitrary: ip st)
  case Nil
  then show ?case by simp
next
  case (Cons i "is")
  have fits: "length (snd (sem i st)) \<le> npix"
    using Cons.prems(4) length_run_script [of "sem i st" "is"] by simp
  have finish: "snd (run_script is (sem i st)) = snd (sem i st)" if "length (snd (sem i st)) = npix"
    using run_script_extends [of "is" "sem i st"] Cons.prems(4) that by auto
  show ?case
  proof (cases "\<exists>v. i = SetHigh v")
    case False
    then obtain w where w: "code i = [w]"
      "\<And>nxt. plio_exec (int npix) w nxt (synced npix st) = Inr (synced npix (sem i st))"
      using exec_instr [of i st npix] Cons.prems fits by (cases i) auto
    have d: "drop ip wl = w # concat (map code is)" using Cons.prems(2) w(1) by simp
    then have ip: "ip < length wl" "wl ! ip = w" "drop (Suc ip) wl = concat (map code is)"
      by (metis drop_all list.distinct(1) not_le, metis hd_drop_conv_nth list.sel(1) drop_all list.distinct(1) not_le,
          metis drop_Suc drop_tl list.sel(3) tl_drop)
    have eq: "plio_run bs (length wl) (int npix) (ip + 1) (synced npix st)
        = (if pd_x1 (synced npix (sem i st)) > int npix then Inr (pd_px (synced npix (sem i st)))
           else plio_run bs (length wl) (int npix) (Suc ip + 1) (synced npix (sem i st)))"
      using ip words w(2) by (subst plio_run.simps) (simp add: synced_def [of npix st])
    show ?thesis
    proof (cases "length (snd (sem i st)) = npix")
      case True
      then show ?thesis unfolding eq using finish by (simp add: synced_def)
    next
      case less: False
      then have "length (snd (sem i st)) < npix" using fits by simp
      from Cons.IH [OF _ ip(3) this] Cons.prems(1,4) show ?thesis
        unfolding eq using less fits by (simp add: synced_def)
    qed
  next
    case True
    then obtain v where v: "i = SetHigh v" by blast
    obtain pv out where st: "st = (pv, out)" by (cases st)
    let ?w1 = "word_of_int (int v mod 4096 + 4096) :: u16" and ?w2 = "word_of_int (int v div 4096) :: u16"
    have d: "drop ip wl = ?w1 # ?w2 # concat (map code is)" using Cons.prems(2) v by simp
    have "length (drop ip wl) = Suc (Suc (length (concat (map code is))))" unfolding d by simp
    then have len: "Suc ip < length wl" by simp
    have ip: "wl ! ip = ?w1" "wl ! Suc ip = ?w2" "drop (Suc (Suc ip)) wl = concat (map code is)"
      using arg_cong [OF d, of "\<lambda>l. l ! 0"] arg_cong [OF d, of "\<lambda>l. l ! 1"]
        arg_cong [OF d, of "drop 2"] len by simp_all
    have x: "plio_exec (int npix) ?w1 (Inr ?w2) (synced npix st)
        = Inr ((synced npix (sem i st))\<lparr>pd_skip := True\<rparr>)"
      using exec_set_high [of v npix pv out] Cons.prems(1) v st by simp
    have "be_word bs ip = Inr ?w1" "be_word bs (Suc ip) = Inr ?w2" using words len ip by auto
    then have "plio_run bs (length wl) (int npix) (ip + 1) (synced npix st)
        = plio_run bs (length wl) (int npix) (Suc (Suc ip)) ((synced npix (sem i st))\<lparr>pd_skip := True\<rparr>)"
      using len x Cons.prems(3) v st by (subst plio_run.simps) (simp add: synced_def)
    also have "\<dots> = plio_run bs (length wl) (int npix) (Suc (Suc ip) + 1) (synced npix (sem i st))"
      using len by (subst plio_run.simps) (simp add: synced_def)
    also have "\<dots> = Inr (snd (run_script (i # is) st))"
      using Cons.IH [OF _ ip(3), of "sem i st"] Cons.prems v st by simp
    finally show ?thesis .
  qed
qed

section \<open>The words of a buffer\<close>

definition word_bytes :: "u16 list \<Rightarrow> bytes" where
  "word_bytes ws = concat (map to_be16 ws)"

lemma word_bytes_simps [simp]:
  "word_bytes [] = []"
  "word_bytes (x # ws) = to_be16 x @ word_bytes ws"
  "word_bytes (ws @ vs) = word_bytes ws @ word_bytes vs"
  by (simp_all add: word_bytes_def)

lemma length_word_bytes [simp, len_simps]: "length (word_bytes ws) = 2 * length ws"
  by (induction ws) auto

lemma take_word_bytes: "take (2 * i) (word_bytes ws) = word_bytes (take i ws)"
proof (induction ws arbitrary: i)
  case (Cons x ws)
  then show ?case by (cases i) auto
qed simp

lemma drop_word_bytes: "drop (2 * i) (word_bytes ws) = word_bytes (drop i ws)"
proof (induction ws arbitrary: i)
  case (Cons x ws)
  then show ?case by (cases i) auto
qed simp

lemma be_word_bytes: "i < length ws \<Longrightarrow> be_word (word_bytes ws) i = Inr (ws ! i)"
  by (simp add: be_word_def drop_word_bytes Cons_nth_drop_Suc [symmetric])

definition holds :: "words \<Rightarrow> bytes \<Rightarrow> u16 list \<Rightarrow> bool" where
  "holds w out ws \<longleftrightarrow> w = \<lparr>wd_out = out @ word_bytes ws, wd_start = length out\<rparr>"

lemma holds_new: "holds (words_new out) out []"
  by (simp add: holds_def words_new_def)

lemma holds_push: "holds w out ws \<Longrightarrow> holds (words_push w x) out (ws @ [x])"
  by (simp add: holds_def words_push_def)

lemma holds_len: "holds w out ws \<Longrightarrow> words_len w = length ws"
  by (simp add: holds_def words_len_def)

lemma holds_set:
  assumes "holds w out ws" and "i < length ws"
  shows "holds (words_set w i x) out (ws[i := x])"
proof -
  have a: "take (length out + 2 * i) (out @ word_bytes ws) = out @ word_bytes (take i ws)"
    by (simp add: take_word_bytes)
  have b: "drop (length out + 2 * i + 2) (out @ word_bytes ws) = word_bytes (drop (Suc i) ws)"
    using drop_word_bytes [of "Suc i" ws] by simp
  show ?thesis
    using assms a b by (simp add: holds_def words_set_def Let_def upd_conv_take_nth_drop)
qed

lemma holds_update_last:
  assumes "holds w out (ws @ [x])"
  shows "holds (update_last w f) out (ws @ [f x])"
proof -
  have at: "length (wd_out w) - 2 = length out + 2 * length ws" "wd_start w = length out"
    using assms by (simp_all add: holds_def)
  have "drop (length out + 2 * length ws) (wd_out w) = to_be16 x"
    using assms drop_word_bytes [of "length ws" "ws @ [x]"] by (simp add: holds_def)
  then have "update_last w f = words_set w (length ws) (f x)"
    by (simp add: update_last_def Let_def at)
  then show ?thesis using holds_set [OF assms, of "length ws" "f x"] by simp
qed

section \<open>The encoder's segments\<close>

text \<open>A run's lengths in words of at most 4095.\<close>

function pieces :: "nat \<Rightarrow> nat list" where
  "pieces n = (if n = 0 then [] else min n 4095 # pieces (n - 4095))"
  by pat_completeness auto
termination by (relation "measure id") auto

declare pieces.simps [simp del]

lemma pieces_0 [simp]: "pieces 0 = []"
  by (simp add: pieces.simps)

lemma pieces_bound: "list_all (\<lambda>d. d < 4096) (pieces n)"
proof (induction n rule: pieces.induct)
  case (1 n)
  then show ?case by (cases "n = 0") (auto simp: pieces.simps [of n])
qed

lemma sum_pieces: "sum_list (pieces n) = n"
proof (induction n rule: pieces.induct)
  case (1 n)
  then show ?case by (cases "n = 0") (auto simp: pieces.simps [of n])
qed

lemma length_pieces: "length (pieces n) \<le> n"
proof (induction n rule: pieces.induct)
  case (1 n)
  then show ?case by (cases "n = 0") (auto simp: pieces.simps [of n])
qed

lemma pieces_last:
  "0 < n \<Longrightarrow> \<exists>ps d. pieces n = ps @ [d] \<and> 0 < d \<and> (d = 4095 \<longrightarrow> 4095 dvd n)"
proof (induction n rule: pieces.induct)
  case (1 n)
  show ?case
  proof (cases "n \<le> 4095")
    case True
    then show ?thesis using "1.prems" by (intro exI [of _ "[]"]) (auto simp: pieces.simps [of n])
  next
    case False
    then obtain ps d where "pieces (n - 4095) = ps @ [d]" "0 < d" "d = 4095 \<longrightarrow> 4095 dvd n - 4095"
      using "1.IH" by auto
    then show ?thesis using False
      by (intro exI [of _ "4095 # ps"] exI [of _ d]) (auto simp: pieces.simps [of n] dvd_minus_self)
  qed
qed

lemma holds_push_runs:
  "holds w out ws \<Longrightarrow> holds (push_runs w base (int n)) out
    (ws @ map (\<lambda>d. word_of_int (int d + base)) (pieces n))"
proof (induction n arbitrary: w ws rule: pieces.induct)
  case (1 n)
  show ?case
  proof (cases "n = 0")
    case True
    then show ?thesis using "1.prems" by (simp add: push_runs.simps)
  next
    case False
    have "holds (words_push w (word_of_int (min (int n) 4095 + base))) out
        (ws @ [word_of_int (int (min n 4095) + base)])"
      using holds_push [OF "1.prems"] by (simp add: min_def)
    note IH = "1.IH" [OF False this]
    have "push_runs w' base (int n - 4095) = push_runs w' base (int (n - 4095))" for w'
      by (cases "n \<le> 4095") (auto simp: push_runs.simps of_nat_diff)
    then show ?thesis using IH False
      by (simp add: push_runs.simps [of w base "int n"] pieces.simps [of n])
  qed
qed

lemma or_16384:
  assumes "x < 16384"
  shows "(word_of_int (int x) :: u16) OR 16384 = word_of_int (int x + 16384)"
proof -
  have x: "take_bit 14 (of_nat x :: u16) = of_nat x"
    using assms by (intro word_unat_eq_iff [THEN iffD2])
      (simp add: unsigned_take_bit_eq unat_of_nat take_bit_nat_eq_self)
  have e: "bit (2 ^ 14 :: u16) i \<longleftrightarrow> i = 14" for i
    by (simp only: bit_exp_iff possible_bit_word) auto
  have n: "\<not> bit (of_nat x :: u16) i \<or> \<not> bit (2 ^ 14 :: u16) i" for i
    by (subst x [symmetric]) (simp only: e bit_take_bit_iff, simp)
  show ?thesis using disjunctive_add [OF n] by simp
qed

lemma opcode_6_7:
  "d < 4096 \<Longrightarrow> (of_nat d + 8192 :: u16) OR 16384 = of_nat d + 24576"
  "d < 4096 \<Longrightarrow> (of_nat d + 12288 :: u16) OR 16384 = of_nat d + 28672"
proof -
  assume d: "d < 4096"
  show "(of_nat d + 8192 :: u16) OR 16384 = of_nat d + 24576"
    using or_16384 [of "d + 8192"] d by (simp add: add.assoc)
  show "(of_nat d + 12288 :: u16) OR 16384 = of_nat d + 28672"
    using or_16384 [of "d + 12288"] d by (simp add: add.assoc)
qed

definition codes :: "instr list \<Rightarrow> u16 list" where
  "codes is = concat (map code is)"

lemma codes_simps [simp]:
  "codes [] = []" "codes (i # is) = code i @ codes is" "codes (is @ js) = codes is @ codes js"
  by (simp_all add: codes_def)

text \<open>The change of the high value to \<open>pv\<close>.\<close>

lemma emit_adjust_script:
  assumes w: "holds w out ws" and hi: "hi < 2 ^ 24" and pv: "0 < pv" "pv < 2 ^ 24"
    and e: "emit_adjust w (int hi) (int pv) np nz = (w', hi', stop)"
  shows "hi' = int pv \<and> (\<exists>is. holds w' out (ws @ codes is) \<and> list_all wf_instr is \<and> length (codes is) \<le> 2
    \<and> (if stop then np = 1 \<and> nz = 0 \<and> (\<forall>px. run_script is (int hi, px) = (int pv, px @ [int pv]))
       else (\<forall>px. run_script is (int hi, px) = (int pv, px))))"
proof -
  consider "pv = hi" | "pv \<noteq> hi" "\<bar>int pv - int hi\<bar> > 4095"
    | d where "hi = pv + d" "0 < d" "d < 4096" | d where "pv = hi + d" "0 < d" "d < 4096"
  proof -
    have "pv = hi \<or> (\<exists>d>0. hi = pv + d) \<or> (\<exists>d>0. pv = hi + d)"
      by (metis less_imp_add_positive linorder_neqE_nat)
    then show ?thesis using that by (cases "\<bar>int pv - int hi\<bar> > 4095") auto
  qed
  then show ?thesis
  proof cases
    case 1
    then show ?thesis using e w by (intro conjI exI [of _ "[]"]) (auto simp: emit_adjust_def Let_def)
  next
    case 2
    then show ?thesis using e pv holds_push [OF holds_push [OF w]]
      by (intro conjI exI [of _ "[SetHigh pv]"]) (auto simp: emit_adjust_def Let_def)
  next
    case (3 d)
    let ?x = "word_of_int (int d + 12288) :: u16"
    note h = holds_push [OF w, of ?x]
    show ?thesis
    proof (cases "np = 1 \<and> nz = 0")
      case True
      then have "w' = update_last (words_push w ?x) (\<lambda>last. last OR 16384)" "hi' = int pv" stop
        using e 3 pv by (auto simp: emit_adjust_def Let_def)
      then show ?thesis using holds_update_last [OF h, of "\<lambda>last. last OR 16384"] 3 True
        by (intro conjI exI [of _ "[DownOne d]"]) (auto simp: opcode_6_7)
    next
      case False
      then have "w' = words_push w ?x" "hi' = int pv" "\<not> stop"
        using e 3 pv by (auto simp: emit_adjust_def Let_def)
      then show ?thesis using h 3
        by (intro conjI exI [of _ "[Down d]"]) auto
    qed
  next
    case (4 d)
    let ?x = "word_of_int (int d + 8192) :: u16"
    note h = holds_push [OF w, of ?x]
    show ?thesis
    proof (cases "np = 1 \<and> nz = 0")
      case True
      then have "w' = update_last (words_push w ?x) (\<lambda>last. last OR 16384)" "hi' = int pv" stop
        using e 4 pv by (auto simp: emit_adjust_def Let_def)
      then show ?thesis using holds_update_last [OF h, of "\<lambda>last. last OR 16384"] 4 True
        by (intro conjI exI [of _ "[UpOne d]"]) (auto simp: opcode_6_7)
    next
      case False
      then have "w' = words_push w ?x" "hi' = int pv" "\<not> stop"
        using e 4 pv by (auto simp: emit_adjust_def Let_def)
      then show ?thesis using h 4
        by (intro conjI exI [of _ "[Up d]"]) auto
    qed
  qed
qed

lemma run_zeros: "run_script (map Zeros ds) (pv, px) = (pv, px @ replicate (sum_list ds) 0)"
  by (induction ds arbitrary: px) (auto simp: replicate_add)

lemma run_highs: "run_script (map Highs ds) (pv, px) = (pv, px @ replicate (sum_list ds) pv)"
  by (induction ds arbitrary: px) (auto simp: replicate_add)

lemma codes_zeros: "codes (map Zeros ds) = map (\<lambda>d. word_of_int (int d + 0)) ds"
  by (induction ds) auto

lemma codes_highs: "codes (map Highs ds) = map (\<lambda>d. word_of_int (int d + 16384)) ds"
  by (induction ds) auto

lemma push_highs_script:
  assumes "holds w out ws"
  shows "\<exists>is. holds (push_runs w 16384 (int n)) out (ws @ codes is) \<and> list_all wf_instr is
    \<and> length (codes is) \<le> n \<and> (\<forall>px. run_script is (pv, px) = (pv, px @ replicate n pv))"
  using holds_push_runs [OF assms, of 16384 n] pieces_bound [of n] length_pieces [of n]
  by (intro exI [of _ "map Highs (pieces n)"])
     (simp add: codes_highs run_highs sum_pieces list_all_iff)

lemma emit_zeros_script:
  assumes w: "holds w out ws" and z: "0 < z"
    and safe: "\<not> (n = 1 \<and> 0 < pv \<and> 4095 dvd z)"
    and e: "emit_zeros w pv (int n) (int z) False = (w', stop)"
  shows "\<exists>is. holds w' out (ws @ codes is) \<and> list_all wf_instr is \<and> length (codes is) \<le> z
    \<and> stop = (n = 1 \<and> 0 < pv)
    \<and> (\<forall>px. run_script is (pv, px) = (pv, px @ replicate z 0 @ (if stop then [pv] else [])))"
proof -
  obtain ps d where p: "pieces z = ps @ [d]" "0 < d" "d = 4095 \<longrightarrow> 4095 dvd z"
    using pieces_last [OF z] by blast
  have b: "list_all (\<lambda>d. d < 4096) ps" "d < 4096" using pieces_bound [of z] p(1) by auto
  have z': "z = sum_list ps + d" using sum_pieces [of z] p(1) by simp
  have l: "length ps + 1 \<le> z" using length_pieces [of z] p(1) by simp
  have h: "holds (push_runs w 0 (int z)) out ((ws @ codes (map Zeros ps)) @ [word_of_int (int d)])"
    using holds_push_runs [OF w, of 0 z] by (simp add: p(1) codes_zeros)
  show ?thesis
  proof (cases "n = 1 \<and> 0 < pv")
    case True
    then have "d < 4095" using safe p(3) b(2) by (cases "d = 4095") auto
    then have s: "sint (word_of_int (int d) :: u16) = int d"
      using uint_code [of "int d"] by (simp add: sint_uint signed_take_bit_int_eq_self_iff)
    let ?f = "\<lambda>last :: u16. word_of_int (sint last + 20481) :: u16"
    have "w' = update_last (push_runs w 0 (int z)) ?f" "stop"
      using e True z by (auto simp: emit_zeros_def Let_def)
    moreover have c: "codes [ZerosHigh (Suc d)] = [word_of_int (int d + 20481)]" by simp
    have "holds (update_last (push_runs w 0 (int z)) ?f) out (ws @ codes (map Zeros ps @ [ZerosHigh (Suc d)]))"
      using holds_update_last [OF h, of ?f] by (simp only: s codes_simps append_assoc c [unfolded codes_simps])
    ultimately show ?thesis
      using True b \<open>d < 4095\<close> l
      by (intro exI [of _ "map Zeros ps @ [ZerosHigh (Suc d)]"])
         (auto simp: run_zeros codes_zeros z' replicate_add list_all_iff)
  next
    case False
    then have "w' = push_runs w 0 (int z)" "\<not> stop"
      using e z by (auto simp: emit_zeros_def Let_def)
    then show ?thesis
      using False b h l
      by (intro exI [of _ "map Zeros (ps @ [d])"])
         (auto simp: run_zeros codes_zeros z' replicate_add list_all_iff)
  qed
qed

lemma emit_segment_script:
  assumes w: "holds w out ws" and hi: "hi < 2 ^ 24" and pv: "0 < pv" "pv < 2 ^ 24" and n: "0 < n"
    and safe: "\<not> (n = 1 \<and> 0 < z \<and> 4095 dvd z)"
    and e: "emit_segment w (int hi) (int pv) (int n) (int z) = (w', hi')"
  shows "hi' = int pv \<and> (\<exists>is. holds w' out (ws @ codes is) \<and> list_all wf_instr is
    \<and> length (codes is) \<le> 3 * (z + n)
    \<and> (\<forall>px. run_script is (int hi, px) = (int pv, px @ replicate z 0 @ replicate n (int pv))))"
proof -
  obtain w1 hi1 done1 where a: "emit_adjust w (int hi) (int pv) (int n) (int z) = (w1, hi1, done1)"
    by (metis prod.collapse)
  obtain w2 done2 where b: "emit_zeros w1 (int pv) (int n) (int z) done1 = (w2, done2)"
    by (metis prod.collapse)
  have r: "w' = (if done2 then w2 else push_runs w2 16384 (int n))" "hi' = hi1"
    using e a b by (auto simp: emit_segment_def)
  from emit_adjust_script [OF w hi pv a]
  obtain is1 where i1: "hi1 = int pv" "holds w1 out (ws @ codes is1)" "list_all wf_instr is1"
    "length (codes is1) \<le> 2"
    "if done1 then int n = 1 \<and> int z = 0 \<and> (\<forall>px. run_script is1 (int hi, px) = (int pv, px @ [int pv]))
       else (\<forall>px. run_script is1 (int hi, px) = (int pv, px))" by blast
  show ?thesis
  proof (cases done1)
    case True
    then have "done2" "w2 = w1" using b by (auto simp: emit_zeros_def)
    then show ?thesis using True i1 r by (intro conjI exI [of _ is1]) auto
  next
    case nd: False
    have "\<exists>is2. holds w2 out ((ws @ codes is1) @ codes is2) \<and> list_all wf_instr is2 \<and> length (codes is2) \<le> z
      \<and> done2 = (n = 1 \<and> 0 < z)
      \<and> (\<forall>px. run_script is2 (int pv, px) = (int pv, px @ replicate z 0 @ (if done2 then [int pv] else [])))"
    proof (cases "0 < z")
      case True
      then show ?thesis
        using emit_zeros_script [OF i1(2) True, of n "int pv" w2 done2] safe b nd pv(1) by auto
    next
      case False
      then show ?thesis using b nd i1(2) by (intro exI [of _ "[]"]) (auto simp: emit_zeros_def)
    qed
    then obtain is2 where i2: "holds w2 out ((ws @ codes is1) @ codes is2)" "list_all wf_instr is2"
      "length (codes is2) \<le> z" "done2 = (n = 1 \<and> 0 < z)"
      "\<forall>px. run_script is2 (int pv, px) = (int pv, px @ replicate z 0 @ (if done2 then [int pv] else []))"
      by blast
    show ?thesis
    proof (cases done2)
      case True
      then have "n = 1" "0 < z" using i2(4) by auto
      then show ?thesis using i1 i2 r nd True
        by (intro conjI exI [of _ "is1 @ is2"]) auto
    next
      case False
      obtain is3 where i3: "holds (push_runs w2 16384 (int n)) out (((ws @ codes is1) @ codes is2) @ codes is3)"
        "list_all wf_instr is3" "length (codes is3) \<le> n"
        "\<forall>px. run_script is3 (int pv, px) = (int pv, px @ replicate n (int pv))"
        using push_highs_script [OF i2(1), of n "int pv"] by blast
      have "length (codes (is1 @ is2 @ is3)) \<le> 2 + z + n" using i1(4) i2(3) i3(3) by simp
      also have "\<dots> \<le> 3 * (z + n)" using n by simp
      finally show ?thesis using i1 i2 i3 r nd False
        by (intro conjI exI [of _ "is1 @ is2 @ is3"]) auto
    qed
  qed
qed

lemma emit_tail_script:
  assumes w: "holds w out ws" and e: "emit_segment w (int hi) 0 0 (int z) = (w', hi')"
  shows "\<exists>is. holds w' out (ws @ codes is) \<and> list_all wf_instr is \<and> length (codes is) \<le> z
    \<and> (\<forall>px. run_script is (int hi, px) = (int hi, px @ replicate z 0))"
proof -
  have "w' = push_runs (push_runs w 0 (int z)) 16384 0"
    using e by (cases "z = 0") (auto simp: emit_segment_def emit_adjust_def emit_zeros_def push_runs.simps [of w 0 0])
  then have "w' = push_runs w 0 (int z)" by (simp add: push_runs.simps [of _ _ 0])
  then show ?thesis
    using holds_push_runs [OF w, of 0 z] pieces_bound [of z] length_pieces [of z]
    by (intro exI [of _ "map Zeros (pieces z)"]) (auto simp: codes_zeros run_zeros sum_pieces list_all_iff)
qed

section \<open>The encoder's loop\<close>

lemma foldl_all_eq: "foldl (\<lambda>same x. same \<and> x = v) b c \<longleftrightarrow> b \<and> (\<forall>x \<in> set c. x = v)"
  by (induction c arbitrary: b) auto

lemma run_len_takeWhile: "run_len vs v = length (takeWhile (\<lambda>x. x = v) vs)"
proof (induction "length vs" arbitrary: vs rule: less_induct)
  case less
  let ?p = "\<lambda>chunk. foldl (\<lambda>same x. same \<and> x = v) True chunk"
  show ?case
  proof (cases "length vs < 16 \<or> \<not> ?p (take 16 vs)")
    case True
    then have "length (takeWhile ?p (as_chunks 16 vs)) = 0"
      by (subst as_chunks.simps) auto
    then show ?thesis by (simp add: run_len_def Let_def)
  next
    case False
    let ?ds = "drop 16 vs"
    have all: "\<forall>x \<in> set (take 16 vs). x = v" using False by (simp add: foldl_all_eq)
    have "as_chunks 16 vs = take 16 vs # as_chunks 16 ?ds"
      using False by (subst as_chunks.simps) simp
    then have tw: "length (takeWhile ?p (as_chunks 16 vs)) = Suc (length (takeWhile ?p (as_chunks 16 ?ds)))"
      using False by simp
    have "run_len vs v = 16 + run_len ?ds v"
      unfolding run_len_def tw by (simp add: Let_def add.commute)
    also have "run_len ?ds v = length (takeWhile (\<lambda>x. x = v) ?ds)"
    proof (rule less)
      have "16 \<le> length vs" using False by simp
      then show "length ?ds < length vs" by simp
    qed
    also have "16 + length (takeWhile (\<lambda>x. x = v) ?ds) = length (takeWhile (\<lambda>x. x = v) (take 16 vs @ ?ds))"
      using all False by (subst takeWhile_append2) auto
    finally show ?thesis by simp
  qed
qed

text \<open>A pixel, high and alone, after a zero run that fills its words: \<open>z\<close> zeros came before.\<close>

fun lone_after_full_run :: "nat \<Rightarrow> int list \<Rightarrow> bool" where
  "lone_after_full_run z [] = False"
| "lone_after_full_run z (v # vs) =
     (if v = 0 then lone_after_full_run (z + 1) vs
      else (0 < z \<and> 4095 dvd z \<and> (vs = [] \<or> hd vs \<noteq> v)) \<or> lone_after_full_run 0 vs)"

lemma lone_zeros: "lone_after_full_run k (replicate z 0 @ vs) = lone_after_full_run (k + z) vs"
  by (induction z arbitrary: k) auto

lemma lone_highs: "v \<noteq> 0 \<Longrightarrow> lone_after_full_run 0 (replicate n v @ vs) = lone_after_full_run 0 vs"
  by (induction n) auto

lemma lone_run:
  assumes "\<not> lone_after_full_run 0 (replicate z 0 @ replicate n v @ vs)" and "v \<noteq> 0" and "0 < n"
  shows "\<not> lone_after_full_run 0 vs" and "vs = [] \<or> hd vs \<noteq> v \<Longrightarrow> \<not> (n = 1 \<and> 0 < z \<and> 4095 dvd z)"
proof -
  obtain m where n: "n = Suc m" using assms(3) by (cases n) auto
  have l: "\<not> lone_after_full_run z (v # replicate m v @ vs)"
    using assms(1) by (simp add: n lone_zeros)
  then show "\<not> lone_after_full_run 0 vs" using assms(2) by (simp add: lone_highs)
  show "\<not> (n = 1 \<and> 0 < z \<and> 4095 dvd z)" if "vs = [] \<or> hd vs \<noteq> v"
    using l that assms(2) by (auto simp: n)
qed

definition enc_inv :: "int list \<Rightarrow> bytes \<Rightarrow> plio_enc \<Rightarrow> bool" where
  "enc_inv px out s \<longleftrightarrow> (\<exists>is hi i0 z.
     holds (pe_words s) out (plio_header @ codes is) \<and> list_all wf_instr is \<and> length (codes is) \<le> 3 * i0
     \<and> pe_iz s = int i0 + 1 \<and> pe_x1 s = int i0 + int z + 1 \<and> pe_hi s = int hi \<and> hi < 2 ^ 24 \<and> i0 \<le> length px
     \<and> run_script is (1, []) = (int hi, take i0 px)
     \<and> (pe_ip s \<le> length px \<longrightarrow> (\<exists>pv n. pe_pv s = int pv \<and> pv < 2 ^ 24 \<and> 0 < n \<and> pe_ip s = i0 + z + n
          \<and> drop i0 px = replicate z 0 @ replicate n (int pv) @ drop (pe_ip s) px
          \<and> (pv = 0 \<longrightarrow> z = 0) \<and> \<not> lone_after_full_run 0 (drop i0 px)))
     \<and> (length px < pe_ip s \<longrightarrow> i0 = length px))"

lemma enc_inv_running:
  assumes "holds (pe_words s) out (plio_header @ codes sc)" "list_all wf_instr sc" "length (codes sc) \<le> 3 * fl"
    "run_script sc (1, []) = (int hi, take fl px)" "hi < 2 ^ 24" "pe_hi s = int hi"
    "pe_iz s = int fl + 1" "pe_x1 s = int fl + int z + 1"
    "pe_pv s = int pv" "pv < 2 ^ 24" "0 < n" "pe_ip s = fl + z + n" "pe_ip s \<le> length px"
    "drop fl px = replicate z 0 @ replicate n (int pv) @ drop (pe_ip s) px"
    "pv = 0 \<longrightarrow> z = 0" "\<not> lone_after_full_run 0 (drop fl px)"
  shows "enc_inv px out s"
proof -
  have "fl \<le> length px" "\<not> length px < pe_ip s" using assms(12,13) by auto
  then show ?thesis using assms unfolding enc_inv_def by blast
qed

lemma enc_inv_finished:
  assumes "holds (pe_words s) out (plio_header @ codes sc)" "list_all wf_instr sc"
    "length (codes sc) \<le> 3 * length px"
    "run_script sc (1, []) = (int hi, px)" "hi < 2 ^ 24" "pe_hi s = int hi"
    "pe_iz s = int (length px) + 1" "pe_x1 s = int (length px) + 1" "length px < pe_ip s"
  shows "enc_inv px out s"
  unfolding enc_inv_def
  using assms by (intro exI [of _ sc] exI [of _ hi] exI [of _ "length px"] exI [of _ 0]) simp

lemma takeWhile_run: "vs = replicate (length (takeWhile (\<lambda>x. x = v) vs)) v @ dropWhile (\<lambda>x. x = v) vs"
proof -
  have "takeWhile (\<lambda>x. x = v) vs = replicate (length (takeWhile (\<lambda>x. x = v) vs)) v"
    by (rule replicate_eqI) (auto dest: set_takeWhileD)
  then show ?thesis by (metis takeWhile_dropWhile_id)
qed

text \<open>The run of pixels the round stands on ends at \<open>ip\<close>, and the next pixel differs.\<close>

lemma run_extends:
  assumes px: "px = map (\<lambda>v. v + offset) vs" and ip: "ip \<le> length vs"
    and rd: "r = run_len (drop ip vs) (pv - offset)"
  shows "drop ip px = replicate r pv @ drop (ip + r) px" and "ip + r \<le> length px"
    and "ip + r < length px \<Longrightarrow> px ! (ip + r) \<noteq> pv"
proof -
  have r: "r = length (takeWhile (\<lambda>x. x = pv) (drop ip px))"
  proof -
    have "(\<lambda>x. x = pv) \<circ> (\<lambda>v. v + offset) = (\<lambda>x. x = pv - offset)" by auto
    then show ?thesis by (simp add: rd run_len_takeWhile px drop_map takeWhile_map)
  qed
  have d: "dropWhile (\<lambda>x. x = pv) (drop ip px) = drop (ip + r) px"
    by (simp add: r dropWhile_eq_drop add.commute)
  show "drop ip px = replicate r pv @ drop (ip + r) px"
    using takeWhile_run [of "drop ip px" pv] by (simp add: r [symmetric] d)
  have "r \<le> length (drop ip px)" unfolding r by (rule length_takeWhile_le)
  then show "ip + r \<le> length px" using ip px by simp
  show "px ! (ip + r) \<noteq> pv" if "ip + r < length px"
  proof -
    have "r < length (drop ip px)" using that by simp
    then have "drop ip px ! r \<noteq> pv"
      using nth_length_takeWhile [of "\<lambda>x. x = pv" "drop ip px"] by (simp add: r [symmetric])
    then show ?thesis using that by simp
  qed
qed

text \<open>A round's branches, once the run it stands on is passed.\<close>

lemma plio_step_cases:
  fixes vs offset
  defines "px \<equiv> map (\<lambda>v. v + offset) vs"
  assumes ip: "pe_ip s \<le> length vs" and e: "e = pe_ip s + run_len (drop (pe_ip s) vs) (pe_pv s - offset)"
  shows "e < length vs \<Longrightarrow> pe_pv s = 0 \<Longrightarrow> plio_step vs offset s
      = s\<lparr>pe_pv := px ! e, pe_x1 := int e + 1, pe_nv := px ! e, pe_ip := e + 1\<rparr>"
    and "e < length vs \<Longrightarrow> pe_pv s \<noteq> 0 \<Longrightarrow>
      emit_segment (pe_words s) (pe_hi s) (pe_pv s) np nz = (w, hi) \<Longrightarrow>
      np = int e - pe_x1 s + 1 \<Longrightarrow> nz = pe_x1 s - pe_iz s \<Longrightarrow>
      plio_step vs offset s = \<lparr>pe_words = w, pe_pv = px ! e, pe_x1 = int e + 1, pe_iz = int e + 1,
        pe_hi = hi, pe_nv = px ! e, pe_ip = e + 1\<rparr>"
    and "e = length vs \<Longrightarrow> emit_segment (pe_words s) (pe_hi s) (pe_pv s) np nz = (w, hi) \<Longrightarrow>
      xa = (if pe_pv s = 0 then int e + 1 else pe_x1 s) \<Longrightarrow> np = int e - xa + 1 \<Longrightarrow> nz = xa - pe_iz s \<Longrightarrow>
      plio_step vs offset s = \<lparr>pe_words = w, pe_pv = pe_nv s, pe_x1 = int e + 1, pe_iz = int e + 1,
        pe_hi = hi, pe_nv = pe_nv s, pe_ip = e + 1\<rparr>"
proof -
  have ne: "px ! e \<noteq> pe_pv s" if "e < length vs"
    using run_extends(3) [OF meta_eq_to_obj_eq [OF px_def] ip refl, of "pe_pv s", folded e] that by (simp add: px_def)
  have pix: "vs ! e + offset = px ! e" if "e < length vs" using that by (simp add: px_def)
  note d = plio_step_def Let_def e [symmetric]
  show "plio_step vs offset s
      = s\<lparr>pe_pv := px ! e, pe_x1 := int e + 1, pe_nv := px ! e, pe_ip := e + 1\<rparr>"
    if "e < length vs" "pe_pv s = 0"
    unfolding d using ne that pix by simp
  show "plio_step vs offset s = \<lparr>pe_words = w, pe_pv = px ! e, pe_x1 = int e + 1, pe_iz = int e + 1,
        pe_hi = hi, pe_nv = px ! e, pe_ip = e + 1\<rparr>"
    if "e < length vs" "pe_pv s \<noteq> 0" "emit_segment (pe_words s) (pe_hi s) (pe_pv s) np nz = (w, hi)"
      "np = int e - pe_x1 s + 1" "nz = pe_x1 s - pe_iz s"
    unfolding d using ne that pix by simp
  show "plio_step vs offset s = \<lparr>pe_words = w, pe_pv = pe_nv s, pe_x1 = int e + 1, pe_iz = int e + 1,
        pe_hi = hi, pe_nv = pe_nv s, pe_ip = e + 1\<rparr>"
    if "e = length vs" "emit_segment (pe_words s) (pe_hi s) (pe_pv s) np nz = (w, hi)"
      "xa = (if pe_pv s = 0 then int e + 1 else pe_x1 s)" "np = int e - xa + 1" "nz = xa - pe_iz s"
    unfolding d using that by (simp split: if_splits)
qed

lemma enc_inv_step:
  assumes inv: "enc_inv px out s" and ip: "pe_ip s \<le> length px"
    and px: "px = map (\<lambda>v. v + offset) vs" and range: "list_all (\<lambda>v. 0 \<le> v \<and> v < 2 ^ 24) px"
  shows "enc_inv px out (plio_step vs offset s)"
proof -
  obtain "is" hi i0 z pv n where i: "holds (pe_words s) out (plio_header @ codes is)" "list_all wf_instr is"
    "length (codes is) \<le> 3 * i0" "pe_iz s = int i0 + 1" "pe_x1 s = int i0 + int z + 1" "pe_hi s = int hi"
    "hi < 2 ^ 24" "i0 \<le> length px" "run_script is (1, []) = (int hi, take i0 px)"
    and r: "pe_pv s = int pv" "pv < 2 ^ 24" "0 < n" "pe_ip s = i0 + z + n"
      "drop i0 px = replicate z 0 @ replicate n (int pv) @ drop (pe_ip s) px" "pv = 0 \<longrightarrow> z = 0"
      "\<not> lone_after_full_run 0 (drop i0 px)"
    using inv ip unfolding enc_inv_def by blast
  define e where "e = pe_ip s + run_len (drop (pe_ip s) vs) (pe_pv s - offset)"
  have ip': "pe_ip s \<le> length vs" and len: "length px = length vs" using ip px by auto
  note ex = run_extends [OF px ip' refl, of "pe_pv s", folded e_def]
  define m where "m = e - i0 - z"
  have m: "0 < m" "e = i0 + z + m" using r(3,4) by (auto simp: m_def e_def)
  have dr: "drop i0 px = replicate z 0 @ replicate m (int pv) @ drop e px"
  proof -
    have "m = n + run_len (drop (pe_ip s) vs) (pe_pv s - offset)" using m(2) r(4) by (simp add: e_def)
    then show ?thesis using r(1,5) ex(1) by (simp add: replicate_add e_def)
  qed
  have tk: "take e px = take i0 px @ replicate z 0 @ replicate m (int pv)"
  proof -
    have "take e px = take i0 px @ take (z + m) (drop i0 px)" using m(2) by (simp add: take_add add.assoc)
    then show ?thesis by (simp add: dr)
  qed
  have hd: "drop e px = [] \<or> hd (drop e px) \<noteq> int pv"
    using ex(3) r(1) by (cases "e < length px") (auto simp: hd_drop_conv_nth)
  have next_px: "drop e px = px ! e # drop (Suc e) px" "0 \<le> px ! e" "px ! e < 2 ^ 24" if "e < length px"
    using that range by (auto simp: Cons_nth_drop_Suc list_all_length)
  show ?thesis
  proof (cases "e < length px")
    case True
    obtain v where v: "px ! e = int v" "v < 2 ^ 24"
      using next_px [OF True] by (metis nonneg_int_cases of_nat_less_iff of_nat_numeral of_nat_power)
    show ?thesis
    proof (cases "pv = 0")
      case True
      have z: "z = 0" using True r(6) by simp
      have st: "plio_step vs offset s = s\<lparr>pe_pv := px ! e, pe_x1 := int e + 1, pe_nv := px ! e, pe_ip := e + 1\<rparr>"
        using plio_step_cases(1) [OF ip' e_def] True \<open>e < length px\<close> r(1) len px by simp
      have ne: "v \<noteq> 0" using hd next_px(1) [OF \<open>e < length px\<close>] v(1) True by simp
      show ?thesis
      proof (rule enc_inv_running [where z = m and n = 1 and pv = v and fl = i0 and hi = hi and sc = "is"])
        show "drop i0 px = replicate m 0 @ replicate 1 (int v) @ drop (pe_ip (plio_step vs offset s)) px"
          using dr next_px(1) [OF \<open>e < length px\<close>] v(1) True z by (simp add: st)
      qed (use i r(7) v ne m z \<open>e < length px\<close> in \<open>simp_all add: st\<close>)
    next
      case False
      obtain w hi' where es: "emit_segment (pe_words s) (int hi) (int pv) (int m) (int z) = (w, hi')"
        by (metis prod.collapse)
      have st: "plio_step vs offset s = \<lparr>pe_words = w, pe_pv = px ! e, pe_x1 = int e + 1, pe_iz = int e + 1,
        pe_hi = hi', pe_nv = px ! e, pe_ip = e + 1\<rparr>"
      proof -
        have seg: "emit_segment (pe_words s) (pe_hi s) (pe_pv s) (int m) (int z) = (w, hi')"
          using es by (simp only: i(6) r(1))
        have nums: "int m = int e - pe_x1 s + 1" "int z = pe_x1 s - pe_iz s"
          using i(4,5) m(2) by simp_all
        have "e < length vs" "pe_pv s \<noteq> 0" using \<open>e < length px\<close> len False r(1) by simp_all
        from plio_step_cases(2) [OF ip' e_def this seg nums] show ?thesis by (simp only: px)
      qed
      have lone: "\<not> lone_after_full_run 0 (replicate z 0 @ replicate m (int pv) @ drop e px)"
        using r(7) dr by simp
      note lr = lone_run [OF lone _ m(1)]
      from emit_segment_script [OF i(1,7) _ r(2) m(1) _ es] False lr(2) hd
      obtain is2 where s2: "hi' = int pv" "holds w out ((plio_header @ codes is) @ codes is2)"
        "list_all wf_instr is2" "length (codes is2) \<le> 3 * (z + m)"
        "\<forall>px. run_script is2 (int hi, px) = (int pv, px @ replicate z 0 @ replicate m (int pv))" by auto
      show ?thesis
      proof (rule enc_inv_running [where z = 0 and n = 1 and pv = v and fl = e and hi = pv and sc = "is @ is2"])
        show "drop e px = replicate 0 0 @ replicate 1 (int v) @ drop (pe_ip (plio_step vs offset s)) px"
          using next_px(1) [OF \<open>e < length px\<close>] v(1) by (simp add: st)
        show "run_script (is @ is2) (1, []) = (int pv, take e px)" using i(9) s2(5) tk by simp
        show "length (codes (is @ is2)) \<le> 3 * e" using i(3) s2(4) m(2) by simp
        show "\<not> lone_after_full_run 0 (drop e px)" using lr(1) False by simp
      qed (use i(2) s2 v r(2) \<open>e < length px\<close> in \<open>simp_all add: st\<close>)
    qed
  next
    case False
    then have eN: "e = length px" using ex(2) by (simp add: e_def)
    show ?thesis
    proof (cases "pv = 0")
      case True
      have z: "z = 0" using True r(6) by simp
      obtain w hi' where es: "emit_segment (pe_words s) (int hi) 0 0 (int m) = (w, hi')"
        by (metis prod.collapse)
      have st: "plio_step vs offset s = \<lparr>pe_words = w, pe_pv = pe_nv s, pe_x1 = int e + 1, pe_iz = int e + 1,
        pe_hi = hi', pe_nv = pe_nv s, pe_ip = e + 1\<rparr>"
      proof -
        have seg: "emit_segment (pe_words s) (pe_hi s) (pe_pv s) 0 (int m) = (w, hi')"
          using es by (simp add: i(6) r(1) True)
        have nums: "int e + 1 = (if pe_pv s = 0 then int e + 1 else pe_x1 s)" "0 = int e - (int e + 1) + 1"
          "int m = int e + 1 - pe_iz s"
          using i(4) m(2) z True r(1) by simp_all
        have "e = length vs" using eN len by simp
        from plio_step_cases(3) [OF ip' e_def this seg nums] show ?thesis .
      qed
      have hi': "hi' = int hi"
        using es by (auto simp: emit_segment_def emit_adjust_def emit_zeros_def split: if_splits)
      obtain is2 where s2: "holds w out ((plio_header @ codes is) @ codes is2)"
        "list_all wf_instr is2" "length (codes is2) \<le> m"
        "\<forall>px. run_script is2 (int hi, px) = (int hi, px @ replicate m 0)"
        using emit_tail_script [OF i(1) es] by auto
      show ?thesis
      proof (intro enc_inv_finished [where hi = hi and sc = "is @ is2"])
        show "run_script (is @ is2) (1, []) = (int hi, px)" using i(9) s2(4) tk True z eN by simp
        show "length (codes (is @ is2)) \<le> 3 * length px" using i(3) s2(3) m(2) eN by simp
      qed (use i(2,7) s2(1,2) eN hi' in \<open>simp_all add: st\<close>)
    next
      case nz: False
      obtain w hi' where es: "emit_segment (pe_words s) (int hi) (int pv) (int m) (int z) = (w, hi')"
        by (metis prod.collapse)
      have st: "plio_step vs offset s = \<lparr>pe_words = w, pe_pv = pe_nv s, pe_x1 = int e + 1, pe_iz = int e + 1,
        pe_hi = hi', pe_nv = pe_nv s, pe_ip = e + 1\<rparr>"
      proof -
        have seg: "emit_segment (pe_words s) (pe_hi s) (pe_pv s) (int m) (int z) = (w, hi')"
          using es by (simp only: i(6) r(1))
        have nums: "pe_x1 s = (if pe_pv s = 0 then int e + 1 else pe_x1 s)" "int m = int e - pe_x1 s + 1"
          "int z = pe_x1 s - pe_iz s"
          using i(4,5) m(2) nz r(1) by simp_all
        have "e = length vs" using eN len by simp
        from plio_step_cases(3) [OF ip' e_def this seg nums] show ?thesis .
      qed
      have lone: "\<not> lone_after_full_run 0 (replicate z 0 @ replicate m (int pv) @ drop e px)"
        using r(7) dr by simp
      from emit_segment_script [OF i(1,7) _ r(2) m(1) _ es] nz lone_run(2) [OF lone _ m(1)] hd
      obtain is2 where s2: "hi' = int pv" "holds w out ((plio_header @ codes is) @ codes is2)"
        "list_all wf_instr is2" "length (codes is2) \<le> 3 * (z + m)"
        "\<forall>px. run_script is2 (int hi, px) = (int pv, px @ replicate z 0 @ replicate m (int pv))" by auto
      show ?thesis
      proof (intro enc_inv_finished [where hi = pv and sc = "is @ is2"])
        show "run_script (is @ is2) (1, []) = (int pv, px)" using i(9) s2(5) tk eN by simp
        show "length (codes (is @ is2)) \<le> 3 * length px" using i(3) s2(4) m(2) eN by simp
      qed (use i(2) s2 r(2) eN in \<open>simp_all add: st\<close>)
    qed
  qed
qed

text \<open>The loop runs to the end of the tile.\<close>

lemma enc_inv_loop:
  "enc_inv px out s \<Longrightarrow> px = map (\<lambda>v. v + offset) vs \<Longrightarrow> list_all (\<lambda>v. 0 \<le> v \<and> v < 2 ^ 24) px \<Longrightarrow>
    enc_inv px out (plio_loop vs offset s) \<and> length px < pe_ip (plio_loop vs offset s)"
proof (induction vs offset s rule: plio_loop.induct)
  case (1 vs offset s)
  show ?case
  proof (cases "pe_ip s \<le> length vs")
    case True
    then have "enc_inv px out (plio_step vs offset s)"
      using "1.prems" by (intro enc_inv_step [where offset = offset]) auto
    from "1.IH" [OF True this "1.prems"(2,3)] show ?thesis
      using True by (subst (1 2) plio_loop.simps) simp
  next
    case False
    then show ?thesis using "1.prems" by (subst (1 2) plio_loop.simps) simp
  qed
qed

lemma length_words_value:
  assumes "n < 2 ^ 30"
  shows "\<exists>lo hi. length_words n = Inr (lo, hi) \<and> 0 \<le> sint lo \<and> 0 \<le> sint hi
    \<and> nat (sint hi) * 32768 + nat (sint lo) = n"
proof -
  have s: "sint (of_nat k :: u16) = int k" if "k < 32768" for k
    using uint_code [of "int k"] that by (simp add: sint_uint signed_take_bit_int_eq_self_iff)
  have "n mod 32768 < 32768" "n div 32768 < 32768" using assms by auto
  then show ?thesis using s [of "n mod 32768"] s [of "n div 32768"]
    by (simp add: length_words_def)
qed

lemma plio_encode_script:
  fixes vs offset
  defines "px \<equiv> map (\<lambda>v. v + offset) vs"
  assumes "list_all (\<lambda>v. 0 \<le> v + offset \<and> v + offset < 2 ^ 24) vs" and "3 * length vs + 7 < 2 ^ 30"
    and "\<not> lone_after_full_run 0 px" and ne: "vs \<noteq> []"
  shows "\<exists>sc lo hi pv. plio_encode offset vs out = Inr (out @ word_bytes ([0, 7, -100, lo, hi, 0, 0] @ codes sc))
    \<and> list_all wf_instr sc \<and> run_script sc (1, []) = (pv, px) \<and> 0 \<le> sint lo \<and> 0 \<le> sint hi
    \<and> nat (sint hi) * 32768 + nat (sint lo) = 7 + length (codes sc)"
proof -
  let ?ll = "foldl words_push (words_new out) plio_header"
  let ?s = "\<lparr>pe_words = ?ll, pe_pv = vs ! 0 + offset, pe_x1 = 1, pe_iz = 1, pe_hi = 1, pe_nv = 0, pe_ip = 1\<rparr>"
  have ll: "holds ?ll out plio_header"
    by (simp add: plio_header_def holds_def words_push_def words_new_def)
  have range: "list_all (\<lambda>v. 0 \<le> v \<and> v < 2 ^ 24) px"
    using assms(2) by (simp add: px_def list_all_iff)
  obtain v0 vs' where vs: "vs = v0 # vs'" using ne by (cases vs) auto
  then obtain v where v: "v0 + offset = int v" "v < 2 ^ 24"
    using range by (auto simp: px_def) (metis nonneg_int_cases of_nat_less_iff of_nat_numeral)
  have "enc_inv px out ?s"
  proof (rule enc_inv_running [where z = 0 and n = 1 and pv = v and fl = 0 and hi = 1 and sc = "[]"])
    show "drop 0 px = replicate 0 0 @ replicate 1 (int v) @ drop (pe_ip ?s) px"
      using v(1) by (simp add: px_def vs)
  qed (use ll v assms(4) in \<open>simp_all add: px_def vs\<close>)
  from enc_inv_loop [OF this meta_eq_to_obj_eq [OF px_def] range]
  have inv: "enc_inv px out (plio_loop vs offset ?s)" "length px < pe_ip (plio_loop vs offset ?s)" by simp_all
  let ?w = "pe_words (plio_loop vs offset ?s)"
  obtain sc hi where f: "holds ?w out (plio_header @ codes sc)" "list_all wf_instr sc"
    "length (codes sc) \<le> 3 * length px" "run_script sc (1, []) = (int hi, px)"
    using inv unfolding enc_inv_def by auto
  have len: "words_len ?w = 7 + length (codes sc)"
    using holds_len [OF f(1)] by (simp add: plio_header_def)
  have "7 + length (codes sc) < 2 ^ 30" using f(3) assms(3) by (simp add: px_def)
  from length_words_value [OF this] obtain lo high where l: "length_words (7 + length (codes sc)) = Inr (lo, high)"
    "0 \<le> sint lo" "0 \<le> sint high" "nat (sint high) * 32768 + nat (sint lo) = 7 + length (codes sc)" by blast
  have "holds (words_set (words_set ?w 3 lo) 4 high) out ((plio_header @ codes sc)[3 := lo, 4 := high])"
    using f(1) by (intro holds_set) (auto simp: plio_header_def)
  then have h: "wd_out (words_set (words_set ?w 3 lo) 4 high) = out @ word_bytes ([0, 7, -100, lo, high, 0, 0] @ codes sc)"
    by (simp add: holds_def plio_header_def)
  have "plio_encode offset vs out = Inr (out @ word_bytes ([0, 7, -100, lo, high, 0, 0] @ codes sc))"
    using ne l(1) h len by (simp add: plio_encode_def Let_def)
  then show ?thesis using f l by blast
qed

lemma decode_header:
  assumes "0 \<le> sint lo" and "0 \<le> sint hi" and "nat (sint hi) * 32768 + nat (sint lo) = 7 + n" and "length ws = n"
  shows "list_bounds (word_bytes ([0, 7, -100, lo, hi, 0, 0] @ ws)) = Inr (7 + n, 8)"
proof -
  let ?wl = "[0, 7, -100, lo, hi, 0, 0] @ ws"
  have "be_word (word_bytes ?wl) 1 = Inr 7" "be_word (word_bytes ?wl) 2 = Inr (-100)"
    "be_word (word_bytes ?wl) 3 = Inr lo" "be_word (word_bytes ?wl) 4 = Inr hi"
    by (subst be_word_bytes; simp)+
  then show ?thesis using assms by (simp add: list_bounds_def nonnegative_word_def del: word_bytes_simps)
qed



section \<open>A lone pixel after a full run\<close>

text \<open>After 4095 zeros, folding a lone pixel into the zero word carries into the opcode.\<close>

lemma emit_segment_full_run:
  assumes "holds w out ws"
  shows "\<exists>w'. emit_segment w 1 1 1 4095 = (w', 1) \<and> holds w' out (ws @ [24576])"
proof -
  let ?f = "\<lambda>last :: u16. word_of_int (sint last + 20481) :: u16"
  have "push_runs w 0 4095 = words_push w 4095"
    by (simp add: push_runs.simps [of w 0 4095] push_runs.simps [of _ 0 0])
  moreover have "holds (update_last (words_push w 4095) ?f) out (ws @ [?f 4095])"
    by (rule holds_update_last) (rule holds_push [OF assms])
  ultimately show ?thesis
    by (simp add: emit_segment_def emit_adjust_def emit_zeros_def)
qed

lemma takeWhile_zeros: "takeWhile (\<lambda>x. x = 0) (replicate n 0 @ [1 :: int]) = replicate n 0"
  by (induction n) auto

lemma encode_full_run:
  fixes vs :: "int list"
  defines "vs \<equiv> replicate 4095 0 @ [1]"
  shows "plio_encode 0 vs [] = Inr (word_bytes [0, 7, -100, 8, 0, 0, 0, 24576])"
proof -
  let ?ll = "foldl words_push (words_new []) plio_header"
  let ?s = "\<lparr>pe_words = ?ll, pe_pv = 0, pe_x1 = 1, pe_iz = 1, pe_hi = 1, pe_nv = 0, pe_ip = 1\<rparr>"
  let ?s1 = "\<lparr>pe_words = ?ll, pe_pv = 1, pe_x1 = 4096, pe_iz = 1, pe_hi = 1, pe_nv = 1, pe_ip = 4096\<rparr>"
  have ll: "holds ?ll [] plio_header"
    by (simp add: plio_header_def holds_def words_push_def words_new_def)
  have len: "length vs = 4096" and v0: "vs ! 0 = 0" and v1: "vs ! 4095 = 1"
    by (simp_all add: vs_def nth_append)
  have m: "map (\<lambda>v. v + 0) vs = vs" by simp
  have "drop 1 vs = replicate 4094 0 @ [1]" by (simp add: vs_def)
  then have "run_len (drop 1 vs) 0 = 4094"
    using takeWhile_zeros [of 4094] by (simp add: run_len_takeWhile)
  then have e: "4095 = pe_ip ?s + run_len (drop (pe_ip ?s) vs) (pe_pv ?s - 0)" by simp
  have "plio_step vs 0 ?s = ?s\<lparr>pe_pv := map (\<lambda>v. v + 0) vs ! 4095, pe_x1 := int 4095 + 1,
      pe_nv := map (\<lambda>v. v + 0) vs ! 4095, pe_ip := 4095 + 1\<rparr>"
    by (rule plio_step_cases(1) [OF _ e]) (simp_all add: len)
  then have s1: "plio_step vs 0 ?s = ?s1" by (simp add: m v1)
  have rl: "run_len (drop 4096 vs) x = 0" for x by (simp add: run_len_takeWhile len)
  obtain w' where w': "emit_segment ?ll 1 1 1 4095 = (w', 1)" "holds w' [] (plio_header @ [24576])"
    using emit_segment_full_run [OF ll] by blast
  let ?s2 = "\<lparr>pe_words = w', pe_pv = 1, pe_x1 = 4097, pe_iz = 4097, pe_hi = 1, pe_nv = 1, pe_ip = 4097\<rparr>"
  have e2: "4096 = pe_ip ?s1 + run_len (drop (pe_ip ?s1) vs) (pe_pv ?s1 - 0)" by (simp add: rl)
  have seg: "emit_segment (pe_words ?s1) (pe_hi ?s1) (pe_pv ?s1) 1 4095 = (w', 1)" using w'(1) by simp
  have "plio_step vs 0 ?s1 = \<lparr>pe_words = w', pe_pv = pe_nv ?s1, pe_x1 = int 4096 + 1, pe_iz = int 4096 + 1,
      pe_hi = 1, pe_nv = pe_nv ?s1, pe_ip = 4096 + 1\<rparr>"
    by (rule plio_step_cases(3) [OF _ e2 _ seg, where xa = "pe_x1 ?s1"]) (simp_all add: len)
  then have s2: "plio_step vs 0 ?s1 = ?s2" by simp
  have "plio_loop vs 0 ?s = ?s2"
  proof -
    have "plio_loop vs 0 ?s = plio_loop vs 0 ?s1" using s1 len by (subst plio_loop.simps) simp
    also have "\<dots> = plio_loop vs 0 ?s2" using s2 len by (subst plio_loop.simps) simp
    also have "\<dots> = ?s2" using len by (subst plio_loop.simps) simp
    finally show ?thesis .
  qed
  moreover have "words_len w' = 8" using holds_len [OF w'(2)] by (simp add: plio_header_def)
  moreover have "length_words 8 = Inr (8, 0)" by (simp add: length_words_def)
  moreover have "holds (words_set (words_set w' 3 8) 4 0) [] ((plio_header @ [24576])[3 := 8, 4 := 0])"
    using w'(2) by (intro holds_set) (auto simp: plio_header_def)
  ultimately show ?thesis
    using v0 by (auto simp: plio_encode_def Let_def vs_def holds_def plio_header_def)
qed

text \<open>C20: A tile of 4095 zeros and a last pixel of 1 is encoded, and the list decodes to a tile whose
  first pixel is 1 and whose others are 0: the list the encoder writes for a lone high pixel after a
  full zero word does not give the zeros back.\<close>

theorem plio_lone_pixel_moves:
  "bind (plio_encode 0 (replicate 4095 0 @ [1]) []) (\<lambda>bs. plio_decode 0 bs 4096) = Inr (1 # replicate 4095 0)"
proof -
  let ?wl = "[0, 7, -100, 8, 0, 0, 0, 24576] :: u16 list"
  have lb: "list_bounds (word_bytes ?wl) = Inr (8, 8)"
    using decode_header [of 8 0 1 "[24576]"] by simp
  have w: "be_word (word_bytes ?wl) 7 = Inr 24576"
    by (subst be_word_bytes) simp_all
  let ?s = "\<lparr>pd_skip = False, pd_op = 1, pd_x1 = 1, pd_pv = 1, pd_px = replicate 4096 0\<rparr>"
  have "(replicate 4096 0)[0 := 1] = 1 # replicate 4095 (0 :: int)"
    using replicate_update [of 0 4096 0 1] by simp
  then have x: "plio_exec 4096 24576 nxt ?s = Inr (?s\<lparr>pd_px := 1 # replicate 4095 0, pd_op := 2, pd_x1 := 2\<rparr>)" for nxt
    by (simp add: plio_exec_def Let_def)
  have "plio_run (word_bytes ?wl) 8 4096 8 ?s = Inr (1 # replicate 4095 0)"
    by (simp add: plio_run.simps [of _ 8 _ 8] plio_run.simps [of _ 8 _ 9] w x del: word_bytes_simps)
  then show ?thesis
    using lb by (simp only: encode_full_run bind_simps plio_decode_def decode_words_def) simp
qed

section \<open>Any list\<close>

lemma length_fill_range [simp]: "length (fill_range px a b v) = length px"
proof -
  have "length (foldl (\<lambda>px i. px[nat (i - 1) := v]) px is) = length px" for "is"
    by (induction "is" arbitrary: px) auto
  then show ?thesis by (simp add: fill_range_def)
qed

lemma be_word_result: "be_word bs i = Inl UnexpectedEof \<or> (\<exists>w. be_word bs i = Inr w)"
  by (simp add: be_word_def)

lemma plio_exec_result:
  "nxt = Inl UnexpectedEof \<or> (\<exists>n. nxt = Inr n) \<Longrightarrow>
    plio_exec xe w nxt s = Inl UnexpectedEof \<or> plio_exec xe w nxt s = Inl (from_plio_defect Opcode)
    \<or> (\<exists>s'. plio_exec xe w nxt s = Inr s' \<and> length (pd_px s') = length (pd_px s))"
  by (auto simp: plio_exec_def Let_def)

definition plio_outcome :: "nat \<Rightarrow> int list fits_result \<Rightarrow> bool" where
  "plio_outcome n res \<longleftrightarrow> res \<in> {Inl UnexpectedEof, Inl (from_plio_defect ListBounds),
      Inl (from_plio_defect NegativeHeader), Inl (from_plio_defect Opcode)} \<union> Inr ` {px. length px = n}"

lemma plio_run_result: "length (pd_px s) = n \<Longrightarrow> plio_outcome n (plio_run bs lllen xe ip s)"
proof (induction bs lllen xe ip s rule: plio_run.induct)
  case (1 bs lllen xe ip s)
  show ?case
  proof (cases "ip \<le> lllen")
    case False
    then show ?thesis using "1.prems" by (subst plio_run.simps) (simp add: plio_outcome_def)
  next
    case le: True
    show ?thesis
    proof (cases "pd_skip s")
      case True
      then show ?thesis using le "1.IH"(1) "1.prems" by (subst plio_run.simps) simp
    next
      case False
      let ?nxt = "if lllen \<le> ip then Inl UnexpectedEof else be_word bs ip"
      have nxt: "?nxt = Inl UnexpectedEof \<or> (\<exists>n. ?nxt = Inr n)" using be_word_result [of bs ip] by auto
      from be_word_result [of bs "ip - 1"] show ?thesis
      proof (elim disjE exE)
        assume "be_word bs (ip - 1) = Inl UnexpectedEof"
        then show ?thesis using le False by (subst plio_run.simps) (simp add: plio_outcome_def)
      next
        fix w assume w: "be_word bs (ip - 1) = Inr w"
        from plio_exec_result [OF nxt, of xe w s] show ?thesis
        proof (elim disjE exE conjE)
          fix s' assume x: "plio_exec xe w ?nxt s = Inr s'" "length (pd_px s') = length (pd_px s)"
          show ?thesis
          proof (cases "xe < pd_x1 s'")
            case True
            then show ?thesis using le False w x "1.prems"
              by (subst plio_run.simps) (simp add: plio_outcome_def)
          next
            case ne: False
            then show ?thesis using le False w x "1.prems" "1.IH"(2) [OF le False w x(1)]
              by (subst plio_run.simps) simp
          qed
        qed (use le False w in \<open>subst plio_run.simps, simp add: plio_outcome_def\<close>)+
      qed
    qed
  qed
qed

lemma nonnegative_word_result:
  "nonnegative_word bs i \<in> {Inl UnexpectedEof, Inl (from_plio_defect NegativeHeader)} \<union> range Inr"
  using be_word_result [of bs i] by (auto simp: nonnegative_word_def split: if_split_asm)

lemma list_bounds_result:
  "list_bounds bs \<in> {Inl UnexpectedEof, Inl (from_plio_defect NegativeHeader)} \<union> range Inr"
  using be_word_result [of bs 2] nonnegative_word_result [of bs 3] nonnegative_word_result [of bs 4]
    nonnegative_word_result [of bs 1]
  by (auto simp: list_bounds_def split: if_split_asm)


section \<open>The check of an image\<close>

lemma position_Some:
  "position p xs = Some i \<longleftrightarrow> i < length xs \<and> p (xs ! i) \<and> (\<forall>j < i. \<not> p (xs ! j))"
proof (induction xs arbitrary: i)
  case (Cons x xs)
  then show ?case by (cases i) (auto simp: less_Suc_eq_0_disj)
qed simp

lemma position_None: "position p xs = None \<longleftrightarrow> \<not> list_ex p xs"
  by (induction xs) auto

lemma foldl_found: "foldl (\<lambda>found v. found \<or> p v) b vs = (b \<or> list_ex p vs)"
  by (induction vs arbitrary: b) auto

text \<open>The reference: a search for the first sample the stream cannot hold.\<close>

definition first_outside :: "int \<Rightarrow> int list \<Rightarrow> unit fits_result" where
  "first_outside offset vs =
     (case position (\<lambda>v. \<not> (0 \<le> v + offset \<and> v + offset < 2 ^ 24)) vs of
        None \<Rightarrow> Inr ()
      | Some i \<Rightarrow> Inl (PlioValueOutOfRange i (vs ! i)))"

lemma streamed_range: "streamed offset v \<longleftrightarrow> 0 \<le> v + offset \<and> v + offset < 2 ^ 24"
  by (auto simp: streamed_def STREAM_MAX_def i64_min_def i64_max_def)

lemma check_values_reference:
  assumes "list_all (\<lambda>v. lo \<le> v \<and> v \<le> hi) vs"
  shows "check_values offset vs lo hi = first_outside offset vs"
proof -
  let ?p = "\<lambda>v. \<not> streamed offset v"
  have p: "first_outside offset vs
      = (case position ?p vs of None \<Rightarrow> Inr () | Some i \<Rightarrow> Inl (PlioValueOutOfRange i (vs ! i)))"
    by (simp add: first_outside_def streamed_range)
  have bounds: "\<not> list_ex ?p vs" if "streamed offset lo" "streamed offset hi"
    using assms that by (fastforce simp: list_all_iff list_ex_iff streamed_range)
  show ?thesis
  proof (cases "list_ex ?p vs")
    case True
    then obtain i where i: "position ?p vs = Some i" using position_None [of ?p vs] by auto
    have "check_values offset vs lo hi = Inl (PlioValueOutOfRange i (vs ! i))"
      using True i bounds by (auto simp: check_values_def foldl_found)
    then show ?thesis by (simp add: p i)
  next
    case False
    then have "position ?p vs = None" by (simp add: position_None)
    then show ?thesis using False by (simp add: p check_values_def foldl_found)
  qed
qed

text \<open>The check of an image, which skips the samples when the sample type already fits and folds
  without an early exit otherwise, agrees with a search for the first sample outside the stream's
  range, for samples of the type.\<close>

theorem plio_check_first_outside:
  assumes "list_all (in_width bp) vs"
  shows "plio_check offset bp vs = first_outside offset vs"
  using assms
  by (cases bp) (force intro!: check_values_reference
      simp: list_all_iff i32_min_def i32_max_def i64_min_def i64_max_def)+

lemma plio_check_first_outside_witness:
  "plio_check 5 II16 [3, -6, 12] = first_outside 5 [3, -6, 12]
    \<and> first_outside 5 [3, -6, 12] = Inl (PlioValueOutOfRange 1 (-6))"
  using plio_check_first_outside [of II16 "[3, -6, 12]" 5] by (simp add: first_outside_def)

end
