(* ===== verification/Tile_Geometry.thy ===== *)
theory Tile_Geometry
  imports Plane "HOL-Library.Multiset"
begin

text \<open>
  The tiling of an N-dimensional image: \<^verbatim>\<open>src/compression/tile_geometry.rs\<close> and the gather of
  \<^verbatim>\<open>src/compression/convert.rs\<close>. A \<^verbatim>\<open>usize\<close> is a \<open>nat\<close>: the products of axis lengths here are
  those of an image whose size the header's reader has checked. Copying to or from a slice out of
  range, where Rust panics, is \<open>None\<close>. That every tile's rows lie inside the image and that the
  tiles' pixels are the image's, each once, is proved in \<open>Tile_Cover\<close>.
\<close>

section \<open>The geometry\<close>

record tile_geometry =
  tg_dims :: "nat list"
  tg_tiles :: "nat list"
  tg_stride :: "nat list"
  tg_ntiles_axis :: "nat list"
  tg_max_tile :: "nat list"

definition div_ceil :: "nat \<Rightarrow> nat \<Rightarrow> nat" where
  "div_ceil a b = (a + b - 1) div b"

text \<open>The strides: 1, then the running product of the lengths before the axis.\<close>

fun strides_from :: "nat \<Rightarrow> nat list \<Rightarrow> nat list" where
  "strides_from s [] = []"
| "strides_from s (d # ds) = s # strides_from (s * d) ds"

definition tile_geometry_new :: "nat list \<Rightarrow> nat list \<Rightarrow> tile_geometry" where
  "tile_geometry_new dims tiles =
     \<lparr>tg_dims = dims, tg_tiles = tiles,
      tg_stride = (if 0 \<in> set dims then replicate (length dims) 0 else strides_from 1 dims),
      tg_ntiles_axis = map (\<lambda>(d, t). div_ceil d t) (zip dims tiles),
      tg_max_tile = map (\<lambda>(d, t). min d t) (zip dims tiles)\<rparr>"

definition ntiles :: "tile_geometry \<Rightarrow> nat" where
  "ntiles g = (if tg_ntiles_axis g = [] \<or> 0 \<in> set (tg_ntiles_axis g) then 0
               else prod_list (tg_ntiles_axis g))"

definition max_tile_elements :: "tile_geometry \<Rightarrow> nat" where
  "max_tile_elements g = prod_list (tg_max_tile g)"

record bands =
  bands_count :: nat
  bands_len :: nat
  bands_tiles :: nat

definition tg_bands :: "tile_geometry \<Rightarrow> bands" where
  "tg_bands g =
     (let n = length (tg_dims g)
      in if n = 0 then \<lparr>bands_count = 1, bands_len = 1, bands_tiles = 1\<rparr>
         else
           let last = n - 1
           in \<lparr>bands_count = tg_ntiles_axis g ! last,
               bands_len = min (tg_tiles g ! last) (tg_dims g ! last) * tg_stride g ! last,
               bands_tiles = prod_list (take last (tg_ntiles_axis g))\<rparr>)"

text \<open>\<^verbatim>\<open>Bands::tiles_of\<close>, a range as its first and its end.\<close>

definition tiles_of :: "bands \<Rightarrow> nat \<Rightarrow> nat \<times> nat" where
  "tiles_of b band = (band * bands_tiles b, (band + 1) * bands_tiles b)"

record 'd plane_part =
  part_values :: "'d list"
  part_start :: nat

definition part :: "bands \<Rightarrow> nat \<Rightarrow> 'd list \<Rightarrow> 'd plane_part" where
  "part b band vs = \<lparr>part_values = vs, part_start = band * bands_len b\<rparr>"

record tile_capacities =
  cap_axes :: nat
  cap_rows :: nat

definition tg_tile_capacities :: "tile_geometry \<Rightarrow> tile_capacities" where
  "tg_tile_capacities g =
     \<lparr>cap_axes = length (tg_dims g), cap_rows = prod_list (drop 1 (tg_max_tile g))\<rparr>"

section \<open>A tile's rows\<close>

record tile_scratch =
  ts_origin :: "nat list"
  ts_tdims :: "nat list"
  ts_row_bases :: "nat list"
  ts_row_len :: nat
  ts_coord :: "nat list"

definition nelem :: "tile_scratch \<Rightarrow> nat" where
  "nelem s = ts_row_len s * length (ts_row_bases s)"

text \<open>The origin and the clipped extent of tile \<open>rem\<close> along each axis.\<close>

fun tile_axes :: "nat list \<Rightarrow> nat list \<Rightarrow> nat list \<Rightarrow> nat \<Rightarrow> (nat \<times> nat) list" where
  "tile_axes (d # ds) (t # ts) (n # ns) rem =
     (let origin = rem mod n * t in (origin, min t (d - origin)) # tile_axes ds ts ns (rem div n))"
| "tile_axes _ _ _ rem = []"

text \<open>One turn of the odometer over the axes above the first: coordinates, extents and strides.\<close>

fun odometer_step :: "nat list \<Rightarrow> nat list \<Rightarrow> nat list \<Rightarrow> nat \<Rightarrow> nat list \<times> nat" where
  "odometer_step (c # cs) (d # ds) (s # ss) flat =
     (let c' = c + 1; flat' = flat + s
      in if c' < d then (c' # cs, flat')
         else let (cs', flat'') = odometer_step cs ds ss (flat' - d * s) in (0 # cs', flat''))"
| "odometer_step cs _ _ flat = (cs, flat)"

fun odometer :: "nat \<Rightarrow> nat list \<Rightarrow> nat list \<Rightarrow> nat list \<Rightarrow> nat \<Rightarrow> nat list \<times> nat list" where
  "odometer 0 ds ss cs flat = ([], cs)"
| "odometer (Suc rows) ds ss cs flat =
     (let (cs', flat') = odometer_step cs ds ss flat;
          (bases, cs'') = odometer rows ds ss cs' flat'
      in (flat # bases, cs''))"

definition tile_into :: "tile_geometry \<Rightarrow> nat \<Rightarrow> tile_scratch" where
  "tile_into g t =
     (let n = length (tg_dims g);
          axes = tile_axes (tg_dims g) (tg_tiles g) (tg_ntiles_axis g) t;
          origin = map fst axes;
          tdims = map snd axes;
          row_len = (if n = 0 then 1 else tdims ! 0);
          row_count = (if n \<le> 1 then 1 else prod_list (drop 1 tdims));
          flat = sum_list (map2 (*) origin (tg_stride g));
          coord = replicate n 0;
          (bases, higher) = odometer row_count (drop 1 tdims) (drop 1 (tg_stride g)) (drop 1 coord) flat
      in \<lparr>ts_origin = origin, ts_tdims = tdims, ts_row_bases = bases, ts_row_len = row_len,
          ts_coord = take 1 coord @ higher\<rparr>)"

section \<open>Gathering and scattering rows\<close>

definition slice :: "'a list \<Rightarrow> nat \<Rightarrow> nat \<Rightarrow> 'a list option" where
  "slice xs from to = (if from \<le> to \<and> to \<le> length xs then Some (take (to - from) (drop from xs)) else None)"

fun gather_rows :: "'s list \<Rightarrow> nat list \<Rightarrow> nat \<Rightarrow> ('s \<Rightarrow> 'd) \<Rightarrow> 'd list option" where
  "gather_rows vs [] row_len widen = Some []"
| "gather_rows vs (base # bases) row_len widen =
     (case slice vs base (base + row_len) of
        None \<Rightarrow> None
      | Some row \<Rightarrow> map_option (\<lambda>rest. map widen row @ rest) (gather_rows vs bases row_len widen))"

text \<open>A row of \<open>n\<close> values from \<open>offset\<close>, written at \<open>base\<close>.\<close>

definition copy_row :: "'d list \<Rightarrow> nat \<Rightarrow> 's list \<Rightarrow> nat \<Rightarrow> nat \<Rightarrow> ('s \<Rightarrow> 'd) \<Rightarrow> 'd list option" where
  "copy_row out base vs offset n convert =
     (case (slice out base (base + n), slice vs offset (offset + n)) of
        (Some _, Some row) \<Rightarrow> Some (take base out @ map convert row @ drop (base + n) out)
      | _ \<Rightarrow> None)"

fun scatter_rows :: "nat list \<Rightarrow> nat \<Rightarrow> 'd plane_part \<Rightarrow> 's list \<Rightarrow> nat \<Rightarrow> ('s \<Rightarrow> 'd) \<Rightarrow> 'd plane_part option" where
  "scatter_rows [] row_len out vs offset convert = Some out"
| "scatter_rows (base # bases) row_len out vs offset convert =
     (if base < part_start out then None
      else case copy_row (part_values out) (base - part_start out) vs offset row_len convert of
             None \<Rightarrow> None
           | Some values \<Rightarrow>
               scatter_rows bases row_len (out\<lparr>part_values := values\<rparr>) vs (offset + row_len) convert)"

definition scatter_rows_into ::
  "tile_scratch \<Rightarrow> 'd plane_part \<Rightarrow> 's list \<Rightarrow> ('s \<Rightarrow> 'd) \<Rightarrow> 'd plane_part option" where
  "scatter_rows_into s out vs convert = scatter_rows (ts_row_bases s) (ts_row_len s) out vs 0 convert"

text \<open>Where a row of the tile lands in a section: \<open>None\<close> when the row is outside its ranges.\<close>

fun section_base :: "nat list \<Rightarrow> nat list \<Rightarrow> (nat \<times> nat) list \<Rightarrow> nat list \<Rightarrow> nat \<Rightarrow> nat \<Rightarrow> nat \<Rightarrow> nat option" where
  "section_base (d # ds) (o' # os) (r # rs) (n # ns) remainder base stride =
     (let coordinate = o' + remainder mod d
      in if fst r \<le> coordinate \<and> coordinate < snd r
         then section_base ds os rs ns (remainder div d) (base + (coordinate - fst r) * stride) (stride * n)
         else None)"
| "section_base _ _ _ _ remainder base stride = Some base"

fun scatter_section_rows ::
  "tile_scratch \<Rightarrow> (nat \<times> nat) list \<Rightarrow> nat list \<Rightarrow> 's list \<Rightarrow> ('s \<Rightarrow> 'd) \<Rightarrow> nat \<Rightarrow> nat \<Rightarrow> nat list \<Rightarrow>
    'd list \<Rightarrow> 'd list option" where
  "scatter_section_rows s ranges shape vs convert x_start width [] out = Some out"
| "scatter_section_rows s ranges shape vs convert x_start width (row # rows) out =
     (case section_base (drop 1 (ts_tdims s)) (drop 1 (ts_origin s)) (drop 1 ranges) (drop 1 shape) row 0 (shape ! 0) of
        None \<Rightarrow> scatter_section_rows s ranges shape vs convert x_start width rows out
      | Some base \<Rightarrow>
          (case copy_row out (base + (x_start - fst (ranges ! 0))) vs
                  (row * ts_row_len s + (x_start - ts_origin s ! 0)) width convert of
             None \<Rightarrow> None
           | Some out' \<Rightarrow> scatter_section_rows s ranges shape vs convert x_start width rows out'))"

definition scatter_section_into ::
  "tile_scratch \<Rightarrow> (nat \<times> nat) list \<Rightarrow> nat list \<Rightarrow> 's list \<Rightarrow> 'd list \<Rightarrow> ('s \<Rightarrow> 'd) \<Rightarrow> 'd list option" where
  "scatter_section_into s ranges shape vs out convert =
     (let x_start = max (ts_origin s ! 0) (fst (ranges ! 0));
          x_end = min (ts_origin s ! 0 + ts_tdims s ! 0) (snd (ranges ! 0))
      in if x_start \<ge> x_end then Some out
         else scatter_section_rows s ranges shape vs convert x_start (x_end - x_start)
                [0..<length (ts_row_bases s)] out)"

end
