(* ===== verification/Tile_Cover.thy ===== *)
theory Tile_Cover
  imports Tile_Geometry
begin

text \<open>
  The tiles of a geometry cover the image: the odometer gives the rows of a row-major walk, every
  tile's rows lie inside the image, each pixel is in exactly one tile, and gathering the tiles of
  an image and scattering them again rebuilds it.
\<close>

section \<open>The odometer\<close>

definition dot :: "nat list \<Rightarrow> nat list \<Rightarrow> nat" where
  "dot cs ss = sum_list (map2 (*) cs ss)"

lemma dot_simps [simp]:
  "dot [] ss = 0" "dot cs [] = 0" "dot (c # cs) (s # ss) = c * s + dot cs ss"
  by (simp_all add: dot_def)

lemma dot_zero [simp]: "dot (replicate n 0) ss = 0"
proof (induction n arbitrary: ss)
  case (Suc n)
  then show ?case by (cases ss) auto
qed simp

text \<open>The coordinates of row \<open>r\<close>, the first axis running fastest.\<close>

fun digits :: "nat list \<Rightarrow> nat \<Rightarrow> nat list" where
  "digits [] r = []"
| "digits (d # ds) r = r mod d # digits ds (r div d)"

lemma digits_zero: "digits ds 0 = replicate (length ds) 0"
  by (induction ds) auto

lemma mod_div_Suc:
  assumes "0 < (d::nat)"
  shows "r mod d + 1 < d \<Longrightarrow> (r + 1) mod d = r mod d + 1 \<and> (r + 1) div d = r div d"
    and "\<not> r mod d + 1 < d \<Longrightarrow> r mod d + 1 = d \<and> (r + 1) mod d = 0 \<and> (r + 1) div d = r div d + 1"
proof -
  have lt: "r mod d < d" using assms by simp
  show "(r + 1) mod d = r mod d + 1 \<and> (r + 1) div d = r div d" if "r mod d + 1 < d"
    using that by (simp add: mod_Suc div_Suc)
  show "r mod d + 1 = d \<and> (r + 1) mod d = 0 \<and> (r + 1) div d = r div d + 1" if "\<not> r mod d + 1 < d"
  proof -
    have "r mod d + 1 = d" using lt that by linarith
    then show ?thesis by (simp add: mod_Suc div_Suc)
  qed
qed

lemma odometer_step_digits:
  "0 \<notin> set ds \<Longrightarrow> length ss = length ds \<Longrightarrow>
    odometer_step (digits ds r) ds ss (f + dot (digits ds r) ss)
      = (digits ds (r + 1), f + dot (digits ds (r + 1)) ss)"
proof (induction ds arbitrary: ss r f)
  case Nil
  then show ?case by simp
next
  case (Cons d ds)
  obtain s ss' where ss: "ss = s # ss'" using Cons.prems(2) by (cases ss) auto
  have d: "0 < d" using Cons.prems(1) by auto
  let ?rest = "dot (digits ds (r div d)) ss'"
  show ?case
  proof (cases "r mod d + 1 < d")
    case True
    note m = mod_div_Suc(1) [OF d True]
    show ?thesis using True m by (simp add: ss)
  next
    case False
    note m = mod_div_Suc(2) [OF d False]
    have "(r mod d + 1) * s = d * s" using m by simp
    then have "d * s = (r mod d) * s + s" by simp
    then have "f + ((r mod d) * s + ?rest) + s - d * s = f + ?rest" by linarith
    then show ?thesis
      using False m Cons.IH [of ss' "r div d" f] Cons.prems by (simp add: ss)
  qed
qed

lemma odometer_digits:
  "0 \<notin> set ds \<Longrightarrow> length ss = length ds \<Longrightarrow>
    fst (odometer rows ds ss (digits ds r) (f + dot (digits ds r) ss))
      = map (\<lambda>i. f + dot (digits ds (r + i)) ss) [0..<rows]"
proof (induction rows arbitrary: r)
  case (Suc rows)
  have "map (\<lambda>i. f + dot (digits ds (r + i)) ss) [0..<Suc rows]
      = (f + dot (digits ds r) ss) # map (\<lambda>i. f + dot (digits ds (Suc r + i)) ss) [0..<rows]"
    by (subst map_upt_Suc) simp
  then show ?case
    using odometer_step_digits [OF Suc.prems, of r f] Suc.IH [OF Suc.prems, of "Suc r"]
    by (simp add: split_beta)
qed simp

section \<open>Sums over blocks\<close>

lemma sum_add_index:
  fixes g :: "nat \<Rightarrow> 'a::comm_monoid_add"
  shows "(\<Sum>x<m + n. g x) = (\<Sum>x<m. g x) + (\<Sum>j<n. g (m + j))"
  by (induction n) (auto simp: add.assoc)

lemma sum_split_index:
  fixes g :: "nat \<Rightarrow> 'a::comm_monoid_add"
  shows "(\<Sum>i<a * b. g i) = (\<Sum>j<b. \<Sum>k<a. g (k + a * j))"
proof (induction b)
  case (Suc b)
  have "(\<Sum>i<a * b + a. g i) = (\<Sum>i<a * b. g i) + (\<Sum>k<a. g (k + a * b))"
    by (subst sum_add_index) (simp add: add.commute)
  then show ?case using Suc by (simp add: add.commute)
qed simp

lemma sum_blocks:
  fixes g :: "nat \<Rightarrow> 'a::comm_monoid_add"
  shows "(\<Sum>k<n. \<Sum>j<min t (d - k * t). g (k * t + j)) = (\<Sum>x<min d (n * t). g x)"
proof (induction n)
  case (Suc n)
  have m: "min d (n * t) + min t (d - n * t) = min d (Suc n * t)" by (auto simp: min_def)
  have "(\<Sum>x<min d (n * t) + min t (d - n * t). g x)
      = (\<Sum>x<min d (n * t). g x) + (\<Sum>j<min t (d - n * t). g (n * t + j))"
    by (cases "n * t \<le> d") (auto simp: sum_add_index min_absorb1 min_absorb2)
  then show ?case using Suc m by simp
qed simp

lemma div_ceil_covers:
  assumes "0 < t"
  shows "d \<le> div_ceil d t * t" and "k < div_ceil d t \<Longrightarrow> k * t < d" and "0 < d \<Longrightarrow> 0 < div_ceil d t"
proof -
  have e: "d + t - 1 = (d + t - 1) div t * t + (d + t - 1) mod t" by simp
  have r: "(d + t - 1) mod t < t" using assms by simp
  show "d \<le> div_ceil d t * t" unfolding div_ceil_def using e r assms by linarith
  show "k * t < d" if "k < div_ceil d t"
  proof -
    have "(k + 1) * t \<le> div_ceil d t * t" using that by (intro mult_le_mono1) simp
    also have "\<dots> \<le> d + t - 1" unfolding div_ceil_def using e by linarith
    finally show ?thesis using assms by simp
  qed
  show "0 < div_ceil d t" if "0 < d"
    using assms that by (simp add: div_ceil_def div_greater_zero_iff)
qed

lemma sum_tiles:
  fixes g :: "nat \<Rightarrow> 'a::comm_monoid_add"
  assumes "0 < t"
  shows "(\<Sum>k<div_ceil d t. \<Sum>j<min t (d - k * t). g (k * t + j)) = (\<Sum>x<d. g x)"
  using sum_blocks [of g t d "div_ceil d t"] div_ceil_covers(1) [OF assms, of d] by (simp add: min_def)

section \<open>The pixels of a tile\<close>

definition tile_pixels :: "tile_scratch \<Rightarrow> nat list" where
  "tile_pixels s = concat (map (\<lambda>base. [base..<base + ts_row_len s]) (ts_row_bases s))"

text \<open>The flat indices of a grid of extents and strides from an offset, as a multiset.\<close>

fun grid :: "(nat \<times> nat) list \<Rightarrow> nat \<Rightarrow> nat multiset" where
  "grid [] f = {#f#}"
| "grid ((d, s) # ax) f = (\<Sum>k<d. grid ax (f + k * s))"

lemma grid_digits:
  "length ss = length ds \<Longrightarrow>
    (\<Sum>i<prod_list ds. {#f + dot (digits ds i) ss#}) = grid (zip ds ss) f"
proof (induction ds arbitrary: ss f)
  case (Cons d ds)
  then obtain s ss' where ss: "ss = s # ss'" by (cases ss) auto
  have "(\<Sum>i<d * prod_list ds. {#f + dot (digits (d # ds) i) ss#})
      = (\<Sum>j<prod_list ds. \<Sum>k<d. {#(f + k * s) + dot (digits ds j) ss'#})"
    unfolding sum_split_index by (intro sum.cong) (auto simp: ss add.assoc)
  also have "\<dots> = (\<Sum>k<d. \<Sum>j<prod_list ds. {#(f + k * s) + dot (digits ds j) ss'#})"
    by (rule sum.swap)
  also have "\<dots> = (\<Sum>k<d. grid (zip ds ss') (f + k * s))"
    using Cons by (intro sum.cong) (auto simp: ss)
  finally show ?case by (simp add: ss)
qed simp

lemma mset_concat_map_upt: "mset (concat (map h [0..<n])) = (\<Sum>i<n. mset (h i))"
  by (induction n) (auto simp: add.commute)

lemma mset_upt_add: "mset [b..<b + n] = (\<Sum>k<n. {#b + k#})"
  by (induction n) auto

text \<open>The extents of tile \<open>t\<close>, and its pixels as a multiset.\<close>

lemma tile_axes_simps [simp]: "tile_axes [] ts ns rem = []"
  by simp

lemma length_tile_axes:
  "length ts = length ds \<Longrightarrow> length ns = length ds \<Longrightarrow> length (tile_axes ds ts ns rem) = length ds"
proof (induction ds arbitrary: ts ns rem)
  case (Cons d ds)
  then show ?case by (cases ts; cases ns) (auto simp: Let_def)
qed simp

definition axis_counts :: "nat list \<Rightarrow> nat list \<Rightarrow> nat list" where
  "axis_counts dims tiles = map (\<lambda>(d, t). div_ceil d t) (zip dims tiles)"

lemma axis_counts_simps [simp]:
  "axis_counts [] ts = []"
  "axis_counts (d # ds) (t # ts) = div_ceil d t # axis_counts ds ts"
  by (simp_all add: axis_counts_def)

lemma length_axis_counts [simp]: "length ts = length ds \<Longrightarrow> length (axis_counts ds ts) = length ds"
  by (simp add: axis_counts_def)

lemma tile_extent_pos:
  "0 \<notin> set ds \<Longrightarrow> 0 \<notin> set ts \<Longrightarrow> length ts = length ds \<Longrightarrow>
    0 \<notin> snd ` set (tile_axes ds ts (axis_counts ds ts) rem)"
proof (induction ds arbitrary: ts rem)
  case (Cons d ds)
  obtain t ts' where ts: "ts = t # ts'" using Cons.prems(3) by (cases ts) auto
  have t: "0 < t" "0 < d" using Cons.prems by (auto simp: ts)
  have "rem mod div_ceil d t < div_ceil d t" using div_ceil_covers(3) [OF t] by simp
  then have "rem mod div_ceil d t * t < d" by (rule div_ceil_covers(2) [OF t(1)])
  then show ?case using Cons.IH [of ts' "rem div div_ceil d t"] Cons.prems t by (auto simp: ts Let_def)
qed simp

text \<open>The grids of all tiles together are the grid of the image.\<close>

lemma grids_cover:
  "0 \<notin> set ts \<Longrightarrow> length ts = length ds \<Longrightarrow> length ss = length ds \<Longrightarrow>
    (\<Sum>t<prod_list (axis_counts ds ts).
        grid (zip (map snd (tile_axes ds ts (axis_counts ds ts) t)) ss)
          (f + dot (map fst (tile_axes ds ts (axis_counts ds ts) t)) ss))
      = grid (zip ds ss) f"
proof (induction ds arbitrary: ts ss f)
  case (Cons d ds)
  obtain t ts' s ss' where e: "ts = t # ts'" "ss = s # ss'"
    using Cons.prems by (cases ts; cases ss) auto
  have t: "0 < t" using Cons.prems(1) by (auto simp: e)
  let ?n = "div_ceil d t"
  let ?ns = "axis_counts ds ts'"
  let ?ax = "\<lambda>j. tile_axes ds ts' ?ns j"
  let ?g = "\<lambda>x j. grid (zip (map snd (?ax j)) ss') ((f + x * s) + dot (map fst (?ax j)) ss')"
  have "(\<Sum>i<?n * prod_list ?ns.
        grid (zip (map snd (tile_axes (d # ds) ts (axis_counts (d # ds) ts) i)) ss)
          (f + dot (map fst (tile_axes (d # ds) ts (axis_counts (d # ds) ts) i)) ss))
      = (\<Sum>j<prod_list ?ns. \<Sum>k<?n. \<Sum>m<min t (d - k * t). ?g (k * t + m) j)"
    unfolding sum_split_index
    by (intro sum.cong refl) (simp add: e Let_def algebra_simps)
  also have "\<dots> = (\<Sum>j<prod_list ?ns. \<Sum>x<d. ?g x j)"
    by (rule sum.cong [OF refl], rule sum_tiles [OF t, where d = d and g = "\<lambda>x. ?g x _"])
  also have "\<dots> = (\<Sum>x<d. \<Sum>j<prod_list ?ns. ?g x j)" by (rule sum.swap)
  also have "\<dots> = (\<Sum>x<d. grid (zip ds ss') (f + x * s))"
    using Cons.IH [of ts' ss'] Cons.prems by (intro sum.cong refl) (auto simp: e)
  finally show ?case by (simp add: e)
qed simp

lemma grid_strides:
  "grid (zip ds (strides_from c ds)) f = (\<Sum>i<prod_list ds. {#f + i * c#})"
proof (induction ds arbitrary: c f)
  case (Cons d ds)
  have "(\<Sum>i<d * prod_list ds. {#f + i * c#}) = (\<Sum>j<prod_list ds. \<Sum>k<d. {#(f + k * c) + j * (c * d)#})"
    unfolding sum_split_index by (intro sum.cong refl) (simp add: algebra_simps)
  also have "\<dots> = (\<Sum>k<d. \<Sum>j<prod_list ds. {#(f + k * c) + j * (c * d)#})" by (rule sum.swap)
  finally show ?case using Cons by simp
qed simp

text \<open>The pixels of a tile are the grid of its extents from its origin.\<close>

definition good_geometry :: "nat list \<Rightarrow> nat list \<Rightarrow> bool" where
  "good_geometry dims tiles \<longleftrightarrow> dims \<noteq> [] \<and> length tiles = length dims \<and> 0 \<notin> set dims \<and> 0 \<notin> set tiles"

lemma length_strides [simp]: "length (strides_from c ds) = length ds"
  by (induction ds arbitrary: c) auto

lemma mset_tile_pixels:
  assumes g: "good_geometry dims tiles"
  shows "mset (tile_pixels (tile_into (tile_geometry_new dims tiles) t))
      = grid (zip (map snd (tile_axes dims tiles (axis_counts dims tiles) t)) (strides_from 1 dims))
          (dot (map fst (tile_axes dims tiles (axis_counts dims tiles) t)) (strides_from 1 dims))"
proof -
  obtain d ds where dims: "dims = d # ds" using g by (cases dims) (auto simp: good_geometry_def)
  let ?ax = "tile_axes dims tiles (axis_counts dims tiles) t"
  have len: "length ?ax = length dims" using g by (intro length_tile_axes) (auto simp: good_geometry_def)
  then obtain o0 e0 ax where ax: "?ax = (o0, e0) # ax" "length ax = length ds"
    by (cases ?ax) (auto simp: dims)
  let ?es = "map snd ax" and ?ss = "strides_from d ds"
  let ?f = "dot (map fst ?ax) (strides_from 1 dims)"
  have pos: "0 \<notin> set ?es"
    using tile_extent_pos [of dims tiles t] g ax(1) by (auto simp: good_geometry_def image_iff)
  have n1: "length dims \<le> 1 \<longleftrightarrow> ds = []" by (simp add: dims)
  have rows: "(if length dims \<le> 1 then 1 else prod_list (drop 1 (map snd ?ax))) = prod_list ?es"
    using ax n1 by auto
  have od: "fst (odometer (prod_list ?es) ?es ?ss (replicate (length ds) 0) ?f)
      = map (\<lambda>i. ?f + dot (digits ?es i) ?ss) [0..<prod_list ?es]"
    using odometer_digits [of ?es ?ss "prod_list ?es" 0 ?f] pos ax(2)
    by (simp add: digits_zero)
  have bases: "ts_row_bases (tile_into (tile_geometry_new dims tiles) t)
      = map (\<lambda>i. ?f + dot (digits ?es i) ?ss) [0..<prod_list ?es]"
    "ts_row_len (tile_into (tile_geometry_new dims tiles) t) = e0"
  proof -
    let ?g = "tile_geometry_new dims tiles"
    have fields: "tg_dims ?g = dims" "tg_tiles ?g = tiles" "tg_ntiles_axis ?g = axis_counts dims tiles"
      "tg_stride ?g = strides_from 1 dims"
      using g by (auto simp: tile_geometry_new_def axis_counts_def good_geometry_def)
    have hi: "drop 1 (map snd ?ax) = ?es" by (simp add: ax)
    have hi': "drop 1 (strides_from 1 dims) = ?ss"
      "drop 1 (replicate (length dims) 0) = replicate (length ds) 0"
      by (simp_all add: dims)
    show "ts_row_bases (tile_into ?g t) = map (\<lambda>i. ?f + dot (digits ?es i) ?ss) [0..<prod_list ?es]"
      unfolding tile_into_def Let_def fields
      unfolding rows
      unfolding hi hi' od [symmetric]
      by (simp add: split_beta dot_def)
    show "ts_row_len (tile_into ?g t) = e0"
      unfolding tile_into_def Let_def fields by (simp add: split_beta dims, simp add: dims [symmetric] ax)
  qed
  have "mset (tile_pixels (tile_into (tile_geometry_new dims tiles) t))
      = (\<Sum>i<prod_list ?es. \<Sum>k<e0. {#?f + dot (digits ?es i) ?ss + k#})"
    unfolding tile_pixels_def bases map_map comp_def mset_concat_map_upt mset_upt_add by simp
  also have "\<dots> = (\<Sum>k<e0. \<Sum>i<prod_list ?es. {#(?f + k) + dot (digits ?es i) ?ss#})"
    by (subst sum.swap) (intro sum.cong refl, simp)
  also have "\<dots> = (\<Sum>k<e0. grid (zip ?es ?ss) (?f + k))"
    using grid_digits [of ?ss ?es] ax(2) by (intro sum.cong refl) simp
  also have "\<dots> = grid (zip (map snd ?ax) (strides_from 1 dims)) ?f"
  proof -
    have "strides_from 1 dims = 1 # ?ss" by (simp add: dims)
    then show ?thesis unfolding ax(1) by simp
  qed
  finally show ?thesis .
qed

lemma mset_all_tiles:
  assumes g: "good_geometry dims tiles"
  shows "mset (concat (map (\<lambda>t. tile_pixels (tile_into (tile_geometry_new dims tiles) t))
      [0..<ntiles (tile_geometry_new dims tiles)])) = mset [0..<prod_list dims]"
proof -
  let ?c = "axis_counts dims tiles"
  have len: "length tiles = length dims" "0 \<notin> set tiles" "0 \<notin> set dims" "dims \<noteq> []"
    using g by (auto simp: good_geometry_def)
  have "0 \<notin> set ?c"
  proof
    assume "0 \<in> set ?c"
    then obtain a b where ab: "(a, b) \<in> set (zip dims tiles)" "div_ceil a b = 0"
      by (auto simp: axis_counts_def)
    then have "0 < a" "0 < b" using len by (metis gr0I set_zip_leftD, metis gr0I set_zip_rightD)
    then show False using div_ceil_covers(3) [of b a] ab(2) by simp
  qed
  moreover have "?c \<noteq> []" using len by (cases dims; cases tiles) auto
  ultimately have n: "ntiles (tile_geometry_new dims tiles) = prod_list ?c"
    by (simp add: ntiles_def tile_geometry_new_def axis_counts_def)
  have "mset (concat (map (\<lambda>t. tile_pixels (tile_into (tile_geometry_new dims tiles) t)) [0..<prod_list ?c]))
      = (\<Sum>t<prod_list ?c. grid (zip (map snd (tile_axes dims tiles ?c t)) (strides_from 1 dims))
          (0 + dot (map fst (tile_axes dims tiles ?c t)) (strides_from 1 dims)))"
    unfolding mset_concat_map_upt mset_tile_pixels [OF g] by simp
  also have "\<dots> = grid (zip dims (strides_from 1 dims)) 0"
    using len by (intro grids_cover) auto
  also have "\<dots> = (\<Sum>i<prod_list dims. {#i#})" by (simp add: grid_strides)
  also have "\<dots> = mset [0..<prod_list dims]" using mset_upt_add [of 0 "prod_list dims"] by simp
  finally show ?thesis by (simp add: n)
qed



section \<open>Gathering and scattering\<close>

lemma tile_row_len_pos:
  assumes g: "good_geometry dims tiles"
  shows "0 < ts_row_len (tile_into (tile_geometry_new dims tiles) t)"
proof -
  let ?ax = "tile_axes dims tiles (axis_counts dims tiles) t"
  have len: "length ?ax = length dims" "dims \<noteq> []"
    using g by (auto simp: good_geometry_def intro: length_tile_axes)
  have "map snd ?ax ! 0 \<in> set (map snd ?ax)" using len by (intro nth_mem) auto
  moreover have "0 \<notin> set (map snd ?ax)"
    using tile_extent_pos [of dims tiles t] g by (auto simp: good_geometry_def image_iff)
  ultimately have "0 < map snd ?ax ! 0" by (metis gr0I)
  moreover have "ts_row_len (tile_into (tile_geometry_new dims tiles) t) = map snd ?ax ! 0"
    using len by (simp add: tile_into_def Let_def split_beta tile_geometry_new_def axis_counts_def)
  ultimately show ?thesis by simp
qed

lemma tile_rows_inside:
  assumes g: "good_geometry dims tiles" and t: "t < ntiles (tile_geometry_new dims tiles)"
    and b: "base \<in> set (ts_row_bases (tile_into (tile_geometry_new dims tiles) t))"
  defines "n \<equiv> ts_row_len (tile_into (tile_geometry_new dims tiles) t)"
  shows "base + n \<le> prod_list dims \<or> n = 0"
proof (cases "n = 0")
  case False
  let ?s = "tile_into (tile_geometry_new dims tiles) t"
  have "base + n - 1 \<in> set [base..<base + n]" using False by auto
  then have "base + n - 1 \<in> set (tile_pixels ?s)"
    using b by (auto simp: tile_pixels_def n_def)
  then have "base + n - 1 \<in># mset (concat (map (\<lambda>t. tile_pixels (tile_into (tile_geometry_new dims tiles) t))
      [0..<ntiles (tile_geometry_new dims tiles)]))"
    using t by auto
  then show ?thesis using mset_all_tiles [OF g] False by (simp add: n_def)
qed simp

text \<open>Writing \<open>h p\<close> at every index \<open>p\<close> of a list.\<close>

definition write_at :: "nat list \<Rightarrow> (nat \<Rightarrow> 'd) \<Rightarrow> 'd list \<Rightarrow> 'd list" where
  "write_at ps h vs = map (\<lambda>i. if i \<in> set ps then h i else vs ! i) [0..<length vs]"

lemma length_write_at [simp]: "length (write_at ps h vs) = length vs"
  by (simp add: write_at_def)

lemma write_at_Nil [simp]: "write_at [] h vs = vs"
  by (simp add: write_at_def map_nth)

lemma write_at_append: "write_at qs h (write_at ps h vs) = write_at (ps @ qs) h vs"
  by (rule nth_equalityI) (auto simp: write_at_def)

lemma write_at_row:
  assumes "base + n \<le> length vs"
  shows "take base vs @ map h [base..<base + n] @ drop (base + n) vs = write_at [base..<base + n] h vs"
  using assms by (intro nth_equalityI) (auto simp: write_at_def nth_append)

lemma gather_rows_pixels:
  "(\<forall>b \<in> set bases. b + n \<le> length vs) \<Longrightarrow>
    gather_rows vs bases n widen = Some (map (\<lambda>p. widen (vs ! p)) (concat (map (\<lambda>b. [b..<b + n]) bases)))"
proof (induction bases)
  case (Cons b bases)
  then have "b + n \<le> length vs" by simp
  then have "take n (drop b vs) = map ((!) vs) [b..<b + n]"
    by (intro nth_equalityI) auto
  then show ?case using Cons by (simp add: slice_def)
qed simp

lemma scatter_rows_write:
  "(\<forall>b \<in> set bases. b + n \<le> length out) \<Longrightarrow>
    vs = pre @ map f (concat (map (\<lambda>b. [b..<b + n]) bases)) \<Longrightarrow>
    scatter_rows bases n \<lparr>part_values = out, part_start = 0\<rparr> vs (length pre) convert
      = Some \<lparr>part_values = write_at (concat (map (\<lambda>b. [b..<b + n]) bases)) (\<lambda>p. convert (f p)) out, part_start = 0\<rparr>"
proof (induction bases arbitrary: out pre)
  case (Cons b bases)
  have b: "b + n \<le> length out" using Cons.prems(1) by simp
  let ?rest = "map f (concat (map (\<lambda>b. [b..<b + n]) bases))"
  have sl: "slice vs (length pre) (length pre + n) = Some (map f [b..<b + n])"
    using Cons.prems(2) by (simp add: slice_def)
  have "copy_row out b vs (length pre) n convert = Some (write_at [b..<b + n] (\<lambda>p. convert (f p)) out)"
    using b sl write_at_row [OF b, of "\<lambda>p. convert (f p)"] by (simp add: copy_row_def slice_def [of out] comp_def)
  then show ?case
    using Cons.IH [of "write_at [b..<b + n] (\<lambda>p. convert (f p)) out" "pre @ map f [b..<b + n]"] Cons.prems
    by (simp add: write_at_append)
qed simp

text \<open>Every tile of an image gathered, then scattered into a plane.\<close>

fun retile :: "tile_geometry \<Rightarrow> nat list \<Rightarrow> 's list \<Rightarrow> ('s \<Rightarrow> 'd) \<Rightarrow> 'd plane_part \<Rightarrow> 'd plane_part option" where
  "retile g [] img convert out = Some out"
| "retile g (t # ts) img convert out =
     (let s = tile_into g t in
      case gather_rows img (ts_row_bases s) (ts_row_len s) id of
        None \<Rightarrow> None
      | Some vs \<Rightarrow>
          (case scatter_rows_into s out vs convert of
             None \<Rightarrow> None
           | Some out' \<Rightarrow> retile g ts img convert out'))"

lemma retile_writes:
  assumes g: "good_geometry dims tiles"
  shows "(\<forall>t \<in> set ts. t < ntiles (tile_geometry_new dims tiles)) \<Longrightarrow>
    length img = prod_list dims \<Longrightarrow> length out = prod_list dims \<Longrightarrow>
    retile (tile_geometry_new dims tiles) ts img convert \<lparr>part_values = out, part_start = 0\<rparr>
      = Some \<lparr>part_values = write_at (concat (map (\<lambda>t. tile_pixels (tile_into (tile_geometry_new dims tiles) t)) ts))
          (\<lambda>p. convert (img ! p)) out, part_start = 0\<rparr>"
proof (induction ts arbitrary: out)
  case (Cons t ts)
  let ?s = "tile_into (tile_geometry_new dims tiles) t"
  let ?n = "ts_row_len ?s" and ?bases = "ts_row_bases ?s"
  have inside: "\<forall>b \<in> set ?bases. b + ?n \<le> prod_list dims"
    using tile_rows_inside [OF g, of t] tile_row_len_pos [OF g, of t] Cons.prems(1) by force
  have "gather_rows img ?bases ?n id = Some (map (\<lambda>p. img ! p) (tile_pixels ?s))"
    using gather_rows_pixels [of ?bases ?n img id] inside Cons.prems(2) by (simp add: tile_pixels_def)
  moreover have "scatter_rows_into ?s \<lparr>part_values = out, part_start = 0\<rparr> (map (\<lambda>p. img ! p) (tile_pixels ?s)) convert
      = Some \<lparr>part_values = write_at (tile_pixels ?s) (\<lambda>p. convert (img ! p)) out, part_start = 0\<rparr>"
    using scatter_rows_write [of ?bases ?n out _ "[]" "\<lambda>p. img ! p" convert] inside Cons.prems(3)
    by (simp add: scatter_rows_into_def tile_pixels_def)
  ultimately show ?case
    using Cons.IH [of "write_at (tile_pixels ?s) (\<lambda>p. convert (img ! p)) out"] Cons.prems
    by (simp add: Let_def write_at_append)
qed simp

text \<open>C23: Gathering each tile of an image and scattering it into a plane of the image's size, in tile
  order, copies every sample, converted, to its place; no copy leaves its buffers.\<close>

theorem tiles_gather_scatter:
  assumes "dims \<noteq> []" and "length tiles = length dims" and "0 \<notin> set dims" and "0 \<notin> set tiles"
    and "length img = prod_list dims" and "length out = prod_list dims"
  shows "retile (tile_geometry_new dims tiles) [0..<ntiles (tile_geometry_new dims tiles)] img convert
      \<lparr>part_values = out, part_start = 0\<rparr> = Some \<lparr>part_values = map convert img, part_start = 0\<rparr>"
proof -
  have g: "good_geometry dims tiles" using assms by (simp add: good_geometry_def)
  let ?ps = "concat (map (\<lambda>t. tile_pixels (tile_into (tile_geometry_new dims tiles) t))
      [0..<ntiles (tile_geometry_new dims tiles)])"
  have "set ?ps = {..<prod_list dims}"
    using arg_cong [OF mset_all_tiles [OF g], of set_mset] by (simp only: set_mset_mset) auto
  then have "write_at ?ps (\<lambda>p. convert (img ! p)) out = map convert img"
    using assms(5,6) by (intro nth_equalityI) (auto simp: write_at_def)
  then show ?thesis
    using retile_writes [OF g, of "[0..<ntiles (tile_geometry_new dims tiles)]" img out convert] assms(5,6) by simp
qed

lemma tiles_gather_scatter_witness:
  "retile (tile_geometry_new [3, 2] [2, 1]) [0..<ntiles (tile_geometry_new [3, 2] [2, 1])] [1, 2, 3, 4, 5, 6 :: int] abs
      \<lparr>part_values = replicate 6 0, part_start = 0\<rparr> = Some \<lparr>part_values = map abs [1, 2, 3, 4, 5, 6], part_start = 0\<rparr>"
  by (rule tiles_gather_scatter) simp_all

end
