(* ===== verification/Endian.thy ===== *)
theory Endian
  imports Blocks Plane
begin

text \<open>
  The big-endian element runs of \<^verbatim>\<open>src/endian.rs\<close> and the integer widenings of
  \<^verbatim>\<open>src/compression/convert.rs\<close>. The const parameter \<open>N\<close> and the conversion of a helper are
  arguments; the locale \<open>be_codec\<close> is what a caller relies on of a conversion pair, and \<open>be_int\<close>
  interprets it on the integers of every \<open>int_bitpix\<close>.
\<close>

section \<open>Element runs\<close>

text \<open>\<^verbatim>\<open>extend_be\<close> grows the buffer once and fills each \<open>N\<close>-byte slot.\<close>

fun fill_slots :: "bytes list \<Rightarrow> 'a list \<Rightarrow> ('a \<Rightarrow> bytes) \<Rightarrow> bytes list" where
  "fill_slots (slot # slots) (v # vs) conv = conv v # fill_slots slots vs conv"
| "fill_slots slots [] conv = slots"
| "fill_slots [] vs conv = []"

definition extend_be :: "nat \<Rightarrow> bytes \<Rightarrow> 'a list \<Rightarrow> ('a \<Rightarrow> bytes) \<Rightarrow> bytes" where
  "extend_be n out vs conv =
     (let grown = resize_list (length out + length vs * n) 0 out
      in take (length out) grown @ concat (fill_slots (as_chunks n (drop (length out) grown)) vs conv))"

fun extend_be_cells :: "nat \<Rightarrow> bytes list \<Rightarrow> (bytes \<Rightarrow> 'a) \<Rightarrow> 'a list \<Rightarrow> 'a list" where
  "extend_be_cells n [] conv out = out"
| "extend_be_cells n (cell # cells) conv out =
     extend_be_cells n cells conv (out @ map conv (as_chunks n cell))"

definition decode_be_cells_into ::
  "(nat \<Rightarrow> bool) \<Rightarrow> nat \<Rightarrow> nat \<Rightarrow> bytes list \<Rightarrow> nat \<Rightarrow> (bytes \<Rightarrow> 'a) \<Rightarrow> 'a list fits_result" where
  "decode_be_cells_into grant elem_size n cells capacity conv =
     bind (try_reserve_exact grant elem_size ([] :: 'a list) capacity)
       (\<lambda>_. Inr (extend_be_cells n cells conv []))"

definition decode_be_cells ::
  "(nat \<Rightarrow> bool) \<Rightarrow> nat \<Rightarrow> nat \<Rightarrow> bytes list \<Rightarrow> nat \<Rightarrow> (bytes \<Rightarrow> 'a) \<Rightarrow> 'a list fits_result" where
  "decode_be_cells grant elem_size n cells capacity conv =
     decode_be_cells_into grant elem_size n cells capacity conv"

definition decode_be_into :: "nat \<Rightarrow> bytes \<Rightarrow> (bytes \<Rightarrow> 'a) \<Rightarrow> 'a list" where
  "decode_be_into n bs conv = extend_be_cells n [bs] conv []"

text \<open>\<^verbatim>\<open>decode_be_into_slice\<close>: the slots past the chunks keep their values.\<close>

definition decode_be_into_slice :: "nat \<Rightarrow> bytes \<Rightarrow> 'a list \<Rightarrow> (bytes \<Rightarrow> 'a) \<Rightarrow> 'a list" where
  "decode_be_into_slice n bs dst conv =
     (let vs = map conv (as_chunks n bs) in take (length dst) vs @ drop (length vs) dst)"

lemma extend_be_cells_concat:
  "extend_be_cells n cells conv out = out @ concat (map (\<lambda>cell. map conv (as_chunks n cell)) cells)"
  by (induction cells arbitrary: out) auto

lemma fill_slots_all: "length slots = length vs \<Longrightarrow> fill_slots slots vs conv = map conv vs"
  by (induction slots vs rule: list_induct2) auto

lemma length_as_chunks: "0 < n \<Longrightarrow> length (as_chunks n xs) = length xs div n"
proof (induction n xs rule: as_chunks.induct)
  case (1 n xs)
  show ?case
  proof (cases "length xs < n")
    case False
    then have "length xs div n = Suc ((length xs - n) div n)"
      using "1.prems" by (simp add: le_div_geq)
    then show ?thesis using False 1 by (subst as_chunks.simps) simp
  qed (simp add: as_chunks_short)
qed

lemma extend_be_concat:
  assumes "0 < n"
  shows "extend_be n out vs conv = out @ concat (map conv vs)"
proof -
  have "length (as_chunks n (replicate (length vs * n) (0 :: u8))) = length vs"
    using assms by (simp add: length_as_chunks)
  then show ?thesis
    by (simp add: extend_be_def resize_list_def fill_slots_all)
qed

section \<open>A conversion pair\<close>

locale be_codec =
  fixes width :: nat
    and enc :: "'a \<Rightarrow> bytes"
    and dec :: "bytes \<Rightarrow> 'a"
    and good :: "'a \<Rightarrow> bool"
  assumes width_pos: "0 < width"
    and enc_length: "length (enc v) = width"
    and dec_enc: "good v \<Longrightarrow> dec (enc v) = v"
begin

lemma decode_extend:
  assumes "list_all good vs"
  shows "decode_be_into width (extend_be width [] vs enc) dec = vs"
proof -
  have "as_chunks width (concat (map enc vs)) = map enc vs"
    using width_pos enc_length by (intro as_chunks_concat) auto
  moreover have "map dec (map enc vs) = vs"
    using assms dec_enc by (induction vs) auto
  ultimately show ?thesis
    using width_pos by (simp add: extend_be_concat decode_be_into_def)
qed

lemma extend_length: "length (extend_be width out vs enc) = length out + width * length vs"
  using width_pos enc_length by (simp add: extend_be_concat length_concat comp_def sum_list_triv)

lemma decode_cells:
  assumes "list_all (list_all good) vss"
  shows "extend_be_cells width (map (\<lambda>vs. extend_be width [] vs enc) vss) dec out = out @ concat vss"
  using assms
proof (induction vss)
  case (Cons vs vss)
  have "map dec (as_chunks width (extend_be width [] vs enc)) = vs"
    using decode_extend [of vs] Cons.prems by (simp add: decode_be_into_def)
  then show ?case using Cons by (simp add: extend_be_cells_concat comp_def)
qed (simp add: extend_be_cells_concat)

end

section \<open>Integers of a plane's width\<close>

text \<open>The narrowing casts and \<^verbatim>\<open>to_be_bytes\<close>, and \<^verbatim>\<open>from_be_bytes\<close> widened to \<^verbatim>\<open>i64\<close>.\<close>

fun int_to_be :: "int_bitpix \<Rightarrow> int \<Rightarrow> bytes" where
  "int_to_be IU8 v = [word_of_int v]"
| "int_to_be II16 v = to_be16 (word_of_int v)"
| "int_to_be II32 v = to_be32 (word_of_int v)"
| "int_to_be II64 v = to_be64 (word_of_int v)"

fun int_from_be :: "int_bitpix \<Rightarrow> bytes \<Rightarrow> int" where
  "int_from_be IU8 bs = uint (hd bs)"
| "int_from_be II16 bs = sint (from_be16 bs)"
| "int_from_be II32 bs = sint (from_be32 bs)"
| "int_from_be II64 bs = sint (from_be64 bs)"

definition i64_to_be_into :: "int list \<Rightarrow> int_bitpix \<Rightarrow> bytes" where
  "i64_to_be_into vs bp = extend_be (int_elem_size bp) [] vs (int_to_be bp)"

definition be_to_i64_into :: "bytes \<Rightarrow> int_bitpix \<Rightarrow> int list" where
  "be_to_i64_into bs bp = decode_be_into (int_elem_size bp) bs (int_from_be bp)"

lemma sint_of_int_range:
  "- (2 ^ (LENGTH('a) - 1)) \<le> v \<Longrightarrow> v < 2 ^ (LENGTH('a) - 1) \<Longrightarrow> sint (word_of_int v :: 'a::len word) = v"
  by (simp add: signed_of_int signed_take_bit_int_eq_self_iff)

interpretation be_int: be_codec "int_elem_size bp" "int_to_be bp" "int_from_be bp" "in_width bp" for bp
proof unfold_locales
  show "0 < int_elem_size bp" by (cases bp) simp_all
  show "length (int_to_be bp v) = int_elem_size bp" for v by (cases bp) simp_all
  show "int_from_be bp (int_to_be bp v) = v" if "in_width bp v" for v
    using that by (cases bp) (simp_all add: sint_of_int_range uint_word_of_int)
qed

text \<open>C22: Integer samples in the range of a plane's width, narrowed to its big-endian bytes and widened
  back, are the same samples, and the buffer holds the width's bytes for each.\<close>

theorem i64_be_roundtrip:
  assumes "list_all (in_width bp) vs"
  shows "be_to_i64_into (i64_to_be_into vs bp) bp = vs
    \<and> length (i64_to_be_into vs bp) = int_elem_size bp * length vs"
  using be_int.decode_extend [OF assms] be_int.extend_length [of bp "[]" vs]
  by (simp add: i64_to_be_into_def be_to_i64_into_def)

lemma i64_be_roundtrip_witness:
  "be_to_i64_into (i64_to_be_into [-2, 258] II16) II16 = [-2, 258]
    \<and> length (i64_to_be_into [-2, 258] II16) = int_elem_size II16 * length [-2, 258 :: int]"
  by (rule i64_be_roundtrip) simp

section \<open>A heap cell of an image tile\<close>

text \<open>A \<^verbatim>\<open>VlaCell\<close>: the array's bytes, element count and element kind.\<close>

record vla_cell =
  cell_bytes :: bytes
  element_count :: nat
  element_type :: element_kind

definition cell_to_i64_into :: "vla_cell \<Rightarrow> int list fits_result" where
  "cell_to_i64_into cell =
     bind (ok_or (int_from_tform (element_type cell))
            (from_compressed_data_defect (CellElement Uncompressed (element_type cell))))
       (\<lambda>bp. Inr (be_to_i64_into (cell_bytes cell) bp))"

definition stream_cell :: "vla_cell \<Rightarrow> element_kind \<Rightarrow> bytes fits_result" where
  "stream_cell cell kind =
     (if element_type cell = kind then Inr (cell_bytes cell)
      else Inl (from_compressed_data_defect (CellElement Compressed (element_type cell))))"

end
