(* ===== verification/Table_Format.thy ===== *)
theory Table_Format
  imports Text Blocks Plane
begin

text \<open>
  The formats of a binary table's columns: the element kinds of \<^verbatim>\<open>src/bintable/element_kind.rs\<close>,
  the \<^verbatim>\<open>P\<close>/\<^verbatim>\<open>Q\<close> descriptors of \<^verbatim>\<open>src/bintable/descriptor\<close>, \<^verbatim>\<open>TFORMn\<close> of \<^verbatim>\<open>src/bintable/tform\<close>,
  \<^verbatim>\<open>TDIMn\<close> of \<^verbatim>\<open>src/bintable/tdim\<close>, the table extent and the character field. An \<^verbatim>\<open>i64\<close> that the
  descriptor reads is an \<open>int\<close>.
\<close>

section \<open>Element kinds\<close>

definition kind_from_code :: "char \<Rightarrow> element_kind option" where
  "kind_from_code c =
     (if c = CHR ''L'' then Some LogicalE else if c = CHR ''X'' then Some BitE
      else if c = CHR ''B'' then Some ByteE else if c = CHR ''I'' then Some I16E
      else if c = CHR ''J'' then Some I32E else if c = CHR ''K'' then Some I64E
      else if c = CHR ''A'' then Some CharacterE else if c = CHR ''E'' then Some F32E
      else if c = CHR ''D'' then Some F64E else if c = CHR ''C'' then Some C32E
      else if c = CHR ''M'' then Some C64E else None)"

fun kind_code :: "element_kind \<Rightarrow> char" where
  "kind_code LogicalE = CHR ''L''"
| "kind_code BitE = CHR ''X''"
| "kind_code ByteE = CHR ''B''"
| "kind_code I16E = CHR ''I''"
| "kind_code I32E = CHR ''J''"
| "kind_code I64E = CHR ''K''"
| "kind_code CharacterE = CHR ''A''"
| "kind_code F32E = CHR ''E''"
| "kind_code F64E = CHR ''D''"
| "kind_code C32E = CHR ''C''"
| "kind_code C64E = CHR ''M''"

fun kind_elem_size :: "element_kind \<Rightarrow> nat" where
  "kind_elem_size LogicalE = 1"
| "kind_elem_size BitE = 1"
| "kind_elem_size ByteE = 1"
| "kind_elem_size CharacterE = 1"
| "kind_elem_size I16E = 2"
| "kind_elem_size I32E = 4"
| "kind_elem_size F32E = 4"
| "kind_elem_size I64E = 8"
| "kind_elem_size F64E = 8"
| "kind_elem_size C32E = 8"
| "kind_elem_size C64E = 16"

definition payload_len :: "element_kind \<Rightarrow> nat \<Rightarrow> nat option" where
  "payload_len kind count =
     (if kind = BitE then Some ((count + 7) div 8) else checked_mul usize_max count (kind_elem_size kind))"

definition logical_from_byte :: "u8 \<Rightarrow> bool option" where
  "logical_from_byte b = (if b = 84 then Some True else if b = 70 then Some False else None)"

lemma kind_from_code_code [simp]: "kind_from_code (kind_code k) = Some k"
  by (cases k) (simp_all add: kind_from_code_def)

lemma kind_code_from_code: "kind_from_code c = Some k \<Longrightarrow> kind_code k = c"
  by (auto simp: kind_from_code_def split: if_splits)

lemma kind_code_alphabetic [simp]: "is_ascii_alphabetic (kind_code k)" "\<not> is_whitespace (kind_code k)"
  by (cases k; simp add: char_classes code_of_def)+

lemma kind_code_not_pq: "kind_code k \<noteq> CHR ''P''" "kind_code k \<noteq> CHR ''Q''"
  by (cases k; simp)+

section \<open>Descriptors\<close>

definition addressing :: "nat \<Rightarrow> nat \<Rightarrow> descriptor_width" where
  "addressing heap_len max_count =
     (if int heap_len > i32_max \<or> int max_count > i32_max then Q else P)"

fun width_bytes :: "descriptor_width \<Rightarrow> nat" where
  "width_bytes P = 8"
| "width_bytes Q = 16"

fun width_letter :: "descriptor_width \<Rightarrow> char" where
  "width_letter P = CHR ''P''"
| "width_letter Q = CHR ''Q''"

record pq_descriptor =
  pq_count :: nat
  pq_offset :: nat

definition pq_empty :: pq_descriptor where "pq_empty = \<lparr>pq_count = 0, pq_offset = 0\<rparr>"

definition nonnegative_field :: "descriptor_field \<Rightarrow> int \<Rightarrow> nat fits_result" where
  "nonnegative_field field v =
     (if v < 0 then Inl (InvalidPqDescriptor field v)
      else if v \<le> int usize_max then Inr (nat v) else Inl DataUnitOverflow)"

definition pq_decode :: "bytes \<Rightarrow> descriptor_width \<Rightarrow> pq_descriptor fits_result" where
  "pq_decode bs width =
     (if length bs \<noteq> width_bytes width then Inl (mismatch Bytes (width_bytes width) (length bs))
      else
        let (count, offset) =
              (case width of
                 Q \<Rightarrow> (sint (from_be64 (take 8 bs)), sint (from_be64 (drop 8 bs)))
               | P \<Rightarrow> (sint (from_be32 (take 4 bs)), sint (from_be32 (drop 4 bs))))
        in bind (nonnegative_field CountField count) (\<lambda>count.
           bind (if count = 0 then Inr 0 else nonnegative_field OffsetField offset) (\<lambda>offset.
             Inr \<lparr>pq_count = count, pq_offset = offset\<rparr>)))"

datatype descriptor_integers = PInts u32 u32 | QInts u64 u64

definition pq_integers :: "pq_descriptor \<Rightarrow> descriptor_width \<Rightarrow> descriptor_integers fits_result" where
  "pq_integers d width =
     (let overflow = DescriptorOutOfRange width (pq_count d) (pq_offset d)
      in case width of
           P \<Rightarrow> (if int (pq_count d) \<le> i32_max \<and> int (pq_offset d) \<le> i32_max
                 then Inr (PInts (of_nat (pq_count d)) (of_nat (pq_offset d))) else Inl overflow)
         | Q \<Rightarrow> (if int (pq_count d) \<le> i64_max \<and> int (pq_offset d) \<le> i64_max
                 then Inr (QInts (of_nat (pq_count d)) (of_nat (pq_offset d))) else Inl overflow))"

definition pq_validate :: "pq_descriptor \<Rightarrow> descriptor_width \<Rightarrow> unit fits_result" where
  "pq_validate d width = bind (pq_integers d width) (\<lambda>_. Inr ())"

text \<open>The slot's bytes, all written.\<close>

definition pq_write :: "pq_descriptor \<Rightarrow> descriptor_width \<Rightarrow> bytes fits_result" where
  "pq_write d width =
     bind (pq_integers d width) (\<lambda>ints.
       Inr (case ints of
              PInts count offset \<Rightarrow> to_be32 count @ to_be32 offset
            | QInts count offset \<Rightarrow> to_be64 count @ to_be64 offset))"

definition heap_range :: "pq_descriptor \<Rightarrow> element_kind \<Rightarrow> nat \<Rightarrow> nat \<Rightarrow> (nat \<times> nat) option" where
  "heap_range d kind heap_start heap_end =
     (case payload_len kind (pq_count d) of
        None \<Rightarrow> None
      | Some byte_len \<Rightarrow>
          if byte_len = 0 then Some (heap_start, heap_start)
          else (case checked_add usize_max heap_start (pq_offset d) of
                  None \<Rightarrow> None
                | Some start \<Rightarrow>
                    (case checked_add usize_max start byte_len of
                       None \<Rightarrow> None
                     | Some stop \<Rightarrow> if stop \<le> heap_end then Some (start, stop) else None)))"

section \<open>TFORMn\<close>

datatype storage = FixedStorage | ArrayStorage descriptor_width

record tform =
  tf_repeat :: nat
  tf_element :: element_kind
  tf_storage :: storage

definition tform_code :: "tform \<Rightarrow> char" where
  "tform_code t = (case tf_storage t of FixedStorage \<Rightarrow> kind_code (tf_element t) | ArrayStorage w \<Rightarrow> width_letter w)"

definition tform_descriptor_width :: "tform \<Rightarrow> descriptor_width option" where
  "tform_descriptor_width t = (case tf_storage t of FixedStorage \<Rightarrow> None | ArrayStorage w \<Rightarrow> Some w)"

definition byte_width :: "tform \<Rightarrow> nat" where
  "byte_width t =
     (case tf_storage t of
        FixedStorage \<Rightarrow> (case payload_len (tf_element t) (tf_repeat t) of Some len \<Rightarrow> len | None \<Rightarrow> usize_max)
      | ArrayStorage w \<Rightarrow> tf_repeat t * width_bytes w)"

definition tform_parse :: "string \<Rightarrow> tform fits_result" where
  "tform_parse value =
     (let s = trim value; invalid = InvalidTform value
      in bind (ok_or (find_index is_ascii_alphabetic s) invalid) (\<lambda>pos.
         bind (if pos = 0 then Inr 1 else ok_or (parse_unsigned usize_max (take pos s)) invalid) (\<lambda>rep.
         bind (let c = s ! pos;
                   width = (if c = CHR ''P'' then Some P else if c = CHR ''Q'' then Some Q else None)
               in case width of
                    Some w \<Rightarrow>
                      (if rep > 1 then Inl invalid
                       else bind (ok_or (if pos + 1 < length s then Some (s ! (pos + 1)) else None) invalid) (\<lambda>code.
                            bind (ok_or (kind_from_code code) invalid) (\<lambda>kind. Inr (kind, ArrayStorage w))))
                  | None \<Rightarrow> bind (ok_or (kind_from_code c) invalid) (\<lambda>kind. Inr (kind, FixedStorage)))
           (\<lambda>(kind, st). Inr \<lparr>tf_repeat = rep, tf_element = kind, tf_storage = st\<rparr>))))"

definition tform_display :: "tform \<Rightarrow> string" where
  "tform_display t =
     (case tf_storage t of
        FixedStorage \<Rightarrow> show_nat (tf_repeat t) @ [kind_code (tf_element t)]
      | ArrayStorage w \<Rightarrow> show_nat (tf_repeat t) @ [width_letter w, kind_code (tf_element t)])"

section \<open>TDIMn\<close>

definition validate_shape :: "nat list \<Rightarrow> string \<Rightarrow> unit fits_result" where
  "validate_shape dims keyword =
     (if dims = [] \<or> 0 \<in> set dims then Inl (InvalidKeywordValue keyword RangeDefect) else Inr ())"

definition validate_extent :: "nat list \<Rightarrow> nat \<Rightarrow> string \<Rightarrow> unit fits_result" where
  "validate_extent dims element_count keyword =
     bind (ok_or (checked_product usize_max 1 dims) (InvalidKeywordValue keyword Structure)) (\<lambda>product.
       if product > element_count then Inl (InvalidKeywordValue keyword Structure) else Inr ())"

definition validate_vla_extent :: "nat list \<Rightarrow> nat \<Rightarrow> string \<Rightarrow> unit fits_result" where
  "validate_vla_extent dims element_count keyword =
     (if element_count = 0 then Inr () else validate_extent dims element_count keyword)"

definition validate_declared :: "nat list option \<Rightarrow> nat \<Rightarrow> string \<Rightarrow> unit fits_result" where
  "validate_declared shape element_count keyword =
     (case shape of
        None \<Rightarrow> Inr ()
      | Some dims \<Rightarrow> bind (validate_shape dims keyword) (\<lambda>_. validate_extent dims element_count keyword))"

definition validate_declared_vla :: "nat list option \<Rightarrow> nat \<Rightarrow> string \<Rightarrow> unit fits_result" where
  "validate_declared_vla shape element_count keyword =
     (case shape of
        None \<Rightarrow> Inr ()
      | Some dims \<Rightarrow> bind (validate_shape dims keyword) (\<lambda>_. validate_vla_extent dims element_count keyword))"

definition tdim_parse :: "string \<Rightarrow> string \<Rightarrow> nat list fits_result" where
  "tdim_parse value keyword =
     (let invalid = InvalidKeywordValue keyword Syntax
      in bind (ok_or (case strip_prefix ''('' (trim value) of
                        None \<Rightarrow> None | Some inner \<Rightarrow> strip_suffix '')'' inner) invalid) (\<lambda>inner.
         bind (collect_results (\<lambda>piece. ok_or (parse_unsigned usize_max (trim piece)) invalid)
                 (split_on (CHR '','') inner)) (\<lambda>dims.
         bind (validate_shape dims keyword) (\<lambda>_. Inr dims))))"

text \<open>The value the writer gives a shape's card: the axis lengths joined by commas, in brackets.\<close>

fun join_with :: "string \<Rightarrow> string list \<Rightarrow> string" where
  "join_with sep [] = []"
| "join_with sep [s] = s"
| "join_with sep (s # t # ts) = s @ sep @ join_with sep (t # ts)"

definition tdim_format :: "nat list \<Rightarrow> string" where
  "tdim_format dims = ''('' @ join_with '','' (map show_nat dims) @ '')''"

section \<open>The table's extent\<close>

record table_extent =
  te_row_count :: nat
  te_row_len :: nat
  te_heap_offset :: nat
  te_heap_end :: nat

text \<open>\<^verbatim>\<open>None\<close> is the panic of the assertion that the selection holds its rows.\<close>

definition compacted :: "table_extent \<Rightarrow> nat \<Rightarrow> nat \<Rightarrow> table_extent option" where
  "compacted te row_count data_len =
     (let heap_offset = row_count * te_row_len te
      in if heap_offset \<le> data_len
         then Some \<lparr>te_row_count = row_count, te_row_len = te_row_len te, te_heap_offset = heap_offset,
                    te_heap_end = data_len\<rparr>
         else None)"

section \<open>Character fields\<close>

definition field_members :: "bytes \<Rightarrow> bytes" where
  "field_members bs = take (case find_index (\<lambda>b. b = 0) bs of None \<Rightarrow> length bs | Some i \<Rightarrow> i) bs"

definition field_is_null :: "bytes \<Rightarrow> bool" where
  "field_is_null bs = (case bs of [] \<Rightarrow> False | b # _ \<Rightarrow> b = 0)"

end
