(* ===== verification/Table_Format_Correct.thy ===== *)
theory Table_Format_Correct
  imports Table_Format
begin

text \<open>
  What the table formats promise: \<^verbatim>\<open>TFORMn\<close> and \<^verbatim>\<open>TDIMn\<close> values parse from their own text, a
  descriptor decodes from the bytes it writes, the descriptor width chosen for a heap holds every
  array of it, and a heap range stays in the heap.
\<close>

section \<open>TFORMn\<close>

definition tform_ok :: "tform \<Rightarrow> bool" where
  "tform_ok t \<longleftrightarrow> tf_repeat t \<le> usize_max \<and> (tf_storage t \<noteq> FixedStorage \<longrightarrow> tf_repeat t \<le> 1)"

lemma width_letter_alphabetic [simp]: "is_ascii_alphabetic (width_letter w)" "\<not> is_whitespace (width_letter w)"
  by (cases w; simp add: char_classes code_of_def)+

lemma show_nat_not_alphabetic: "c \<in> set (show_nat n) \<Longrightarrow> \<not> is_ascii_alphabetic c \<and> \<not> is_whitespace c"
  using show_nat_digits [of c n] by auto

lemma trim_show_nat:
  "list_all (\<lambda>c. \<not> is_whitespace c) s \<Longrightarrow> trim (show_nat n @ s) = show_nat n @ s"
  using show_nat_not_alphabetic by (intro trim_no_space) (auto simp: list_all_iff)

lemma find_letter:
  "is_ascii_alphabetic c \<Longrightarrow> find_index is_ascii_alphabetic (show_nat n @ c # s) = Some (length (show_nat n))"
  using show_nat_not_alphabetic by (intro find_index_append) auto

lemma tform_parse_fixed:
  assumes "n \<le> usize_max"
  shows "tform_parse (show_nat n @ [kind_code k]) = Inr \<lparr>tf_repeat = n, tf_element = k, tf_storage = FixedStorage\<rparr>"
  using assms by (simp add: tform_parse_def Let_def trim_show_nat find_letter parse_show_nat kind_code_not_pq)

lemma tform_parse_array:
  assumes "n \<le> 1"
  shows "tform_parse (show_nat n @ [width_letter w, kind_code k])
    = Inr \<lparr>tf_repeat = n, tf_element = k, tf_storage = ArrayStorage w\<rparr>"
proof -
  have "n \<le> usize_max" using assms by (simp add: usize_max_def)
  moreover have "find_index is_ascii_alphabetic (show_nat n @ [width_letter w, kind_code k]) = Some (length (show_nat n))"
    by (rule find_letter) simp
  moreover have "trim (show_nat n @ [width_letter w, kind_code k]) = show_nat n @ [width_letter w, kind_code k]"
    by (rule trim_show_nat) simp
  ultimately show ?thesis using assms
    by (cases w) (simp_all add: tform_parse_def Let_def parse_show_nat nth_append)
qed

lemma tform_parse_ok:
  assumes "tform_parse v = Inr t"
  shows "tform_ok t"
  using assms
  by (auto simp: tform_parse_def Let_def bind_eq_Inr ok_or_eq_Inr tform_ok_def usize_max_def
      dest!: parse_unsigned_bound split: if_splits option.splits)

text \<open>C24: A column format prints to a \<^verbatim>\<open>TFORMn\<close> value that parses back to it, and every value that parses
  gives a format in its bounds: an array column has at most one descriptor a row.\<close>

theorem tform_roundtrip:
  "tform_ok t \<longleftrightarrow> tform_parse (tform_display t) = Inr t"
proof
  assume ok: "tform_ok t"
  show "tform_parse (tform_display t) = Inr t"
  proof (cases "tf_storage t")
    case FixedStorage
    then show ?thesis
      using ok tform_parse_fixed [of "tf_repeat t" "tf_element t"]
      by (cases t) (simp add: tform_display_def tform_ok_def)
  next
    case (ArrayStorage w)
    then show ?thesis
      using ok tform_parse_array [of "tf_repeat t" w "tf_element t"]
      by (cases t) (simp add: tform_display_def tform_ok_def)
  qed
next
  assume "tform_parse (tform_display t) = Inr t"
  then show "tform_ok t"
    by (rule tform_parse_ok)
qed


section \<open>Descriptors\<close>

lemma sint_of_nat: "int n < 2 ^ (LENGTH('a) - 1) \<Longrightarrow> sint (of_nat n :: 'a::len word) = int n"
  by (simp add: signed_of_nat signed_take_bit_int_eq_self_iff) (meson neg_le_0_iff_le of_nat_0_le_iff order_trans zero_le_numeral zero_le_power)

lemma sint_of_nat32: "int n \<le> i32_max \<Longrightarrow> sint (of_nat n :: u32) = int n"
  by (rule sint_of_nat) (simp add: i32_max_def)

lemma sint_of_nat64: "int n \<le> i64_max \<Longrightarrow> sint (of_nat n :: u64) = int n"
  by (rule sint_of_nat) (simp add: i64_max_def)

lemma nonnegative_field_nat: "int n \<le> i64_max \<Longrightarrow> nonnegative_field f (int n) = Inr n"
  by (simp add: nonnegative_field_def i64_max_def usize_max_def)

lemma i32_le_i64: "v \<le> i32_max \<Longrightarrow> v \<le> i64_max"
  by (simp add: i32_max_def i64_max_def)

text \<open>C26: A descriptor written for a width decodes from its bytes; of an array of no elements the offset,
  which has no meaning, decodes as 0.\<close>

theorem pq_roundtrip:
  assumes "pq_write d width = Inr slot"
  shows "length slot = width_bytes width
    \<and> pq_decode slot width = Inr (if pq_count d = 0 then pq_empty else d)"
proof (cases width)
  case P
  then have b: "int (pq_count d) \<le> i32_max" "int (pq_offset d) \<le> i32_max"
    and s: "slot = to_be32 (of_nat (pq_count d)) @ to_be32 (of_nat (pq_offset d))"
    using assms by (auto simp: pq_write_def pq_integers_def Let_def bind_eq_Inr split: if_split_asm)
  show ?thesis
    using P b by (cases d) (simp add: s pq_decode_def sint_of_nat32 nonnegative_field_nat i32_le_i64 pq_empty_def)
next
  case Q
  then have b: "int (pq_count d) \<le> i64_max" "int (pq_offset d) \<le> i64_max"
    and s: "slot = to_be64 (of_nat (pq_count d)) @ to_be64 (of_nat (pq_offset d))"
    using assms by (auto simp: pq_write_def pq_integers_def Let_def bind_eq_Inr split: if_split_asm)
  show ?thesis
    using Q b by (cases d) (simp add: s pq_decode_def sint_of_nat64 nonnegative_field_nat pq_empty_def)
qed

lemma pq_roundtrip_witness:
  "length [0, 0, 0, 3, 0, 0, 1, 0 :: u8] = width_bytes P
    \<and> pq_decode [0, 0, 0, 3, 0, 0, 1, 0] P
      = Inr (if pq_count \<lparr>pq_count = 3, pq_offset = 256\<rparr> = 0 then pq_empty else \<lparr>pq_count = 3, pq_offset = 256\<rparr>)"
  by (rule pq_roundtrip) code_simp

text \<open>C27: The width that a heap's length and its longest array choose writes the descriptor of every array
  of the heap.\<close>

theorem addressing_sufficient:
  assumes "int heap_len \<le> i64_max" and "int max_count \<le> i64_max"
    and "pq_count d \<le> max_count" and "pq_offset d \<le> heap_len"
  shows "pq_validate d (addressing heap_len max_count) = Inr ()"
  using assms by (auto simp: pq_validate_def pq_integers_def addressing_def Let_def)

lemma addressing_sufficient_witness:
  "pq_validate \<lparr>pq_count = 4, pq_offset = 3000000000\<rparr> (addressing 3000000000 4) = Inr ()"
  by (rule addressing_sufficient) (simp_all add: i64_max_def)

text \<open>C28: A descriptor's range of bytes lies in the heap and is as long as its elements; when the
  descriptor leaves the heap, or its length or its end overflows, there is no range.\<close>

theorem heap_range_meaning:
  assumes "heap_start \<le> heap_end" and "heap_end \<le> usize_max"
  shows "(case heap_range d kind heap_start heap_end of
      Some (a, b) \<Rightarrow> heap_start \<le> a \<and> a \<le> b \<and> b \<le> heap_end \<and> payload_len kind (pq_count d) = Some (b - a)
        \<and> (a < b \<longrightarrow> a = heap_start + pq_offset d)
    | None \<Rightarrow> (case payload_len kind (pq_count d) of
        Some len \<Rightarrow> 0 < len \<and> heap_end < heap_start + pq_offset d + len
      | None \<Rightarrow> True))"
  using assms
  by (auto simp: heap_range_def checked_add_def split: option.splits prod.splits if_splits)

lemma heap_range_meaning_witness:
  "(case heap_range \<lparr>pq_count = 4, pq_offset = 6\<rparr> I16E 100 120 of
      Some (a, b) \<Rightarrow> 100 \<le> a \<and> a \<le> b \<and> b \<le> 120 \<and> payload_len I16E (pq_count \<lparr>pq_count = 4, pq_offset = 6\<rparr>) = Some (b - a)
        \<and> (a < b \<longrightarrow> a = 100 + pq_offset \<lparr>pq_count = 4, pq_offset = 6\<rparr>)
    | None \<Rightarrow> (case payload_len I16E (pq_count \<lparr>pq_count = 4, pq_offset = 6\<rparr>) of
        Some len \<Rightarrow> 0 < len \<and> 120 < 100 + pq_offset \<lparr>pq_count = 4, pq_offset = 6\<rparr> + len
      | None \<Rightarrow> True))"
  by (rule heap_range_meaning) (simp_all add: usize_max_def)

section \<open>TDIMn\<close>

lemma show_nat_no_comma: "CHR '','' \<notin> set (show_nat n)"
proof
  assume "CHR '','' \<in> set (show_nat n)"
  then have "is_ascii_digit (CHR '','')" using show_nat_all_digits [of n] by (simp add: list_all_iff)
  then show False by (simp add: is_ascii_digit_def code_of_def)
qed

lemma trim_show_nat_alone [simp]: "trim (show_nat n) = show_nat n"
  using show_nat_not_alphabetic by (intro trim_no_space) auto

lemma split_join:
  assumes "ss \<noteq> []" and "list_all (\<lambda>s. c \<notin> set s) ss"
  shows "split_on c (join_with [c] ss) = ss"
  using assms
proof (induction ss)
  case (Cons s ss)
  then show ?case by (cases ss) (simp_all add: split_on_no_sep split_on_append)
qed simp

lemma collect_parsed:
  assumes "list_all (\<lambda>n. n \<le> bound) ns"
  shows "collect_results (\<lambda>piece. ok_or (parse_unsigned bound (trim piece)) e) (map show_nat ns) = Inr ns"
  using assms by (induction ns) (simp_all add: parse_show_nat)

lemma trim_bracketed: "trim (CHR ''('' # s @ [CHR '')'']) = CHR ''('' # s @ [CHR '')'']"
  by (rule trim_id) (simp add: is_whitespace_def code_of_def)

text \<open>C29: The shape the writer puts in a \<^verbatim>\<open>TDIMn\<close> card reads back as the same axis lengths exactly when it
  is a shape: at least one axis, and no zero length.\<close>

theorem tdim_roundtrip:
  assumes "list_all (\<lambda>n. n \<le> usize_max) dims"
  shows "tdim_parse (tdim_format dims) keyword
    = (if dims = [] then Inl (InvalidKeywordValue keyword Syntax)
       else if 0 \<in> set dims then Inl (InvalidKeywordValue keyword RangeDefect) else Inr dims)"
proof -
  have inner: "(case strip_prefix ''('' (trim (tdim_format dims)) of
      None \<Rightarrow> None | Some inner \<Rightarrow> strip_suffix '')'' inner) = Some (join_with '','' (map show_nat dims))"
    using strip_suffix_append [of "'')''"] by (simp add: tdim_format_def trim_bracketed)
  show ?thesis
  proof (cases "dims = []")
    case True
    then have "trim (tdim_format dims) = ''()''" by (simp add: tdim_format_def trim_bracketed [of "[]", simplified])
    then show ?thesis using True by (simp add: tdim_parse_def Let_def strip_suffix_def trim_def trim_start_def trim_end_def parse_unsigned_def)
  next
    case False
    then have "split_on (CHR '','') (join_with '','' (map show_nat dims)) = map show_nat dims"
      by (intro split_join) (auto simp: list_all_iff show_nat_no_comma)
    then show ?thesis
      unfolding tdim_parse_def Let_def inner using False assms
      by (simp add: collect_parsed validate_shape_def)
  qed
qed

lemma tdim_roundtrip_witness:
  "tdim_parse (tdim_format [12, 3]) ''TDIM2''
    = (if [12, 3 :: nat] = [] then Inl (InvalidKeywordValue ''TDIM2'' Syntax)
       else if 0 \<in> set [12, 3 :: nat] then Inl (InvalidKeywordValue ''TDIM2'' RangeDefect) else Inr [12, 3])"
  by (rule tdim_roundtrip) (simp add: usize_max_def)

text \<open>C30: A declared shape is accepted exactly when it has axes of positive length whose product, computed
  without wrapping, is no more than the elements of the cell.\<close>

theorem validate_declared_iff:
  "validate_declared (Some dims) element_count keyword = Inr () \<longleftrightarrow>
     dims \<noteq> [] \<and> 0 \<notin> set dims \<and> prod_list dims \<le> min element_count usize_max"
proof (cases "dims = [] \<or> 0 \<in> set dims")
  case False
  have "checked_product usize_max 1 dims = Some (prod_list dims) \<longleftrightarrow> prod_list dims \<le> usize_max"
    using False checked_product_complete [of 1 dims usize_max] checked_product_bound [of usize_max 1 dims]
    by (auto simp: usize_max_def)
  moreover have "checked_product usize_max 1 dims = Some p \<Longrightarrow> p = prod_list dims" for p
    using checked_product_value [of usize_max 1 dims p] by simp
  ultimately show ?thesis
    using False
    by (cases "checked_product usize_max 1 dims")
       (auto simp: validate_declared_def validate_shape_def validate_extent_def)
qed (auto simp: validate_declared_def validate_shape_def)

end
