(* ===== verification/Header_Names.thy ===== *)
theory Header_Names
  imports Text Fits_Types
begin

text \<open>
  The names of header records: \<^verbatim>\<open>src/inline_name.rs\<close>, \<^verbatim>\<open>src/keyword.rs\<close>, \<^verbatim>\<open>src/blank.rs\<close> and
  \<^verbatim>\<open>commentary_name.rs\<close>, \<^verbatim>\<open>hierarch_name.rs\<close>, \<^verbatim>\<open>record_name.rs\<close>, \<^verbatim>\<open>keywords.rs\<close> of
  \<^verbatim>\<open>src/header_model\<close>. Outside the inline storage a name is its text. \<^verbatim>\<open>HierarchName\<close>s are equal
  without regard to case, so a map keyed by one is keyed by \<open>hierarch_key\<close>.
\<close>

section \<open>Blanks\<close>

definition is_blank :: "char \<Rightarrow> bool" where
  "is_blank c = (c = CHR '' '' \<or> (9 \<le> code_of c \<and> code_of c \<le> 13))"

text \<open>\<^verbatim>\<open>position\<close> and \<^verbatim>\<open>rposition\<close> of the first and last byte that is no blank.\<close>

definition rfind_index :: "('a \<Rightarrow> bool) \<Rightarrow> 'a list \<Rightarrow> nat option" where
  "rfind_index p xs = map_option (\<lambda>i. length xs - 1 - i) (find_index p (rev xs))"

definition blank_trim :: "string \<Rightarrow> string" where
  "blank_trim s =
     (let start = (case find_index (\<lambda>c. \<not> is_blank c) s of Some i \<Rightarrow> i | None \<Rightarrow> length s);
          stop = (case rfind_index (\<lambda>c. \<not> is_blank c) s of Some i \<Rightarrow> i + 1 | None \<Rightarrow> start)
      in drop start (take stop s))"

section \<open>Inline names\<close>

record inline_name =
  in_bytes :: string
  in_len :: nat

datatype name_rule = KeywordRule | CommentaryRule

definition inline_empty :: inline_name where
  "inline_empty = \<lparr>in_bytes = replicate 8 (char_of (0::nat)), in_len = 0\<rparr>"

fun rule_allows :: "name_rule \<Rightarrow> char \<Rightarrow> bool" where
  "rule_allows KeywordRule c = (is_ascii_uppercase c \<or> is_ascii_digit c \<or> c = CHR ''-'' \<or> c = CHR ''_'')"
| "rule_allows CommentaryRule c = is_printable c"

fun rule_edges :: "name_rule \<Rightarrow> string \<Rightarrow> bool" where
  "rule_edges KeywordRule name = (name \<noteq> [])"
| "rule_edges CommentaryRule name = (name = [] \<or> last name \<noteq> CHR '' '')"

definition admits :: "name_rule \<Rightarrow> string \<Rightarrow> bool" where
  "admits rule name =
     (if 8 < length name then False
      else if \<not> rule_edges rule name then False
      else list_all (rule_allows rule) name)"

text \<open>Bytes copied over a slot.\<close>

definition overwrite :: "'a list \<Rightarrow> nat \<Rightarrow> 'a list \<Rightarrow> 'a list" where
  "overwrite xs at ys = take at xs @ ys @ drop (at + length ys) xs"

definition inline_checked :: "string \<Rightarrow> name_rule \<Rightarrow> inline_name option" where
  "inline_checked name rule =
     (if admits rule name
      then Some \<lparr>in_bytes = overwrite (in_bytes inline_empty) 0 name, in_len = length name\<rparr>
      else None)"

definition inline_write :: "inline_name \<Rightarrow> string \<Rightarrow> inline_name option" where
  "inline_write n s =
     (let start = in_len n; stop = start + length s
      in if stop > length (in_bytes n) then None
         else Some \<lparr>in_bytes = overwrite (in_bytes n) start s, in_len = stop\<rparr>)"

text \<open>The pieces a format writes, one after another.\<close>

fun inline_write_all :: "inline_name \<Rightarrow> string list \<Rightarrow> inline_name option" where
  "inline_write_all n [] = Some n"
| "inline_write_all n (s # ss) =
     (case inline_write n s of None \<Rightarrow> None | Some m \<Rightarrow> inline_write_all m ss)"

definition inline_formatted :: "string list \<Rightarrow> inline_name option" where
  "inline_formatted pieces = inline_write_all inline_empty pieces"

definition inline_str :: "inline_name \<Rightarrow> string" where
  "inline_str n = take (in_len n) (in_bytes n)"

section \<open>Keywords\<close>

type_synonym keyword = string

definition keyword_checked :: "string \<Rightarrow> keyword option" where
  "keyword_checked name = map_option inline_str (inline_checked name KeywordRule)"

definition keyword_try_from :: "string \<Rightarrow> keyword fits_result" where
  "keyword_try_from name = ok_or (keyword_checked name) (InvalidKeyword name)"

definition keyword_from_format :: "string list \<Rightarrow> keyword fits_result" where
  "keyword_from_format pieces =
     (case inline_formatted pieces of
        None \<Rightarrow> Inl (InvalidKeyword (concat pieces))
      | Some formatted \<Rightarrow> keyword_try_from (inline_str formatted))"

definition keyword_indexed :: "keyword \<Rightarrow> nat \<Rightarrow> keyword fits_result" where
  "keyword_indexed root index = keyword_from_format [root, show_nat index]"

text \<open>\<^verbatim>\<open>fitting\<close>: the outer \<open>None\<close> is its panic, for a pattern that spells no keyword.\<close>

definition keyword_fitting :: "string list \<Rightarrow> keyword option option" where
  "keyword_fitting pieces =
     (case inline_formatted pieces of
        None \<Rightarrow> Some None
      | Some formatted \<Rightarrow> map_option Some (keyword_checked (inline_str formatted)))"

definition index_after :: "keyword \<Rightarrow> keyword \<Rightarrow> nat option" where
  "index_after k root =
     (case strip_prefix root k of
        None \<Rightarrow> None
      | Some suffix \<Rightarrow>
          if suffix = [] \<or> hd suffix = CHR ''0'' \<or> \<not> list_all is_ascii_digit suffix then None
          else parse_unsigned usize_max suffix)"

section \<open>Commentary and HIERARCH names\<close>

definition commentary_checked :: "string \<Rightarrow> string option" where
  "commentary_checked name = map_option inline_str (inline_checked name CommentaryRule)"

definition commentary_try_from :: "string \<Rightarrow> string fits_result" where
  "commentary_try_from name = ok_or (commentary_checked name) (InvalidKeyword name)"

text \<open>The whitespace of \<^verbatim>\<open>split_ascii_whitespace\<close>, which leaves out the vertical tab.\<close>

definition is_ascii_whitespace :: "char \<Rightarrow> bool" where
  "is_ascii_whitespace c = (code_of c \<in> {9, 10, 12, 13, 32})"

definition is_ascii_graphic :: "char \<Rightarrow> bool" where
  "is_ascii_graphic c = (33 \<le> code_of c \<and> code_of c \<le> 126)"

function words_of :: "string \<Rightarrow> string list" where
  "words_of s =
     (case dropWhile is_ascii_whitespace s of
        [] \<Rightarrow> []
      | c # cs \<Rightarrow> (c # takeWhile (\<lambda>c. \<not> is_ascii_whitespace c) cs)
                 # words_of (dropWhile (\<lambda>c. \<not> is_ascii_whitespace c) cs))"
  by pat_completeness auto
termination
proof (relation "measure length")
  fix s c cs
  assume d: "dropWhile is_ascii_whitespace s = c # cs"
  have "length (dropWhile (\<lambda>c. \<not> is_ascii_whitespace c) cs) < length (c # cs)"
    using length_dropWhile_le [of _ cs] by (simp add: le_imp_less_Suc)
  also have "\<dots> \<le> length s" using d length_dropWhile_le [of is_ascii_whitespace s] by simp
  finally show "(dropWhile (\<lambda>c. \<not> is_ascii_whitespace c) cs, s) \<in> measure length" by simp
qed simp

declare words_of.simps [simp del]

fun push_tokens :: "string \<Rightarrow> string list \<Rightarrow> string option" where
  "push_tokens name [] = Some name"
| "push_tokens name (token # tokens) =
     (if list_all (\<lambda>c. is_ascii_graphic c \<and> c \<noteq> CHR ''='') token
      then push_tokens ((if name = [] then [] else name @ '' '') @ token) tokens
      else None)"

definition hierarch_from_str :: "string \<Rightarrow> string fits_result" where
  "hierarch_from_str text =
     (case push_tokens [] (words_of text) of
        None \<Rightarrow> Inl (InvalidKeyword text)
      | Some name \<Rightarrow> if name = [] then Inl (InvalidKeyword text) else Inr name)"

definition hierarch_key :: "string \<Rightarrow> string" where "hierarch_key name = map to_upper name"

definition hierarch_eq :: "string \<Rightarrow> string \<Rightarrow> bool" where
  "hierarch_eq a b = (hierarch_key a = hierarch_key b)"

section \<open>Record names\<close>

definition record_name_from_str :: "string \<Rightarrow> record_name fits_result" where
  "record_name_from_str name =
     (case strip_prefix ''HIERARCH '' name of
        Some hierarch \<Rightarrow>
          (case hierarch_from_str hierarch of
             Inl _ \<Rightarrow> Inl (InvalidKeyword name)
           | Inr h \<Rightarrow> Inr (HierarchName h))
      | None \<Rightarrow> bind (keyword_try_from name) (\<lambda>k. Inr (KeywordName k)))"

fun record_name_display :: "record_name \<Rightarrow> string" where
  "record_name_display (KeywordName k) = k"
| "record_name_display (HierarchName h) = ''HIERARCH '' @ h"
| "record_name_display (CommentaryName c) = c"

definition validate_valued_keyword :: "keyword \<Rightarrow> unit fits_result" where
  "validate_valued_keyword k =
     (if k \<in> {''END'', ''CONTINUE'', ''COMMENT'', ''HISTORY''} then Inl (ReservedName (KeywordName k)) else Inr ())"

fun validate_valued :: "record_name \<Rightarrow> unit fits_result" where
  "validate_valued (KeywordName k) = validate_valued_keyword k"
| "validate_valued (HierarchName h) = Inr ()"
| "validate_valued (CommentaryName c) = Inl (ReservedName (CommentaryName c))"

section \<open>Lemmas\<close>

lemma length_overwrite [simp]: "at + length ys \<le> length xs \<Longrightarrow> length (overwrite xs at ys) = length xs"
  by (simp add: overwrite_def)

lemma inline_str_checked [simp]:
  "map_option inline_str (inline_checked name rule) = (if admits rule name then Some name else None)"
  by (simp add: inline_checked_def inline_str_def overwrite_def)

lemma keyword_checked_iff: "keyword_checked name = (if admits KeywordRule name then Some name else None)"
  by (simp add: keyword_checked_def)

lemma commentary_checked_iff: "commentary_checked name = (if admits CommentaryRule name then Some name else None)"
  by (simp add: commentary_checked_def)

definition inline_ok :: "inline_name \<Rightarrow> bool" where
  "inline_ok n \<longleftrightarrow> length (in_bytes n) = 8 \<and> in_len n \<le> 8"

lemma inline_write_str:
  assumes "inline_ok n"
  shows "inline_write n s = None \<longleftrightarrow> 8 < length (inline_str n @ s)"
    and "inline_write n s = Some m \<Longrightarrow> inline_ok m \<and> inline_str m = inline_str n @ s"
  using assms by (auto simp: inline_write_def inline_ok_def inline_str_def overwrite_def Let_def split: if_split_asm)

lemma inline_write_all_str:
  assumes "inline_ok n"
  shows "inline_write_all n ss = None \<longleftrightarrow> 8 < length (inline_str n @ concat ss)"
    and "inline_write_all n ss = Some m \<Longrightarrow> inline_str m = inline_str n @ concat ss"
  using assms
proof (induction ss arbitrary: n)
  case Nil
  { case 1 then show ?case by (simp add: inline_ok_def inline_str_def) }
  { case 2 then show ?case by simp }
next
  case (Cons s ss)
  { case 1
    show ?case
    proof (cases "inline_write n s")
      case None
      then show ?thesis using inline_write_str(1) [OF "1", of s] by simp
    next
      case (Some m')
      then show ?thesis using inline_write_str(2) [OF "1" Some] Cons(1) [of m'] by simp
    qed }
  { case 2
    then obtain m' where m': "inline_write n s = Some m'" by (cases "inline_write n s") auto
    then show ?case using inline_write_str(2) [OF 2(2) m'] Cons(2) [of m'] 2 by simp }
qed

lemma inline_empty_ok [simp]: "inline_ok inline_empty" "inline_str inline_empty = []"
  by (simp_all add: inline_ok_def inline_empty_def inline_str_def)

lemma inline_formatted_str:
  "map_option inline_str (inline_formatted pieces) = (if 8 < length (concat pieces) then None else Some (concat pieces))"
  using inline_write_all_str [of inline_empty pieces]
  by (cases "inline_write_all inline_empty pieces") (auto simp: inline_formatted_def)

end
