(* ===== verification/Float64.thy ===== *)
theory Float64
  imports Text
begin

text \<open>
  The 64-bit floating-point numbers as the code uses them: an \<^verbatim>\<open>f64\<close> is its bits. The magnitude of a
  finite one is its bits without the sign, the \<open>code\<close>, which counts the representable magnitudes in
  order; \<open>units\<close> is the magnitude in units of the smallest one, \<open>2 ^ -1074\<close>, so every finite value is a
  whole number of units. \<open>round_ratio\<close> is the IEEE 754 rounding of a ratio of naturals to the nearest
  code, ties to even. On it rest \<^verbatim>\<open>str::parse::<f64>\<close>, \<^verbatim>\<open>Display\<close> and \<^verbatim>\<open>UpperExp\<close> of the standard
  library: the shortest decimal that parses back to the number, the nearest one of that length.
\<close>

type_synonym f64 = u64

definition f64_code :: "f64 \<Rightarrow> nat" where "f64_code x = unat x mod 2 ^ 63"

definition f64_negative :: "f64 \<Rightarrow> bool" where "f64_negative x = (2 ^ 63 \<le> unat x)"

definition f64_of_code :: "bool \<Rightarrow> nat \<Rightarrow> f64" where
  "f64_of_code negative code = of_nat ((if negative then 2 ^ 63 else 0) + code)"

text \<open>The code of infinity; the codes above it are not numbers.\<close>

definition inf_code :: nat where "inf_code = 2047 * 2 ^ 52"

definition is_finite :: "f64 \<Rightarrow> bool" where "is_finite x = (f64_code x < inf_code)"

definition is_nan :: "f64 \<Rightarrow> bool" where "is_nan x = (inf_code < f64_code x)"

definition units :: "nat \<Rightarrow> nat" where
  "units code = (if code < 2 ^ 52 then code
                 else (2 ^ 52 + code mod 2 ^ 52) * 2 ^ (code div 2 ^ 52 - 1))"

section \<open>Rounding\<close>

fun bit_len :: "nat \<Rightarrow> nat" where
  "bit_len n = (if n = 0 then 0 else Suc (bit_len (n div 2)))"

declare bit_len.simps [simp del]

definition round_half_even :: "nat \<Rightarrow> nat \<Rightarrow> nat" where
  "round_half_even n d =
     (let q = n div d; r = n mod d
      in if 2 * r < d \<or> (2 * r = d \<and> even q) then q else q + 1)"

text \<open>One, in units.\<close>

definition unit_exp :: nat where "unit_exp = 1074"

definition unit_den :: nat where "unit_den = 2 ^ unit_exp"

definition round_ratio :: "nat \<Rightarrow> nat \<Rightarrow> nat" where
  "round_ratio n d =
     (let e = bit_len (n * unit_den div d) - 53
      in min inf_code (e * 2 ^ 52 + round_half_even (n * unit_den) (d * 2 ^ e)))"

lemma unit_den_pos [simp]: "0 < unit_den"
  by (simp add: unit_den_def)

lemma bit_len_le_iff: "bit_len n \<le> k \<longleftrightarrow> n < 2 ^ k"
proof (induction n arbitrary: k rule: bit_len.induct)
  case (1 n)
  show ?case
  proof (cases "n = 0")
    case False
    then show ?thesis
    proof (cases k)
      case (Suc j)
      have "n div 2 < 2 ^ j \<longleftrightarrow> n < 2 ^ Suc j" by auto
      then show ?thesis using "1.IH" [OF False, of j] False Suc by (subst bit_len.simps) simp
    qed (simp add: bit_len.simps)
  qed (simp add: bit_len.simps)
qed

lemma bit_len_eq:
  assumes "2 ^ k \<le> n" and "n < 2 ^ Suc k"
  shows "bit_len n = Suc k"
  using assms bit_len_le_iff [of n "Suc k"] bit_len_le_iff [of n k] by auto

lemma round_half_even_exact [simp]: "0 < d \<Longrightarrow> round_half_even (q * d) d = q"
  by (simp add: round_half_even_def)

lemma round_half_even_scale:
  assumes "0 < c"
  shows "round_half_even (n * c) (d * c) = round_half_even n d"
proof -
  have "2 * (n mod d * c) < d * c \<longleftrightarrow> 2 * (n mod d) < d" "2 * (n mod d * c) = d * c \<longleftrightarrow> 2 * (n mod d) = d"
    using assms by (simp_all add: mult.assoc [symmetric] del: mult.assoc)
  then show ?thesis
    using assms by (simp add: round_half_even_def Let_def flip: mult_mod_left)
qed

lemma round_ratio_scale:
  assumes "0 < c"
  shows "round_ratio (n * c) (d * c) = round_ratio n d"
proof -
  have "n * c * unit_den = n * unit_den * c" by simp
  moreover have "d * c * 2 ^ e = d * 2 ^ e * c" for e :: nat by simp
  moreover have "n * unit_den * c div (d * c) = n * unit_den div d" using assms by simp
  ultimately show ?thesis
    by (simp only: round_ratio_def round_half_even_scale [OF assms])
qed

text \<open>A finite magnitude rounds to its own code.\<close>

lemma round_units:
  assumes "code < inf_code"
  shows "round_ratio (units code) unit_den = code"
proof -
  have u: "units code * unit_den div unit_den = units code" by simp
  show ?thesis
  proof (cases "code < 2 ^ 52")
    case True
    then have "bit_len (units code) \<le> 52" by (simp add: bit_len_le_iff units_def)
    then have "bit_len (units code) - 53 = 0" by simp
    then show ?thesis
      using assms True unfolding round_ratio_def u Let_def by (simp add: units_def)
  next
    case False
    define e where "e = code div 2 ^ 52 - 1"
    define f where "f = code mod 2 ^ 52"
    have f: "f < 2 ^ 52" by (simp add: f_def)
    have eu: "units code = (2 ^ 52 + f) * 2 ^ e" using False by (simp add: units_def e_def f_def)
    have "0 < code div 2 ^ 52" using False by (simp add: div_greater_zero_iff)
    then have "code = Suc e * 2 ^ 52 + f"
      using div_mult_mod_eq [of code "2 ^ 52"] by (simp only: e_def f_def Suc_pred' [symmetric])
    then have code: "code = e * 2 ^ 52 + (2 ^ 52 + f)" by simp
    have "(2::nat) ^ (52 + e) \<le> units code" by (simp only: eu power_add) simp
    moreover have "units code < (2::nat) ^ Suc (52 + e)"
    proof -
      have "(2 ^ 52 + f) * 2 ^ e < (2 ^ 52 + 2 ^ 52) * 2 ^ e" using f by (intro mult_strict_right_mono) auto
      then show ?thesis by (simp add: eu power_add)
    qed
    ultimately have "bit_len (units code) = Suc (52 + e)" by (rule bit_len_eq)
    then have b: "bit_len (units code) - 53 = e" by simp
    have "units code * unit_den = (2 ^ 52 + f) * (unit_den * 2 ^ e)" by (simp only: eu ac_simps)
    moreover have "0 < unit_den * 2 ^ e" by simp
    ultimately have "round_half_even (units code * unit_den) (unit_den * 2 ^ e) = 2 ^ 52 + f"
      by (simp only: round_half_even_exact)
    then show ?thesis
      using assms code unfolding round_ratio_def u Let_def b by simp
  qed
qed

text \<open>\<^verbatim>\<open>as f64\<close> of an integer, \<^verbatim>\<open>fract() == 0.0\<close>, and the whole part that \<^verbatim>\<open>as i64\<close> keeps.\<close>

definition f64_of_int :: "int \<Rightarrow> f64" where
  "f64_of_int v = f64_of_code (v < 0) (round_ratio (nat \<bar>v\<bar>) 1)"

definition f64_integral :: "f64 \<Rightarrow> bool" where
  "f64_integral x = (is_finite x \<and> units (f64_code x) mod unit_den = 0)"

definition f64_whole :: "f64 \<Rightarrow> int" where
  "f64_whole x = (let w = int (units (f64_code x) div unit_den) in if f64_negative x then - w else w)"

section \<open>Decimals\<close>

text \<open>A decimal is its digits, as a number, and its exponent of ten.\<close>

definition round_decimal :: "nat \<Rightarrow> int \<Rightarrow> nat" where
  "round_decimal d k =
     (if 0 \<le> k then round_ratio (d * 10 ^ nat k) 1 else round_ratio d (10 ^ nat (- k)))"

lemma round_decimal_ten: "round_decimal (d * 10) k = round_decimal d (k + 1)"
proof (cases "0 \<le> k")
  case True
  then show ?thesis by (simp add: round_decimal_def nat_add_distrib ac_simps)
next
  case False
  then have "nat (- k) = Suc (nat (- (k + 1)))" by simp
  then have e: "(10::nat) ^ nat (- k) = 10 ^ nat (- (k + 1)) * 10" by simp
  show ?thesis
  proof (cases "k = -1")
    case True
    then show ?thesis using round_ratio_scale [of 10 d 1] by (simp add: round_decimal_def)
  next
    case neg: False
    then show ?thesis
      using False e round_ratio_scale [of 10 d "10 ^ nat (- (k + 1))"] by (simp add: round_decimal_def)
  qed
qed

fun strip_zeros :: "nat \<Rightarrow> int \<Rightarrow> nat \<times> int" where
  "strip_zeros d k = (if d = 0 \<or> d mod 10 \<noteq> 0 then (d, k) else strip_zeros (d div 10) (k + 1))"

declare strip_zeros.simps [simp del]

lemma round_strip_zeros: "strip_zeros d k = (d', k') \<Longrightarrow> round_decimal d' k' = round_decimal d k"
proof (induction d k rule: strip_zeros.induct)
  case (1 d k)
  show ?case
  proof (cases "d = 0 \<or> d mod 10 \<noteq> 0")
    case True
    then show ?thesis using "1.prems" by (simp add: strip_zeros.simps [of d k])
  next
    case False
    then have "round_decimal d' k' = round_decimal (d div 10) (k + 1)"
      using 1 by (simp add: strip_zeros.simps [of d k])
    moreover have "d = d div 10 * 10" using False by auto
    ultimately show ?thesis using round_decimal_ten [of "d div 10" k] by simp
  qed
qed

text \<open>The place of a ratio's decimal point: the least \<open>p\<close> with \<open>n / d < 10 ^ p\<close>.\<close>

function lead_zeros :: "nat \<Rightarrow> nat \<Rightarrow> nat" where
  "lead_zeros n d = (if n = 0 \<or> d \<le> n * 10 then 0 else Suc (lead_zeros (n * 10) d))"
  by pat_completeness auto
termination by (relation "measure (\<lambda>(n, d). d - n)") auto

declare lead_zeros.simps [simp del]

definition dec_point :: "nat \<Rightarrow> nat \<Rightarrow> int" where
  "dec_point n d = (if d \<le> n then int (length (show_nat (n div d))) else - int (lead_zeros n d))"

text \<open>The decimal of \<open>len\<close> digits that rounds to the code: of the two beside the number, the nearer.\<close>

definition digits_at :: "nat \<Rightarrow> nat \<Rightarrow> (nat \<times> int) option" where
  "digits_at code len =
     (let k = dec_point (units code) unit_den - int len;
          (a, b) = (if 0 \<le> k then (units code, unit_den * 10 ^ nat k) else (units code * 10 ^ nat (- k), unit_den));
          lo = a div b;
          lo_ok = (round_decimal lo k = code);
          hi_ok = (round_decimal (lo + 1) k = code)
      in if lo_ok \<and> (\<not> hi_ok \<or> 2 * (a mod b) < b) then Some (lo, k)
         else if hi_ok then Some (lo + 1, k) else None)"

text \<open>17 digits tell every number from its neighbours; the list's end is the exact decimal.\<close>

fun shortest_digits :: "nat \<Rightarrow> nat list \<Rightarrow> nat \<times> int" where
  "shortest_digits code [] = (units code * 5 ^ unit_exp, - int unit_exp)"
| "shortest_digits code (len # lens) =
     (case digits_at code len of Some r \<Rightarrow> r | None \<Rightarrow> shortest_digits code lens)"

definition shortest :: "nat \<Rightarrow> nat \<times> int" where
  "shortest code = (let (d, k) = shortest_digits code [1..<18] in strip_zeros d k)"

lemma round_shortest:
  assumes "code < inf_code" and "shortest code = (d, k)"
  shows "round_decimal d k = code"
proof -
  have ten: "(10::nat) ^ unit_exp = unit_den * 5 ^ unit_exp"
    by (simp add: unit_den_def flip: power_mult_distrib)
  have "0 < unit_exp" by (simp add: unit_exp_def)
  then have exact: "round_decimal (units code * 5 ^ unit_exp) (- int unit_exp) = code"
    using round_ratio_scale [of "5 ^ unit_exp" "units code" unit_den] round_units [OF assms(1)]
    by (simp add: round_decimal_def ten)
  have at: "round_decimal d k = code" if "digits_at code len = Some (d, k)" for len d k
    using that by (auto simp: digits_at_def Let_def split: if_split_asm)
  have "round_decimal d k = code" if "shortest_digits code lens = (d, k)" for lens d k
    using that
  proof (induction lens)
    case Nil
    then show ?case using exact by simp
  next
    case (Cons len lens)
    then show ?case using at by (cases "digits_at code len") auto
  qed
  then show ?thesis
    using assms(2) round_strip_zeros by (cases "shortest_digits code [1..<18]") (simp add: shortest_def del: shortest_digits.simps)
qed

section \<open>Text\<close>

definition plain_decimal :: "nat \<Rightarrow> int \<Rightarrow> string" where
  "plain_decimal d k =
     (let s = show_nat d; f = nat (- k)
      in if 0 \<le> k then s @ replicate (nat k) (CHR ''0'')
         else if f < length s then take (length s - f) s @ CHR ''.'' # drop (length s - f) s
         else ''0.'' @ replicate (f - length s) (CHR ''0'') @ s)"

definition exp_decimal :: "nat \<Rightarrow> int \<Rightarrow> string" where
  "exp_decimal d k =
     (let s = show_nat d
      in hd s # (if tl s = [] then [] else CHR ''.'' # tl s) @ CHR ''E'' # show_int (k + int (length s) - 1))"

text \<open>\<^verbatim>\<open>Display\<close> and \<^verbatim>\<open>UpperExp\<close> of an \<^verbatim>\<open>f64\<close>.\<close>

definition f64_sign_text :: "f64 \<Rightarrow> string" where
  "f64_sign_text x = (if f64_negative x \<and> \<not> is_nan x then ''-'' else [])"

definition f64_text :: "(nat \<Rightarrow> int \<Rightarrow> string) \<Rightarrow> string \<Rightarrow> f64 \<Rightarrow> string" where
  "f64_text form zero x =
     f64_sign_text x
     @ (if is_nan x then ''NaN'' else if \<not> is_finite x then ''inf''
        else if f64_code x = 0 then zero
        else let (d, k) = shortest (f64_code x) in form d k)"

definition f64_display :: "f64 \<Rightarrow> string" where "f64_display = f64_text plain_decimal ''0''"

definition f64_upper_exp :: "f64 \<Rightarrow> string" where "f64_upper_exp = f64_text exp_decimal ''0E0''"

text \<open>\<^verbatim>\<open>str::parse::<f64>\<close>: a sign, then digits with an optional point and exponent, or the words for
  infinity and not-a-number in any case.\<close>

definition split_digits :: "string \<Rightarrow> string \<times> string" where
  "split_digits s = (takeWhile is_ascii_digit s, dropWhile is_ascii_digit s)"

definition parse_exponent :: "string \<Rightarrow> int option" where
  "parse_exponent s =
     (let (negative, ds) = (case s of [] \<Rightarrow> (False, s)
                            | c # cs \<Rightarrow> if c = CHR ''-'' then (True, cs) else if c = CHR ''+'' then (False, cs) else (False, s))
      in if ds = [] \<or> \<not> list_all is_ascii_digit ds then None
         else Some (if negative then - int (digits_val ds) else int (digits_val ds)))"

definition parse_number :: "string \<Rightarrow> (nat \<times> int) option" where
  "parse_number s =
     (let (whole, rest) = split_digits s;
          (fraction, rest) = (case rest of [] \<Rightarrow> ([], rest) | c # cs \<Rightarrow> if c = CHR ''.'' then split_digits cs else ([], rest));
          digits = digits_val (whole @ fraction);
          shift = int (length fraction)
      in if whole @ fraction = [] then None
         else case rest of
                [] \<Rightarrow> Some (digits, - shift)
              | c # cs \<Rightarrow> if c = CHR ''e'' \<or> c = CHR ''E'' then map_option (\<lambda>e. (digits, e - shift)) (parse_exponent cs)
                          else None)"

definition parse_word :: "string \<Rightarrow> nat option" where
  "parse_word s =
     (let u = map to_upper s
      in if u = ''INF'' \<or> u = ''INFINITY'' then Some inf_code
         else if u = ''NAN'' then Some (inf_code + 2 ^ 51) else None)"

definition parse_f64 :: "string \<Rightarrow> f64 option" where
  "parse_f64 s =
     (let (negative, t) = (case s of [] \<Rightarrow> (False, s)
                           | c # cs \<Rightarrow> if c = CHR ''-'' then (True, cs) else if c = CHR ''+'' then (False, cs) else (False, s))
      in map_option (f64_of_code negative)
           (case parse_number t of Some (d, k) \<Rightarrow> Some (round_decimal d k) | None \<Rightarrow> parse_word t))"

lemma split_digits_append:
  assumes "list_all is_ascii_digit a" and "b = [] \<or> \<not> is_ascii_digit (hd b)"
  shows "split_digits (a @ b) = (a, b)"
  using assms by (induction a) (cases b; auto simp: split_digits_def)+

lemma not_digit_marks [simp]: "\<not> is_ascii_digit (CHR ''.'')" "\<not> is_ascii_digit (CHR ''E'')"
    "is_ascii_digit (CHR ''0'')" "\<not> is_ascii_digit (CHR ''-'')" "\<not> is_ascii_digit (CHR ''+'')"
  by (simp_all add: is_ascii_digit_def code_of_def)

lemma digits_val_append: "digits_val (a @ b) = digits_val a * 10 ^ length b + digits_val b"
proof (induction b rule: rev_induct)
  case (snoc c b)
  then show ?case
    using digits_val_snoc [of "a @ b" c] digits_val_snoc [of b c] by (simp add: algebra_simps)
qed (simp add: digits_val_def)

lemma digits_val_zeros [simp]: "digits_val (replicate n (CHR ''0'')) = 0"
proof (induction n)
  case (Suc n)
  then show ?case
    using digits_val_snoc [of "replicate n (CHR ''0'')" "CHR ''0''"]
    by (simp add: replicate_append_same digit_val_def code_of_def)
qed (simp add: digits_val_def)

lemma parse_number_forms:
  assumes "list_all is_ascii_digit a" and "list_all is_ascii_digit b"
  shows "a \<noteq> [] \<Longrightarrow> parse_number a = Some (digits_val a, 0)"
    and "a @ b \<noteq> [] \<Longrightarrow> parse_number (a @ CHR ''.'' # b) = Some (digits_val (a @ b), - int (length b))"
    and "a \<noteq> [] \<Longrightarrow> parse_number (a @ CHR ''E'' # e) = map_option (\<lambda>e. (digits_val a, e)) (parse_exponent e)"
    and "a @ b \<noteq> [] \<Longrightarrow> parse_number (a @ CHR ''.'' # b @ CHR ''E'' # e)
      = map_option (\<lambda>e. (digits_val (a @ b), e - int (length b))) (parse_exponent e)"
  using assms split_digits_append [of a "[]"] split_digits_append [of a "CHR ''.'' # b"] split_digits_append [of b "[]"]
    split_digits_append [of a "CHR ''E'' # e"] split_digits_append [of b "CHR ''E'' # e"]
    split_digits_append [of a "CHR ''.'' # b @ CHR ''E'' # e"]
  by (auto simp: parse_number_def Let_def)

lemma parse_exponent_show: "parse_exponent (show_int v) = Some v"
proof (cases "v < 0")
  case True
  then show ?thesis
    using show_nat_all_digits digits_val_show_nat by (simp add: parse_exponent_def show_int_def)
next
  case False
  obtain d cs where h: "d < 10" "show_nat (nat v) = digit_char d # cs" using show_nat_hd by blast
  then show ?thesis
    using False show_nat_all_digits [of "nat v"] digits_val_show_nat [of "nat v"]
    by (simp add: parse_exponent_def show_int_def)
qed

lemma digits_drop: "list_all p s \<Longrightarrow> list_all p (take n s) \<and> list_all p (drop n s)"
  by (auto simp: list_all_iff dest: in_set_takeD in_set_dropD)

lemma parse_plain_decimal:
  "\<exists>d' k'. parse_number (plain_decimal d k) = Some (d', k') \<and> round_decimal d' k' = round_decimal d k"
proof -
  let ?s = "show_nat d" and ?f = "nat (- k)"
  note ds = show_nat_all_digits [of d] and dv = digits_val_show_nat [of d]
  have rep: "list_all is_ascii_digit (replicate n (CHR ''0''))" for n by (simp add: list_all_iff)
  consider (int) "0 \<le> k" | (mid) "k < 0" "?f < length ?s" | (low) "k < 0" "length ?s \<le> ?f" by linarith
  then show ?thesis
  proof cases
    case int
    have "parse_number (?s @ replicate (nat k) (CHR ''0'')) = Some (d * 10 ^ nat k, 0)"
      using parse_number_forms(1) [of "?s @ replicate (nat k) (CHR ''0'')" "[]"] ds rep
      by (simp add: digits_val_append dv)
    then show ?thesis using int by (simp add: plain_decimal_def round_decimal_def)
  next
    case mid
    then have "parse_number (take (length ?s - ?f) ?s @ CHR ''.'' # drop (length ?s - ?f) ?s) = Some (d, k)"
      using parse_number_forms(2) [of "take (length ?s - ?f) ?s" "drop (length ?s - ?f) ?s"] ds digits_drop [OF ds]
      by (simp add: dv)
    then show ?thesis using mid by (simp add: plain_decimal_def Let_def)
  next
    case low
    then have "parse_number (''0'' @ CHR ''.'' # replicate (?f - length ?s) (CHR ''0'') @ ?s) = Some (d, k)"
      using parse_number_forms(2) [of "''0''" "replicate (?f - length ?s) (CHR ''0'') @ ?s"] ds rep
        digits_val_append [of "CHR ''0'' # replicate (?f - length ?s) (CHR ''0'')" ?s]
        digits_val_zeros [of "Suc (?f - length ?s)"]
      by (simp add: dv)
    then show ?thesis using low by (simp add: plain_decimal_def Let_def)
  qed
qed

lemma parse_exp_decimal: "parse_number (exp_decimal d k) = Some (d, k)"
proof -
  let ?s = "show_nat d"
  obtain c cs where s: "?s = c # cs" by (cases ?s) (use show_nat_ne in auto)
  note ds = show_nat_all_digits [of d] and dv = digits_val_show_nat [of d]
  show ?thesis
  proof (cases "cs = []")
    case True
    then show ?thesis
      using parse_number_forms(3) [of "[c]" "[]" "show_int k"] ds dv s
      by (simp add: exp_decimal_def parse_exponent_show)
  next
    case False
    then show ?thesis
      using parse_number_forms(4) [of "[c]" cs "show_int (k + int (length cs))"] ds dv s
      by (simp add: exp_decimal_def parse_exponent_show)
  qed
qed

lemma f64_code_lt: "f64_code x < 2 ^ 63"
  by (simp add: f64_code_def)

lemma f64_of_code_code [simp]: "f64_of_code (f64_negative x) (f64_code x) = x"
proof -
  have "unat x < 2 ^ 64" using unat_less [of x] by simp
  then have "(if f64_negative x then 2 ^ 63 else 0) + f64_code x = unat x"
    by (auto simp: f64_negative_def f64_code_def le_mod_geq)
  then show ?thesis by (simp add: f64_of_code_def del: of_nat_add of_nat_numeral)
qed

text \<open>The text of a number never starts with a sign of its own.\<close>

definition signless :: "string \<Rightarrow> bool" where
  "signless s = (s \<noteq> [] \<and> hd s \<noteq> CHR ''-'' \<and> hd s \<noteq> CHR ''+'')"

lemma parse_f64_text:
  assumes "signless t" and "parse_number t = Some (d, k)" and "round_decimal d k = f64_code x" and "\<not> is_nan x"
  shows "parse_f64 (f64_sign_text x @ t) = Some x"
proof (cases "f64_negative x")
  case True
  then have "f64_of_code True (f64_code x) = x" using f64_of_code_code [of x] by simp
  then show ?thesis using True assms by (simp add: parse_f64_def f64_sign_text_def)
next
  case False
  obtain c cs where t: "t = c # cs" using assms(1) by (cases t) (auto simp: signless_def)
  have "f64_of_code False (f64_code x) = x" using False f64_of_code_code [of x] by simp
  then show ?thesis using False assms t by (simp add: parse_f64_def f64_sign_text_def signless_def)
qed

text \<open>A text of digits, a point and an exponent letter.\<close>

lemma signless_digits: "is_ascii_digit c \<Longrightarrow> signless (c # s)"
  by (auto simp: signless_def)

lemma hd_digit:
  assumes "list_all is_ascii_digit s" and "s \<noteq> []"
  shows "\<exists>c cs. s = c # cs \<and> is_ascii_digit c"
  using assms by (cases s) auto

lemma signless_show: "signless (show_nat d @ s)"
  using hd_digit [OF show_nat_all_digits [of d] show_nat_ne] signless_digits by fastforce

lemma signless_plain: "signless (plain_decimal d k)"
proof -
  have "list_all is_ascii_digit (take n (show_nat d))" for n
    using digits_drop [OF show_nat_all_digits [of d]] by blast
  then have "signless (take n (show_nat d) @ s)" if "0 < n" for n s
    using that hd_digit [of "take n (show_nat d)"] signless_digits by fastforce
  moreover have "signless (''0.'' @ s)" for s by (simp add: signless_def)
  ultimately show ?thesis
    using signless_show by (simp add: plain_decimal_def Let_def del: append_Cons)
qed

lemma signless_exp: "signless (exp_decimal d k)"
  using hd_digit [OF show_nat_all_digits [of d] show_nat_ne] signless_digits
  by (fastforce simp: exp_decimal_def)

lemma finite_text:
  assumes "is_finite x"
  shows "f64_text form zero x = f64_sign_text x @ (if f64_code x = 0 then zero
    else form (fst (shortest (f64_code x))) (snd (shortest (f64_code x))))"
  using assms by (simp add: f64_text_def is_finite_def is_nan_def split: prod.splits)

lemma round_zero [simp]: "round_decimal 0 k = 0"
  by (simp add: round_decimal_def round_ratio_def round_half_even_def bit_len.simps)

lemma parse_zero_texts [simp]:
  "parse_number ''0'' = Some (0, 0)" "parse_number ''0E0'' = Some (0, 0)"
  by code_simp+

lemma shortest_round:
  assumes "is_finite x"
  shows "round_decimal (fst (shortest (f64_code x))) (snd (shortest (f64_code x))) = f64_code x"
  using assms round_shortest [of "f64_code x"] by (cases "shortest (f64_code x)") (simp add: is_finite_def)

lemma finite_not_nan: "is_finite x \<Longrightarrow> \<not> is_nan x"
  by (simp add: is_finite_def is_nan_def)

text \<open>A finite number printed by \<^verbatim>\<open>Display\<close>, or in exponent form, parses back to the same bits, the
  sign of a zero included.\<close>

lemma f64_text_parses:
  assumes "is_finite x"
  shows "parse_f64 (f64_display x) = Some x \<and> parse_f64 (f64_upper_exp x) = Some x"
proof (cases "f64_code x = 0")
  case True
  have "signless ''0''" "signless ''0E0''" by (simp_all add: signless_def)
  then show ?thesis
    using True assms parse_f64_text [of "''0''" 0 0 x] parse_f64_text [of "''0E0''" 0 0 x]
    by (simp add: f64_display_def f64_upper_exp_def finite_text finite_not_nan)
next
  case False
  let ?d = "fst (shortest (f64_code x))" and ?k = "snd (shortest (f64_code x))"
  obtain d' k' where "parse_number (plain_decimal ?d ?k) = Some (d', k')" "round_decimal d' k' = round_decimal ?d ?k"
    using parse_plain_decimal by blast
  then show ?thesis
    using False assms parse_f64_text [OF signless_plain] parse_f64_text [OF signless_exp parse_exp_decimal]
      shortest_round [OF assms]
    by (simp add: f64_display_def f64_upper_exp_def finite_text finite_not_nan)
qed

end
