(* ===== verification/Header_Value.thy ===== *)
theory Header_Value
  imports Float64 Fits_Types
begin

text \<open>
  The values of header records, \<^verbatim>\<open>src/header_model/value.rs\<close>: the integers of unbounded range and the
  typed value with its accessors. An integer within \<^verbatim>\<open>i64\<close> is held as one, a larger one as its
  normalised decimal digits.
\<close>

section \<open>Integers\<close>

datatype fits_integer = IntI64 int | IntDecimal string

definition trim_start_zeros :: "string \<Rightarrow> string" where
  "trim_start_zeros s = dropWhile (\<lambda>c. c = CHR ''0'') s"

definition integer_parse :: "string \<Rightarrow> fits_integer option" where
  "integer_parse token =
     (case parse_signed i64_min i64_max token of
        Some v \<Rightarrow> Some (IntI64 v)
      | None \<Rightarrow>
          (let (negative, digits) =
                 (case token of [] \<Rightarrow> (False, token)
                  | c # cs \<Rightarrow> if c = CHR ''+'' then (False, cs) else if c = CHR ''-'' then (True, cs)
                              else (False, token))
           in if digits = [] \<or> \<not> list_all is_ascii_digit digits then None
              else let significant = trim_start_zeros digits
                   in if significant = [] then Some (IntI64 0)
                      else Some (IntDecimal (if negative then CHR ''-'' # significant else significant))))"

fun integer_display :: "fits_integer \<Rightarrow> string" where
  "integer_display (IntI64 v) = show_int v"
| "integer_display (IntDecimal decimal) = decimal"

definition out_of_range :: "fits_integer \<Rightarrow> numeric_target \<Rightarrow> fits_error" where
  "out_of_range i target = IntegerOutOfRange None (integer_display i) target"

definition integer_to_f64 :: "fits_integer \<Rightarrow> f64 fits_result" where
  "integer_to_f64 i =
     (case i of
        IntI64 v \<Rightarrow> Inr (f64_of_int v)
      | IntDecimal decimal \<Rightarrow>
          (case parse_f64 decimal of
             Some x \<Rightarrow> if is_finite x then Inr x else Inl (out_of_range i TargetF64)
           | None \<Rightarrow> Inl (out_of_range i TargetF64)))"

definition integer_from_str :: "string \<Rightarrow> fits_integer fits_result" where
  "integer_from_str text = ok_or (integer_parse (trim text)) (InvalidValue None ValueDefect)"

definition i128_max :: int where "i128_max = 2 ^ 127 - 1"
definition i128_min :: int where "i128_min = - (2 ^ 127)"

text \<open>\<^verbatim>\<open>TryFrom<&FitsInteger>\<close> of the machine integers.\<close>

definition integer_to_u64 :: "fits_integer \<Rightarrow> nat fits_result" where
  "integer_to_u64 i =
     (case i of
        IntI64 v \<Rightarrow> if 0 \<le> v then Inr (nat v) else Inl (out_of_range i TargetU64)
      | IntDecimal decimal \<Rightarrow> ok_or (parse_unsigned u64_max decimal) (out_of_range i TargetU64))"

definition integer_to_i128 :: "fits_integer \<Rightarrow> int fits_result" where
  "integer_to_i128 i =
     (case i of
        IntI64 v \<Rightarrow> Inr v
      | IntDecimal decimal \<Rightarrow> ok_or (parse_signed i128_min i128_max decimal) (out_of_range i TargetI128))"

definition integer_to_i64 :: "fits_integer \<Rightarrow> int fits_result" where
  "integer_to_i64 i =
     (case i of
        IntI64 v \<Rightarrow> Inr v
      | IntDecimal decimal \<Rightarrow> ok_or (parse_signed i64_min i64_max decimal) (out_of_range i TargetI64))"

text \<open>\<^verbatim>\<open>From\<close> of a wider machine integer, and \<^verbatim>\<open>fits_i64\<close> of a count.\<close>

definition integer_from :: "int \<Rightarrow> fits_integer" where
  "integer_from v = (if i64_min \<le> v \<and> v \<le> i64_max then IntI64 v else IntDecimal (show_int v))"

definition fits_i64 :: "nat \<Rightarrow> int fits_result" where
  "fits_i64 v = (if int v \<le> i64_max then Inr (int v) else Inl DataUnitOverflow)"

section \<open>Values\<close>

datatype hvalue =
    VLogical bool
  | VInteger fits_integer
  | VReal f64
  | VText string
  | VComplexInteger fits_integer fits_integer
  | VComplexReal f64 f64
  | VUndefined

fun as_logical :: "hvalue \<Rightarrow> bool option" where
  "as_logical (VLogical b) = Some b"
| "as_logical _ = None"

fun as_integer :: "hvalue \<Rightarrow> int option fits_result" where
  "as_integer (VInteger i) = bind (integer_to_i64 i) (\<lambda>v. Inr (Some v))"
| "as_integer (VReal r) =
     (if f64_integral r
      then (if i64_min \<le> f64_whole r \<and> f64_whole r < i64_max + 1 then Inr (Some (f64_whole r))
            else Inl (IntegerOutOfRange None (f64_display r) TargetI64))
      else Inr None)"
| "as_integer _ = Inr None"

fun as_real :: "hvalue \<Rightarrow> f64 option fits_result" where
  "as_real (VReal r) = Inr (Some r)"
| "as_real (VInteger i) = bind (integer_to_f64 i) (\<lambda>r. Inr (Some r))"
| "as_real _ = Inr None"

fun as_complex :: "hvalue \<Rightarrow> (f64 \<times> f64) option fits_result" where
  "as_complex (VComplexReal re im) = Inr (Some (re, im))"
| "as_complex (VComplexInteger re im) =
     bind (integer_to_f64 re) (\<lambda>re. bind (integer_to_f64 im) (\<lambda>im. Inr (Some (re, im))))"
| "as_complex _ = Inr None"

fun as_text :: "hvalue \<Rightarrow> string option" where
  "as_text (VText s) = Some s"
| "as_text _ = None"

text \<open>\<^verbatim>\<open>From<String>\<close>: a string of blanks keeps one.\<close>

definition value_from_text :: "string \<Rightarrow> hvalue" where
  "value_from_text s =
     (let blank = (s \<noteq> []); t = trim_end_char (CHR '' '') s
      in VText (if t = [] \<and> blank then '' '' else t))"

section \<open>What an integer is\<close>

text \<open>The number an integer stands for, and the form the type keeps: no \<^verbatim>\<open>i64\<close> as decimal digits, no
  leading zero.\<close>

fun integer_value :: "fits_integer \<Rightarrow> int" where
  "integer_value (IntI64 v) = v"
| "integer_value (IntDecimal s) =
     (case s of [] \<Rightarrow> 0
      | c # cs \<Rightarrow> if c = CHR ''-'' then - int (digits_val cs) else int (digits_val s))"

fun integer_ok :: "fits_integer \<Rightarrow> bool" where
  "integer_ok (IntI64 v) \<longleftrightarrow> i64_min \<le> v \<and> v \<le> i64_max"
| "integer_ok (IntDecimal s) \<longleftrightarrow> (\<exists>v. s = show_int v \<and> \<not> (i64_min \<le> v \<and> v \<le> i64_max))"

end
