(* ===== verification/Card.thy ===== *)
theory Card
  imports Header_Names Header_Value Blocks
begin

text \<open>
  One header record and its parse: \<^verbatim>\<open>src/header_model/record.rs\<close>, \<^verbatim>\<open>repair.rs\<close> and the reading half of
  \<^verbatim>\<open>src/header_model/card\<close>. The 80 bytes of a record are \<open>bytes\<close>; the text the parse works on is a
  \<open>string\<close>. \<open>card_parse\<close> returns the parsed record and the repairs it pushed, in order.
\<close>

section \<open>Records\<close>

datatype header_record =
    Valued keyword hvalue "string option"
  | Commentary string "string option"
  | Hierarch string hvalue "string option"
  | Malformed "record_name option" bytes defect

definition record_valued :: "record_name \<Rightarrow> hvalue \<Rightarrow> header_record run" where
  "record_valued name v =
     bind (attempt (validate_valued name)) (\<lambda>_.
       case name of
         KeywordName k \<Rightarrow> Inr (Valued k v None)
       | HierarchName h \<Rightarrow> Inr (Hierarch h v None)
       | CommentaryName _ \<Rightarrow> Inl Panic)"

fun value_or_defect :: "header_record \<Rightarrow> hvalue run" where
  "value_or_defect (Valued k v c) = Inr v"
| "value_or_defect (Hierarch h v c) = Inr v"
| "value_or_defect (Malformed name raw d) = Inl (Err (InvalidValue name d))"
| "value_or_defect (Commentary name text) = Inl Panic"

fun with_comment :: "header_record \<Rightarrow> string \<Rightarrow> header_record run" where
  "with_comment (Valued k v c) text = Inr (Valued k v (Some text))"
| "with_comment (Hierarch h v c) text = Inr (Hierarch h v (Some text))"
| "with_comment (Malformed name raw d) text = Inl (Err (InvalidValue name d))"
| "with_comment (Commentary name t) text = Inl Panic"

definition record_commentary :: "string \<Rightarrow> string \<Rightarrow> header_record" where
  "record_commentary name text =
     (let t = trim_end_char (CHR '' '') text in Commentary name (if t = [] then None else Some t))"

fun record_keyword :: "header_record \<Rightarrow> keyword option" where
  "record_keyword (Valued k v c) = Some k"
| "record_keyword (Malformed (Some (KeywordName k)) raw d) = Some k"
| "record_keyword _ = None"

fun record_hierarch_name :: "header_record \<Rightarrow> string option" where
  "record_hierarch_name (Hierarch h v c) = Some h"
| "record_hierarch_name (Malformed (Some (HierarchName h)) raw d) = Some h"
| "record_hierarch_name _ = None"

fun record_commentary_name :: "header_record \<Rightarrow> string option" where
  "record_commentary_name (Commentary name t) = Some name"
| "record_commentary_name (Malformed (Some (CommentaryName c)) raw d) = Some c"
| "record_commentary_name _ = None"

fun is_named :: "header_record \<Rightarrow> record_name \<Rightarrow> bool" where
  "is_named r (KeywordName k) = (record_keyword r = Some k \<or> record_commentary_name r = Some k)"
| "is_named r (HierarchName h) =
     (case record_hierarch_name r of None \<Rightarrow> False | Some own \<Rightarrow> hierarch_eq own h)"
| "is_named r (CommentaryName c) = (record_commentary_name r = Some c)"

fun record_comment :: "header_record \<Rightarrow> string option" where
  "record_comment (Valued k v c) = c"
| "record_comment (Hierarch h v c) = c"
| "record_comment _ = None"

fun record_name_of :: "header_record \<Rightarrow> record_name option" where
  "record_name_of (Valued k v c) = Some (KeywordName k)"
| "record_name_of (Commentary name t) = Some (CommentaryName name)"
| "record_name_of (Hierarch h v c) = Some (HierarchName h)"
| "record_name_of (Malformed name raw d) = name"

section \<open>Repairs\<close>

datatype repair_kind = LowercaseName | ValueIndicator | NonAsciiText | EndText

record repair =
  rp_record :: nat
  rp_kind :: repair_kind

datatype parsed_record =
    ParsedRecord header_record
  | ParsedContinue string "string option" "string option"
  | ParsedEnd

section \<open>Text and bytes\<close>

definition byte_ascii :: "u8 \<Rightarrow> bool" where "byte_ascii b = (unat b < 128)"

definition char_of_byte :: "u8 \<Rightarrow> char" where "char_of_byte b = char_of (unat b)"

definition byte_of_char :: "char \<Rightarrow> u8" where "byte_of_char c = of_nat (code_of c)"

definition as_bytes :: "string \<Rightarrow> bytes" where "as_bytes s = map byte_of_char s"

definition ascii_text :: "bytes \<Rightarrow> string" where
  "ascii_text raw = map (\<lambda>b. if byte_ascii b then char_of_byte b else CHR ''?'') raw"

definition is_end_record :: "bytes \<Rightarrow> bool" where
  "is_end_record raw = (length raw = CARD_SIZE \<and> take 8 raw = as_bytes ''END     '')"

text \<open>A slice \<^verbatim>\<open>s[a..b]\<close>.\<close>

definition slice :: "nat \<Rightarrow> nat \<Rightarrow> 'a list \<Rightarrow> 'a list" where
  "slice a b xs = drop a (take b xs)"

definition non_ascii_in :: "bytes \<Rightarrow> nat \<Rightarrow> nat \<Rightarrow> bool" where
  "non_ascii_in raw a b = (\<not> list_all byte_ascii (slice a b raw))"

definition free_text :: "string \<Rightarrow> string option" where
  "free_text field = (let t = trim_end_char (CHR '' '') field in if t = [] then None else Some t)"

definition comment_text :: "string \<Rightarrow> string option" where
  "comment_text field = (let t = blank_trim field in if t = [] then None else Some t)"

section \<open>The value field\<close>

record split =
  value_token :: string
  split_comment :: "string option"
  comment_start :: "nat option"

text \<open>The place of the first \<^verbatim>\<open>/\<close> outside a string.\<close>

fun find_slash :: "bool \<Rightarrow> string \<Rightarrow> nat option" where
  "find_slash in_string [] = None"
| "find_slash in_string (c # cs) =
     (if c = CHR 0x27
      then (if in_string
            then (case cs of
                    [] \<Rightarrow> None
                  | d # ds \<Rightarrow> if d = CHR 0x27 then map_option (\<lambda>i. i + 2) (find_slash in_string ds)
                              else map_option Suc (find_slash False cs))
            else map_option Suc (find_slash True cs))
      else if c = CHR ''/'' \<and> \<not> in_string then Some 0
      else map_option Suc (find_slash in_string cs))"

definition split_value_comment :: "string \<Rightarrow> split" where
  "split_value_comment field =
     (case find_slash False field of
        Some i \<Rightarrow> \<lparr>value_token = blank_trim (take i field), split_comment = comment_text (drop (i + 1) field),
                   comment_start = Some i\<rparr>
      | None \<Rightarrow> \<lparr>value_token = blank_trim field, split_comment = None, comment_start = None\<rparr>)"

text \<open>The characters of a string literal after its opening quote.\<close>

fun unescape :: "string \<Rightarrow> string option" where
  "unescape [] = None"
| "unescape (c # cs) =
     (if c = CHR 0x27
      then (case cs of
              [] \<Rightarrow> Some []
            | d # ds \<Rightarrow> if d = CHR 0x27 then map_option (\<lambda>s. CHR 0x27 # s) (unescape ds)
                        else if list_all (\<lambda>b. b = CHR '' '') cs then Some [] else None)
      else map_option (\<lambda>s. c # s) (unescape cs))"

definition keep_one_blank :: "string \<Rightarrow> string" where
  "keep_one_blank s =
     (let had_content = (s \<noteq> []); t = trim_end_char (CHR '' '') s
      in if t = [] \<and> had_content then '' '' else t)"

definition parse_string :: "string \<Rightarrow> string option" where
  "parse_string token = map_option keep_one_blank (unescape (drop 1 token))"

definition looks_real :: "string \<Rightarrow> bool" where
  "looks_real token = list_ex (\<lambda>c. c \<in> {CHR ''.'', CHR ''e'', CHR ''E'', CHR ''d'', CHR ''D''}) token"

definition parse_real :: "string \<Rightarrow> f64 option" where
  "parse_real token =
     (let parsed = (if list_ex (\<lambda>c. c = CHR ''d'' \<or> c = CHR ''D'') token
                    then parse_f64 (map (\<lambda>c. if c = CHR ''d'' \<or> c = CHR ''D'' then CHR ''E'' else c) token)
                    else parse_f64 token)
      in case parsed of None \<Rightarrow> None | Some v \<Rightarrow> if is_finite v then Some v else None)"

definition parse_scalar :: "string \<Rightarrow> hvalue option" where
  "parse_scalar token =
     (if looks_real token then map_option VReal (parse_real token)
      else (case integer_parse token of
              Some i \<Rightarrow> Some (VInteger i)
            | None \<Rightarrow> map_option VReal (parse_real token)))"

text \<open>A part of a complex value as a real; \<^verbatim>\<open>expect\<close>ed to be one, so \<open>None\<close> is the panic.\<close>

definition complex_part :: "hvalue \<Rightarrow> f64 run" where
  "complex_part v = (case as_real v of Inr (Some r) \<Rightarrow> Inr r | _ \<Rightarrow> Inl Panic)"

definition complex_value :: "hvalue option \<Rightarrow> hvalue option \<Rightarrow> hvalue option run" where
  "complex_value re im =
     (case (re, im) of
        (Some (VInteger re), Some (VInteger im)) \<Rightarrow> Inr (Some (VComplexInteger re im))
      | (Some re, Some im) \<Rightarrow>
          bind (complex_part re) (\<lambda>re. bind (complex_part im) (\<lambda>im. Inr (Some (VComplexReal re im))))
      | _ \<Rightarrow> Inr None)"

definition parse_complex :: "string \<Rightarrow> hvalue option run" where
  "parse_complex token =
     (case strip_prefix ''('' token of
        None \<Rightarrow> Inr None
      | Some t \<Rightarrow> (case strip_suffix '')'' t of
          None \<Rightarrow> Inr None
        | Some inner \<Rightarrow> (case split_once (CHR '','') inner of
            None \<Rightarrow> Inr None
          | Some (re, im) \<Rightarrow> complex_value (parse_scalar (blank_trim re)) (parse_scalar (blank_trim im)))))"

definition parse_value :: "string \<Rightarrow> hvalue option run" where
  "parse_value token =
     (if token = [] then Inr (Some VUndefined)
      else if hd token = CHR 0x27 then Inr (map_option VText (parse_string token))
      else if token = ''T'' then Inr (Some (VLogical True))
      else if token = ''F'' then Inr (Some (VLogical False))
      else if hd token = CHR ''('' then parse_complex token
      else Inr (parse_scalar token))"

section \<open>A record\<close>

type_synonym parse_result = "parsed_record \<times> repair_kind list"

definition malformed :: "bytes \<Rightarrow> record_name option \<Rightarrow> defect \<Rightarrow> parsed_record" where
  "malformed raw name d = ParsedRecord (Malformed name raw d)"

definition text_repair :: "bytes \<Rightarrow> nat \<Rightarrow> repair_kind list" where
  "text_repair raw a = (if non_ascii_in raw a CARD_SIZE then [NonAsciiText] else [])"

definition parse_commentary :: "bytes \<Rightarrow> string \<Rightarrow> parse_result" where
  "parse_commentary raw name =
     (ParsedRecord (Commentary name (free_text (drop 8 (ascii_text raw)))), text_repair raw 8)"

definition value_end :: "nat \<Rightarrow> split \<Rightarrow> nat" where
  "value_end start sp = start + (case comment_start sp of Some i \<Rightarrow> i | None \<Rightarrow> CARD_SIZE - start)"

definition parse_continue :: "bytes \<Rightarrow> parse_result" where
  "parse_continue raw =
     (let text = ascii_text raw; sp = split_value_comment (drop 10 text)
      in if slice 8 10 raw = as_bytes ''  '' \<and> value_token sp \<noteq> [] \<and> hd (value_token sp) = CHR 0x27
         then
           (let stop = value_end 10 sp
            in case parse_string (value_token sp) of
                 None \<Rightarrow> (malformed raw (Some (CommentaryName ''CONTINUE'')) ValueDefect, [])
               | Some substring \<Rightarrow>
                   if non_ascii_in raw 10 stop
                   then (malformed raw (Some (CommentaryName ''CONTINUE'')) ValueDefect, [])
                   else (ParsedContinue substring (split_comment sp) (free_text (drop 8 text)), text_repair raw stop))
         else parse_commentary raw ''CONTINUE'')"

definition parse_hierarch :: "bytes \<Rightarrow> nat \<Rightarrow> parse_result run" where
  "parse_hierarch raw indicator =
     (let text = ascii_text raw;
          repairs = (if take 8 text \<noteq> ''HIERARCH'' then [LowercaseName] else [])
      in case hierarch_from_str (slice 9 indicator text) of
           Inl _ \<Rightarrow> Inr (malformed raw None NameDefect, repairs)
         | Inr name \<Rightarrow>
             if non_ascii_in raw 9 indicator then Inr (malformed raw None NameDefect, repairs)
             else
               (let value_start = indicator + 1;
                    sp = split_value_comment (drop value_start text);
                    stop = value_end value_start sp
                in bind (parse_value (value_token sp)) (\<lambda>parsed.
                     case parsed of
                       None \<Rightarrow> Inr (malformed raw (Some (HierarchName name)) ValueDefect, repairs)
                     | Some v \<Rightarrow>
                         if non_ascii_in raw value_start stop
                         then Inr (malformed raw (Some (HierarchName name)) ValueDefect, repairs)
                         else Inr (ParsedRecord (Hierarch name v (split_comment sp)), repairs @ text_repair raw stop))))"

definition parse_valued :: "bytes \<Rightarrow> nat \<Rightarrow> parse_result run" where
  "parse_valued raw indicator =
     (let text = ascii_text raw;
          fixed = (indicator = 8 \<and> raw ! 9 = byte_of_char (CHR '' ''));
          value_start = (if fixed then 10 else indicator + 1);
          name = trim_end_char (CHR '' '') (take indicator text);
          lower = list_ex is_ascii_lowercase name;
          repairs = (if fixed then [] else [ValueIndicator]) @ (if lower then [LowercaseName] else []);
          upper = (if lower then map to_upper name else name)
      in case keyword_try_from upper of
           Inl _ \<Rightarrow> Inr (malformed raw None NameDefect, repairs)
         | Inr k \<Rightarrow>
             (let sp = split_value_comment (drop value_start text);
                  stop = value_end value_start sp
              in if non_ascii_in raw value_start stop
                 then Inr (malformed raw (Some (KeywordName k)) ValueDefect, repairs)
                 else bind (parse_value (value_token sp)) (\<lambda>parsed.
                   case parsed of
                     None \<Rightarrow> Inr (malformed raw (Some (KeywordName k)) ValueDefect, repairs)
                   | Some v \<Rightarrow> Inr (ParsedRecord (Valued k v (split_comment sp)), repairs @ text_repair raw stop))))"

definition eq_ignore_case :: "string \<Rightarrow> string \<Rightarrow> bool" where
  "eq_ignore_case a b = (map to_upper a = map to_upper b)"

definition card_parse :: "bytes \<Rightarrow> parse_result run" where
  "card_parse raw =
     (if is_end_record raw
      then Inr (ParsedEnd, if list_ex (\<lambda>b. b \<noteq> byte_of_char (CHR '' '')) (drop 8 raw) then [EndText] else [])
      else if \<not> list_all byte_ascii (take 8 raw) then Inr (malformed raw None NameDefect, [])
      else
        let text = ascii_text raw; keyword = trim_end_char (CHR '' '') (take 8 text)
        in case commentary_try_from keyword of
             Inl _ \<Rightarrow> Inr (malformed raw None NameDefect, [])
           | Inr name \<Rightarrow>
               if name \<in> {[], ''COMMENT'', ''HISTORY''} then Inr (parse_commentary raw name)
               else if name = ''CONTINUE'' then Inr (parse_continue raw)
               else
                 (case (if eq_ignore_case (take 9 text) ''HIERARCH ''
                        then find_index (\<lambda>c. c = CHR ''='') (drop 9 text) else None) of
                    Some at \<Rightarrow> parse_hierarch raw (9 + at)
                  | None \<Rightarrow>
                      (case find_index (\<lambda>b. b = byte_of_char (CHR ''='')) (take 9 raw) of
                         None \<Rightarrow> Inr (parse_commentary raw name)
                       | Some indicator \<Rightarrow> parse_valued raw indicator)))"

text \<open>The repairs as the header keeps them, at the record's 1-based position.\<close>

definition repairs_at :: "nat \<Rightarrow> repair_kind list \<Rightarrow> repair list" where
  "repairs_at record kinds = map (\<lambda>k. \<lparr>rp_record = record, rp_kind = k\<rparr>) kinds"

end
