(* ===== verification/Card_Render.thy ===== *)
theory Card_Render
  imports Card
begin

text \<open>
  A header record rendered to 80-byte records, the writing half of \<^verbatim>\<open>src/header_model/card\<close>: the
  fixed-format text of a value, the single record, and the \<^verbatim>\<open>CONTINUE\<close> chain of a long string. A
  \<^verbatim>\<open>fmt::Write\<close> sink gets its pieces as one text here: the sink of a record fails when they run past
  it, and the counter counts them.
\<close>

section \<open>The text of a value\<close>

definition real_text :: "f64 \<Rightarrow> string" where
  "real_text r =
     (if length (f64_display r) > 20 \<and> length (f64_upper_exp r) < length (f64_display r) then f64_upper_exp r
      else f64_display r @ (if f64_integral r then ''.0'' else []))"

fun escape :: "string \<Rightarrow> string" where
  "escape [] = []"
| "escape (c # cs) = (if c = CHR 0x27 then [c, c] else [c]) @ escape cs"

definition escaped_len :: "string \<Rightarrow> nat" where
  "escaped_len text = length text + length (filter (\<lambda>c. c = CHR 0x27) text)"

text \<open>\<^verbatim>\<open>write_escaped\<close>: the opening quote, the text with its quotes doubled, and a close.\<close>

definition quoted :: "string \<Rightarrow> string \<Rightarrow> string" where
  "quoted text close = CHR 0x27 # escape text @ close"

fun value_text :: "hvalue \<Rightarrow> string" where
  "value_text (VLogical b) = (if b then ''T'' else ''F'')"
| "value_text (VInteger i) = integer_display i"
| "value_text (VReal r) = real_text r"
| "value_text (VText text) =
     (if text = [] then [CHR 0x27, CHR 0x27]
      else quoted text [] @ replicate (8 - escaped_len text) (CHR '' '') @ [CHR 0x27])"
| "value_text (VComplexInteger re im) = ''('' @ integer_display re @ '', '' @ integer_display im @ '')''"
| "value_text (VComplexReal re im) = ''('' @ real_text re @ '', '' @ real_text im @ '')''"
| "value_text VUndefined = []"

definition rendered_len :: "hvalue \<Rightarrow> nat" where
  "rendered_len v = length (value_text v)"

section \<open>A record under construction\<close>

datatype lead = LeadKeyword keyword | LeadCommentary string | LeadHierarch string

fun value_start :: "lead \<Rightarrow> nat" where
  "value_start (LeadHierarch name) = 9 + length name + 3"
| "value_start _ = 10"

fun lead_name :: "lead \<Rightarrow> record_name" where
  "lead_name (LeadKeyword k) = KeywordName k"
| "lead_name (LeadCommentary c) = CommentaryName c"
| "lead_name (LeadHierarch h) = HierarchName h"

record record_buf =
  buf_bytes :: bytes
  buf_lead :: lead

definition buf_named :: "string \<Rightarrow> lead \<Rightarrow> record_buf" where
  "buf_named field ld =
     \<lparr>buf_bytes = overwrite (replicate CARD_SIZE (byte_of_char (CHR '' ''))) 0 (as_bytes field), buf_lead = ld\<rparr>"

fun buf_new :: "lead \<Rightarrow> record_buf" where
  "buf_new (LeadKeyword k) = buf_named k (LeadKeyword k)"
| "buf_new (LeadCommentary c) = buf_named c (LeadCommentary c)"
| "buf_new (LeadHierarch h) = buf_named ''HIERARCH'' (LeadHierarch h)"

definition buf_continuation :: "lead \<Rightarrow> record_buf" where
  "buf_continuation ld = buf_named ''CONTINUE'' ld"

definition too_long :: "record_buf \<Rightarrow> nat \<Rightarrow> fits_error" where
  "too_long b len = HeaderCardTooLong (lead_name (buf_lead b)) len"

text \<open>\<^verbatim>\<open>write_str_at\<close>: the record with the text from a byte on, and where the text ends.\<close>

definition buf_put :: "record_buf \<Rightarrow> nat \<Rightarrow> string \<Rightarrow> record_buf" where
  "buf_put b pos text = b\<lparr>buf_bytes := overwrite (buf_bytes b) pos (as_bytes text)\<rparr>"

definition write_str_at :: "record_buf \<Rightarrow> nat \<Rightarrow> string \<Rightarrow> (record_buf \<times> nat) fits_result" where
  "write_str_at b pos text =
     (let stop = pos + length text
      in if stop > CARD_SIZE then Inl (too_long b stop) else Inr (buf_put b pos text, stop))"

definition write_value_at :: "record_buf \<Rightarrow> nat \<Rightarrow> hvalue \<Rightarrow> (record_buf \<times> nat) fits_result" where
  "write_value_at b pos v =
     (if pos + length (value_text v) > CARD_SIZE then Inl (too_long b (pos + rendered_len v))
      else Inr (buf_put b pos (value_text v), pos + length (value_text v)))"

text \<open>The comment after the value, with its separator.\<close>

definition write_comment_at :: "record_buf \<Rightarrow> nat \<Rightarrow> string option \<Rightarrow> (record_buf \<times> nat) fits_result" where
  "write_comment_at b pos comment =
     (case comment of
        None \<Rightarrow> Inr (b, pos)
      | Some text \<Rightarrow> bind (write_str_at b pos '' / '') (\<lambda>(b, pos). write_str_at b pos text))"

section \<open>Single records\<close>

definition render_hierarch :: "string \<Rightarrow> hvalue \<Rightarrow> string option \<Rightarrow> bytes fits_result" where
  "render_hierarch name v comment =
     (let b = buf_new (LeadHierarch name);
          comment_len = (case comment of None \<Rightarrow> 0 | Some c \<Rightarrow> 3 + length c);
          spaced = value_start (LeadHierarch name);
          indicator = (if spaced + rendered_len v + comment_len \<le> CARD_SIZE then '' = '' else ''= '')
      in bind (write_str_at b 9 name) (\<lambda>(b, pos).
         bind (write_str_at b pos indicator) (\<lambda>(b, pos).
         bind (write_value_at b pos v) (\<lambda>(b, pos).
         bind (write_comment_at b pos comment) (\<lambda>(b, _). Inr (buf_bytes b))))))"

definition buf_indicator :: "record_buf \<Rightarrow> record_buf" where
  "buf_indicator b = b\<lparr>buf_bytes := (buf_bytes b)[8 := byte_of_char (CHR ''='')]\<rparr>"

text \<open>Where a value starts: strings in byte 11, the others right-justified to byte 30.\<close>

fun value_pos :: "hvalue \<Rightarrow> nat" where
  "value_pos (VText _) = 10"
| "value_pos VUndefined = 10"
| "value_pos v = max (10 + rendered_len v) 30 - rendered_len v"

fun render_one :: "header_record \<Rightarrow> bytes run" where
  "render_one (Hierarch name v comment) = attempt (render_hierarch name v comment)"
| "render_one (Commentary name text) =
     (let b = buf_new (LeadCommentary name)
      in case text of
           None \<Rightarrow> Inr (buf_bytes b)
         | Some t \<Rightarrow> bind (attempt (write_str_at b 8 t)) (\<lambda>(b, _). Inr (buf_bytes b)))"
| "render_one (Valued k v comment) =
     (let b = buf_indicator (buf_new (LeadKeyword k))
      in bind (attempt (write_value_at b (value_pos v) v)) (\<lambda>(b, pos).
         bind (attempt (write_comment_at b pos comment)) (\<lambda>(b, _). Inr (buf_bytes b))))"
| "render_one (Malformed name raw d) = Inl Panic"

section \<open>Long strings\<close>

record long_string =
  ls_lead :: lead
  ls_text :: string
  ls_comment :: "string option"

definition PER_RECORD :: nat where "PER_RECORD = 67"

definition first_width :: "long_string \<Rightarrow> nat" where
  "first_width ls = CARD_SIZE - (value_start (ls_lead ls) + 3)"

text \<open>The characters of a piece: as many as its width holds once quotes are doubled.\<close>

fun piece_len :: "nat \<Rightarrow> string \<Rightarrow> nat" where
  "piece_len limit [] = 0"
| "piece_len limit (c # cs) =
     (let w = (if c = CHR 0x27 then 2 else 1)
      in if w > limit then 0 else Suc (piece_len (limit - w) cs))"

lemma piece_len_le: "piece_len limit s \<le> length s"
  by (induction limit s rule: piece_len.induct) (auto simp: Let_def)

lemma piece_len_pos: "2 \<le> limit \<Longrightarrow> s \<noteq> [] \<Longrightarrow> 0 < piece_len limit s"
  by (cases s) (auto simp: Let_def)

function later_pieces :: "string \<Rightarrow> string list" where
  "later_pieces s =
     (if s = [] then [] else take (piece_len PER_RECORD s) s # later_pieces (drop (piece_len PER_RECORD s) s))"
  by pat_completeness auto
termination by (relation "measure length") (auto simp: PER_RECORD_def piece_len_pos)

declare later_pieces.simps [simp del]

definition pieces :: "long_string \<Rightarrow> string list" where
  "pieces ls =
     (let n = piece_len (first_width ls) (ls_text ls)
      in take n (ls_text ls) # later_pieces (drop n (ls_text ls)))"

definition comment_needs_own_record :: "long_string \<Rightarrow> bool fits_result" where
  "comment_needs_own_record ls =
     (if first_width ls = 0 then Inl (HeaderCardTooLong (lead_name (ls_lead ls)) (value_start (ls_lead ls) + 3))
      else case ls_comment ls of
             None \<Rightarrow> Inr False
           | Some comment \<Rightarrow>
               (let start = (if tl (pieces ls) = [] then value_start (ls_lead ls) else 10);
                    last_piece = last (pieces ls)
                in if start + 2 + escaped_len last_piece + 3 + length comment \<le> CARD_SIZE then Inr False
                   else let alone = 10 + 2 + 3 + length comment
                        in if alone > CARD_SIZE then Inl (HeaderCardTooLong (lead_name (ls_lead ls)) alone)
                           else Inr True))"

definition chain_validate :: "long_string \<Rightarrow> unit fits_result" where
  "chain_validate ls = bind (comment_needs_own_record ls) (\<lambda>_. Inr ())"

text \<open>The first record up to its value, and where the value starts.\<close>

definition chain_first :: "lead \<Rightarrow> (record_buf \<times> nat) fits_result" where
  "chain_first ld =
     (case ld of
        LeadHierarch name \<Rightarrow>
          bind (write_str_at (buf_new ld) 9 name) (\<lambda>(b, pos). write_str_at b pos '' = '')
      | _ \<Rightarrow> Inr (buf_indicator (buf_new ld), 10))"

text \<open>A substring that does not fit its record is a panic.\<close>

definition write_piece :: "record_buf \<Rightarrow> nat \<Rightarrow> string \<Rightarrow> bool \<Rightarrow> (record_buf \<times> nat) run" where
  "write_piece b pos piece last_one =
     (let text = quoted piece (if last_one then [CHR 0x27] else [CHR ''&'', CHR 0x27])
      in if pos + length text > CARD_SIZE then Inl Panic else Inr (buf_put b pos text, pos + length text))"

fun chain_records :: "lead \<Rightarrow> string option \<Rightarrow> bool \<Rightarrow> string list \<Rightarrow> bytes run" where
  "chain_records ld comment first [] = Inr []"
| "chain_records ld comment first (piece # ps) =
     bind (if first then attempt (chain_first ld) else Inr (buf_continuation ld, 10)) (\<lambda>(b, pos).
     bind (write_piece b pos piece (ps = [])) (\<lambda>(b, pos).
     bind (if ps = [] then attempt (write_comment_at b pos comment) else Inr (b, pos)) (\<lambda>(b, _).
     bind (chain_records ld comment False ps) (\<lambda>rest. Inr (buf_bytes b @ rest)))))"

definition chain_render :: "long_string \<Rightarrow> bytes run" where
  "chain_render ls =
     bind (attempt (comment_needs_own_record ls)) (\<lambda>own_record.
       chain_records (ls_lead ls) (ls_comment ls) True (pieces ls @ (if own_record then [[]] else [])))"

definition long_text :: "lead \<Rightarrow> string \<Rightarrow> string option \<Rightarrow> long_string option" where
  "long_text ld text comment =
     (let value_len = 2 + escaped_len text;
          comment_len = (case comment of None \<Rightarrow> 0 | Some c \<Rightarrow> 3 + length c);
          tightest = (case ld of LeadHierarch _ \<Rightarrow> value_start ld - 1 | _ \<Rightarrow> value_start ld)
      in if tightest + value_len + comment_len > CARD_SIZE
         then Some \<lparr>ls_lead = ld, ls_text = text, ls_comment = comment\<rparr> else None)"

fun continuation_chain :: "header_record \<Rightarrow> long_string option" where
  "continuation_chain (Valued k (VText text) comment) = long_text (LeadKeyword k) text comment"
| "continuation_chain (Hierarch name (VText text) comment) = long_text (LeadHierarch name) text comment"
| "continuation_chain _ = None"

section \<open>Validation\<close>

definition validate_ascii :: "string \<Rightarrow> text_origin \<Rightarrow> unit fits_result" where
  "validate_ascii text origin = (if list_all is_printable text then Inr () else Inl (InvalidAscii origin))"

fun validate_value :: "record_name \<Rightarrow> hvalue \<Rightarrow> unit fits_result" where
  "validate_value name (VText text) = validate_ascii text (ValueText name)"
| "validate_value name (VReal r) = (if is_finite r then Inr () else Inl (InvalidHeaderValue name NonFiniteReal))"
| "validate_value name (VComplexReal re im) =
     (if is_finite re \<and> is_finite im then Inr () else Inl (InvalidHeaderValue name NonFiniteComplex))"
| "validate_value name _ = Inr ()"

definition validate_comment :: "record_name \<Rightarrow> string option \<Rightarrow> unit fits_result" where
  "validate_comment name comment =
     (case comment of None \<Rightarrow> Inr () | Some c \<Rightarrow> validate_ascii c (CommentText name))"

fun validate_contents :: "header_record \<Rightarrow> unit fits_result" where
  "validate_contents (Malformed name raw d) = Inl (InvalidValue name d)"
| "validate_contents (Commentary name text) = validate_comment (CommentaryName name) text"
| "validate_contents (Valued k v comment) =
     bind (validate_valued_keyword k) (\<lambda>_.
     bind (validate_comment (KeywordName k) comment) (\<lambda>_. validate_value (KeywordName k) v))"
| "validate_contents (Hierarch h v comment) =
     bind (validate_comment (HierarchName h) comment) (\<lambda>_. validate_value (HierarchName h) v)"

definition record_render :: "header_record \<Rightarrow> bytes run" where
  "record_render r =
     bind (attempt (validate_contents r)) (\<lambda>_.
       case continuation_chain r of
         Some chain \<Rightarrow> chain_render chain
       | None \<Rightarrow> render_one r)"

definition card_validate :: "header_record \<Rightarrow> unit run" where
  "card_validate r =
     bind (attempt (validate_contents r)) (\<lambda>_.
       case continuation_chain r of
         Some chain \<Rightarrow> attempt (chain_validate chain)
       | None \<Rightarrow>
           bind (render_one r) (\<lambda>raw.
             case r of
               Commentary name text \<Rightarrow>
                 bind (card_parse raw) (\<lambda>(parsed, _).
                   if parsed = ParsedRecord r then Inr () else Inl (Err (AmbiguousCommentary name)))
             | _ \<Rightarrow> Inr ()))"

end
