(* ===== verification/First_Index.thy ===== *)
theory First_Index
  imports Text
begin

text \<open>
  The index a header keeps beside its records: for each key the position of the first record with it.
  A header has two, by keyword and by \<^verbatim>\<open>HIERARCH\<close> name, kept by the same steps of \<^verbatim>\<open>insert_at\<close>, \<^verbatim>\<open>take_at\<close>
  and \<^verbatim>\<open>reindex\<close> in \<^verbatim>\<open>src/header_model/mod.rs\<close>; here the key of a record is a parameter.
\<close>

section \<open>The steps\<close>

text \<open>\<^verbatim>\<open>insert_at\<close>: the positions from \<open>i\<close> on move up, and the new record's key is indexed where it is
  the first.\<close>

definition shift_up :: "nat \<Rightarrow> ('k \<rightharpoonup> nat) \<Rightarrow> 'k \<rightharpoonup> nat" where
  "shift_up i m = (\<lambda>k. map_option (\<lambda>p. if i \<le> p then p + 1 else p) (m k))"

definition index_new :: "('r \<Rightarrow> 'k option) \<Rightarrow> nat \<Rightarrow> 'r \<Rightarrow> ('k \<rightharpoonup> nat) \<Rightarrow> 'k \<rightharpoonup> nat" where
  "index_new key i r m =
     (case key r of
        None \<Rightarrow> m
      | Some k \<Rightarrow> m(k \<mapsto> (case m k of None \<Rightarrow> i | Some p \<Rightarrow> min p i)))"

definition index_insert :: "('r \<Rightarrow> 'k option) \<Rightarrow> nat \<Rightarrow> 'r \<Rightarrow> 'r list \<Rightarrow> ('k \<rightharpoonup> nat) \<Rightarrow> 'k \<rightharpoonup> nat" where
  "index_insert key i r rs m = index_new key i r (if i < length rs then shift_up i m else m)"

text \<open>\<^verbatim>\<open>take_at\<close>, after the record \<open>r\<close> at \<open>i\<close> has left \<open>rs\<close>.\<close>

definition shift_down :: "nat \<Rightarrow> ('k \<rightharpoonup> nat) \<Rightarrow> 'k \<rightharpoonup> nat" where
  "shift_down i m = (\<lambda>k. map_option (\<lambda>p. if i < p then p - 1 else p) (m k))"

definition index_next :: "('r \<Rightarrow> 'k option) \<Rightarrow> nat \<Rightarrow> 'r \<Rightarrow> 'r list \<Rightarrow> ('k \<rightharpoonup> nat) \<Rightarrow> 'k \<rightharpoonup> nat" where
  "index_next key i r rs m =
     (case key r of
        None \<Rightarrow> m
      | Some k \<Rightarrow>
          if m k = Some i
          then (case find_index (\<lambda>next. key next = Some k) (drop i rs) of
                  Some offset \<Rightarrow> m(k \<mapsto> i + offset)
                | None \<Rightarrow> m(k := None))
          else m)"

definition index_remove :: "('r \<Rightarrow> 'k option) \<Rightarrow> nat \<Rightarrow> 'r \<Rightarrow> 'r list \<Rightarrow> ('k \<rightharpoonup> nat) \<Rightarrow> 'k \<rightharpoonup> nat" where
  "index_remove key i r rs m = index_next key i r rs (shift_down i m)"

text \<open>\<^verbatim>\<open>reindex\<close>: the records in order from position \<open>i\<close>, each key entered once.\<close>

fun index_build :: "('r \<Rightarrow> 'k option) \<Rightarrow> nat \<Rightarrow> 'r list \<Rightarrow> ('k \<rightharpoonup> nat) \<Rightarrow> 'k \<rightharpoonup> nat" where
  "index_build key i [] m = m"
| "index_build key i (r # rs) m =
     index_build key (i + 1) rs
       (case key r of
          None \<Rightarrow> m
        | Some k \<Rightarrow> (case m k of None \<Rightarrow> m(k \<mapsto> i) | Some _ \<Rightarrow> m))"

section \<open>The contract\<close>

text \<open>The records after an insertion and a removal.\<close>

definition insert_nth :: "nat \<Rightarrow> 'a \<Rightarrow> 'a list \<Rightarrow> 'a list" where
  "insert_nth i x xs = take i xs @ x # drop i xs"

definition remove_nth :: "nat \<Rightarrow> 'a list \<Rightarrow> 'a list" where
  "remove_nth i xs = take i xs @ drop (Suc i) xs"

definition first_pos :: "('r \<Rightarrow> 'k option) \<Rightarrow> 'r list \<Rightarrow> 'k \<rightharpoonup> nat" where
  "first_pos key rs = (\<lambda>k. find_index (\<lambda>r. key r = Some k) rs)"

lemma find_index_append_cases:
  "find_index p (xs @ ys) = (case find_index p xs of Some i \<Rightarrow> Some i
     | None \<Rightarrow> map_option (\<lambda>i. length xs + i) (find_index p ys))"
proof (induction xs)
  case Nil
  show ?case by (cases "find_index p ys") simp_all
next
  case (Cons x xs)
  then show ?case
    by (cases "find_index p xs"; cases "find_index p ys"; simp)
qed

lemma find_index_lt: "find_index p xs = Some i \<Longrightarrow> i < length xs"
  by (simp add: find_index_Some)

text \<open>The step of an insertion gives the first positions of the records after it.\<close>

lemma index_insert_first:
  assumes "i \<le> length rs"
  shows "index_insert key i r rs (first_pos key rs) = first_pos key (insert_nth i r rs)"
proof (rule ext)
  fix k
  let ?p = "\<lambda>r. key r = Some k"
  have len: "length (take i rs) = i" using assms by simp
  have split: "find_index ?p rs = (case find_index ?p (take i rs) of Some j \<Rightarrow> Some j
      | None \<Rightarrow> map_option (\<lambda>j. i + j) (find_index ?p (drop i rs)))"
    using find_index_append_cases [of ?p "take i rs" "drop i rs"] unfolding append_take_drop_id len .
  have shifted: "(if i < length rs then shift_up i (first_pos key rs) else first_pos key rs) k
      = (case find_index ?p (take i rs) of Some j \<Rightarrow> Some j
         | None \<Rightarrow> map_option (\<lambda>j. Suc (i + j)) (find_index ?p (drop i rs)))"
  proof (cases "i < length rs")
    case True
    have "j < i" if "find_index ?p (take i rs) = Some j" for j
      using find_index_lt [OF that] by simp
    then show ?thesis
      using True split
      by (cases "find_index ?p (take i rs)"; cases "find_index ?p (drop i rs)")
         (simp_all add: shift_up_def first_pos_def)
  next
    case False
    then have "drop i rs = []" by simp
    then show ?thesis using False split by (simp add: first_pos_def split: option.splits)
  qed
  have after: "first_pos key (insert_nth i r rs) k = (case find_index ?p (take i rs) of Some j \<Rightarrow> Some j
      | None \<Rightarrow> if key r = Some k then Some i else map_option (\<lambda>j. Suc (i + j)) (find_index ?p (drop i rs)))"
    using find_index_append_cases [of ?p "take i rs" "r # drop i rs"] assms
    by (simp add: first_pos_def insert_nth_def min_absorb2 option.map_comp comp_def split: option.splits)
  show "index_insert key i r rs (first_pos key rs) k = first_pos key (insert_nth i r rs) k"
  proof (cases "key r = Some k")
    case True
    have "j < i" if "find_index ?p (take i rs) = Some j" for j
      using find_index_lt [OF that] by simp
    then show ?thesis
      using True shifted after
      by (cases "find_index ?p (take i rs)"; cases "find_index ?p (drop i rs)")
         (simp_all add: index_insert_def index_new_def)
  next
    case False
    then have "index_insert key i r rs (first_pos key rs) k
        = (if i < length rs then shift_up i (first_pos key rs) else first_pos key rs) k"
      by (simp add: index_insert_def index_new_def split: option.splits)
    then show ?thesis using False shifted after by (simp split: option.splits)
  qed
qed

lemma index_remove_first:
  assumes "i < length rs"
  shows "index_remove key i (rs ! i) (remove_nth i rs) (first_pos key rs) = first_pos key (remove_nth i rs)"
proof (rule ext)
  fix k
  let ?p = "\<lambda>r. key r = Some k"
  have len: "length (take i rs) = i" using assms by simp
  have "rs = take i rs @ rs ! i # drop (Suc i) rs" using assms by (simp add: id_take_nth_drop)
  then have "find_index ?p rs = find_index ?p (take i rs @ rs ! i # drop (Suc i) rs)" by simp
  then have before: "first_pos key rs k = (case find_index ?p (take i rs) of Some j \<Rightarrow> Some j
      | None \<Rightarrow> if key (rs ! i) = Some k then Some i else map_option (\<lambda>j. Suc (i + j)) (find_index ?p (drop (Suc i) rs)))"
    unfolding find_index_append_cases len
    by (simp add: first_pos_def option.map_comp comp_def split: option.splits)
  have after: "first_pos key (remove_nth i rs) k = (case find_index ?p (take i rs) of Some j \<Rightarrow> Some j
      | None \<Rightarrow> map_option (\<lambda>j. i + j) (find_index ?p (drop (Suc i) rs)))"
    unfolding first_pos_def remove_nth_def find_index_append_cases len ..
  have rest: "drop i (remove_nth i rs) = drop (Suc i) rs" using assms by (simp add: remove_nth_def min_absorb2)
  have lt: "j < i" if "find_index ?p (take i rs) = Some j" for j
    using find_index_lt [OF that] len by simp
  have shifted: "shift_down i (first_pos key rs) k = (case find_index ?p (take i rs) of Some j \<Rightarrow> Some j
      | None \<Rightarrow> if key (rs ! i) = Some k then Some i else map_option (\<lambda>j. i + j) (find_index ?p (drop (Suc i) rs)))"
    using before lt by (auto simp: shift_down_def option.map_comp comp_def split: option.splits)
  show "index_remove key i (rs ! i) (remove_nth i rs) (first_pos key rs) k = first_pos key (remove_nth i rs) k"
  proof (cases "key (rs ! i) = Some k")
    case True
    then show ?thesis
      using shifted after lt rest
      by (cases "find_index ?p (take i rs)"; cases "find_index ?p (drop (Suc i) rs)")
         (fastforce simp: index_remove_def index_next_def)+
  next
    case False
    then have "index_remove key i (rs ! i) (remove_nth i rs) (first_pos key rs) k = shift_down i (first_pos key rs) k"
      by (simp add: index_remove_def index_next_def split: option.splits)
    then show ?thesis using False shifted after by (simp split: option.splits)
  qed
qed

lemma index_build_first:
  "index_build key i rs m = (\<lambda>k. case m k of Some p \<Rightarrow> Some p | None \<Rightarrow> map_option (\<lambda>j. i + j) (first_pos key rs k))"
proof (induction rs arbitrary: i m)
  case Nil
  show ?case by (auto simp: first_pos_def split: option.splits)
next
  case (Cons r rs)
  show ?case
  proof (rule ext)
    fix k
    show "index_build key i (r # rs) m k
      = (case m k of Some p \<Rightarrow> Some p | None \<Rightarrow> map_option (\<lambda>j. i + j) (first_pos key (r # rs) k))"
      by (cases "m k"; cases "key r"; cases "find_index (\<lambda>r. key r = Some k) rs")
         (auto simp: Cons first_pos_def split: option.splits)
  qed
qed

section \<open>An index of records\<close>

text \<open>A list of records that keeps the index of one key, and what every edit of it keeps true, whatever the
  key. The code pushes some records without a step of the index (\<open>keyless\<close>) and puts a record in
  another's place without one (\<open>stands_in\<close>): the laws say that both are right.\<close>

locale keyed =
  fixes key :: "'r \<Rightarrow> 'k option"
    and keyless :: "'r \<Rightarrow> bool"
    and stands_in :: "'r \<Rightarrow> 'r \<Rightarrow> bool"
  assumes keyless_key: "keyless r \<Longrightarrow> key r = None"
    and stands_in_key: "stands_in r s \<Longrightarrow> key s = key r"
begin

definition indexed :: "'r list \<Rightarrow> ('k \<rightharpoonup> nat) \<Rightarrow> bool" where
  "indexed rs m \<longleftrightarrow> m = first_pos key rs"

lemma indexed_insert: "indexed rs m \<Longrightarrow> i \<le> length rs \<Longrightarrow> indexed (insert_nth i r rs) (index_insert key i r rs m)"
  by (simp add: indexed_def index_insert_first)

lemma indexed_remove:
  "indexed rs m \<Longrightarrow> i < length rs \<Longrightarrow> indexed (remove_nth i rs) (index_remove key i (rs ! i) (remove_nth i rs) m)"
  by (simp add: indexed_def index_remove_first)

lemma indexed_build: "indexed rs (index_build key 0 rs Map.empty)"
proof -
  have "map_option ((+) 0) x = x" for x :: "nat option" by (cases x) simp_all
  then show ?thesis by (simp add: indexed_def index_build_first)
qed

lemma indexed_same_keys: "indexed rs m \<Longrightarrow> map key rs = map key rs' \<Longrightarrow> indexed rs' m"
proof -
  assume i: "indexed rs m" and e: "map key rs = map key rs'"
  have "find_index (\<lambda>r. key r = Some k) rs = find_index (\<lambda>x. x = Some k) (map key rs)" for k rs
    by (induction rs) auto
  then show ?thesis using i e by (simp add: indexed_def first_pos_def)
qed

lemma indexed_replace:
  assumes "indexed rs m" and "i < length rs" and "stands_in (rs ! i) r"
  shows "indexed (rs[i := r]) m"
proof (rule indexed_same_keys [OF assms(1)])
  show "map key rs = map key (rs[i := r])"
    using assms(2) stands_in_key [OF assms(3)] list_update_id [of "map key rs" i] by (simp add: map_update)
qed

lemma indexed_append_keyless:
  assumes "indexed rs m" and "keyless r"
  shows "indexed (rs @ [r]) m"
  using assms keyless_key [of r] by (auto simp: indexed_def first_pos_def find_index_append_cases fun_eq_iff split: option.splits)

lemma indexed_lookup: "indexed rs m \<Longrightarrow> m k = Some i \<Longrightarrow> i < length rs \<and> key (rs ! i) = Some k \<and> (\<forall>j < i. key (rs ! j) \<noteq> Some k)"
  using find_index_Some [of "\<lambda>r. key r = Some k" rs i] by (simp add: indexed_def first_pos_def)

lemma indexed_missing: "indexed rs m \<Longrightarrow> m k = None \<Longrightarrow> r \<in> set rs \<Longrightarrow> key r \<noteq> Some k"
proof (induction rs arbitrary: m)
  case (Cons s rs)
  then have "key s \<noteq> Some k" "find_index (\<lambda>r. key r = Some k) rs = None"
    by (auto simp: indexed_def first_pos_def split: if_split_asm)
  then show ?case using Cons.IH [of "first_pos key rs"] Cons.prems(3) by (auto simp: indexed_def first_pos_def)
qed simp

end

end
