(* ===== verification/Header_Model.thy ===== *)
theory Header_Model
  imports Card_Render First_Index Checksum_Encode Plane
begin

text \<open>
  The header: its records in order with the two indexes of their first occurrences, and every operation
  on it, \<^verbatim>\<open>src/header_model/mod.rs\<close>. An operation checks before it changes anything, so it returns the
  changed header or an error that leaves the header as it was. A name is the \<^verbatim>\<open>RecordName\<close> that its
  argument was parsed to. The hash maps are maps; the one over \<^verbatim>\<open>HierarchName\<close>s is keyed by
  \<open>hierarch_key\<close>.
\<close>

record header =
  h_records :: "header_record list"
  h_index :: "keyword \<rightharpoonup> nat"
  h_hindex :: "string \<rightharpoonup> nat"
  h_repairs :: "repair list"

definition header_new :: header where
  "header_new = \<lparr>h_records = [], h_index = Map.empty, h_hindex = Map.empty, h_repairs = []\<rparr>"

definition record_hkey :: "header_record \<Rightarrow> string option" where
  "record_hkey r = map_option hierarch_key (record_hierarch_name r)"

section \<open>Keeping the indexes\<close>

definition insert_at :: "header \<Rightarrow> nat \<Rightarrow> header_record \<Rightarrow> header" where
  "insert_at h i r =
     h\<lparr>h_records := insert_nth i r (h_records h),
       h_index := index_insert record_keyword i r (h_records h) (h_index h),
       h_hindex := index_insert record_hkey i r (h_records h) (h_hindex h)\<rparr>"

definition push_record :: "header \<Rightarrow> header_record \<Rightarrow> header" where
  "push_record h r = insert_at h (length (h_records h)) r"

definition take_at :: "header \<Rightarrow> nat \<Rightarrow> header_record \<times> header" where
  "take_at h i =
     (let r = h_records h ! i; rs = remove_nth i (h_records h)
      in (r, h\<lparr>h_records := rs, h_index := index_remove record_keyword i r rs (h_index h),
               h_hindex := index_remove record_hkey i r rs (h_hindex h)\<rparr>))"

definition reindex :: "header \<Rightarrow> header" where
  "reindex h =
     h\<lparr>h_index := index_build record_keyword 0 (h_records h) Map.empty,
       h_hindex := index_build record_hkey 0 (h_records h) Map.empty\<rparr>"

section \<open>Parse\<close>

definition join_comment :: "string option \<Rightarrow> string option \<Rightarrow> string option" where
  "join_comment comment fragment =
     (case fragment of
        None \<Rightarrow> comment
      | Some f \<Rightarrow> (case comment of
          Some c \<Rightarrow> Some (c @ (if c = [] then [] else '' '') @ f)
        | None \<Rightarrow> Some f))"

text \<open>The text of a long string's card with its \<^verbatim>\<open>&\<close> replaced by the substring.\<close>

definition continue_text :: "string \<Rightarrow> string \<Rightarrow> string option" where
  "continue_text acc substring =
     (if acc \<noteq> [] \<and> last acc = CHR ''&'' then Some (butlast acc @ substring) else None)"

definition fold_continuation :: "header_record list \<Rightarrow> string \<Rightarrow> string option \<Rightarrow> header_record list option" where
  "fold_continuation rs substring fragment =
     (if rs = [] then None
      else case last rs of
             Valued k (VText acc) comment \<Rightarrow>
               map_option (\<lambda>t. butlast rs @ [Valued k (VText t) (join_comment comment fragment)]) (continue_text acc substring)
           | Hierarch name (VText acc) comment \<Rightarrow>
               map_option (\<lambda>t. butlast rs @ [Hierarch name (VText t) (join_comment comment fragment)]) (continue_text acc substring)
           | _ \<Rightarrow> None)"

definition drop_blank_records :: "header_record list \<Rightarrow> header_record list" where
  "drop_blank_records rs = rev (dropWhile (\<lambda>r. r = Commentary [] None) (rev rs))"

fun parse_cards :: "nat \<Rightarrow> bytes list \<Rightarrow> header \<Rightarrow> header run" where
  "parse_cards position [] h = Inl (Err MissingEnd)"
| "parse_cards position (chunk # later) h =
     bind (card_parse chunk) (\<lambda>(parsed, kinds).
       let h = h\<lparr>h_repairs := h_repairs h @ repairs_at (position + 1) kinds\<rparr>
       in case parsed of
            ParsedEnd \<Rightarrow> Inr (h\<lparr>h_records := drop_blank_records (h_records h)\<rparr>)
          | ParsedContinue substring comment rest \<Rightarrow>
              (case fold_continuation (h_records h) substring comment of
                 Some rs \<Rightarrow> parse_cards (position + 1) later (h\<lparr>h_records := rs\<rparr>)
               | None \<Rightarrow> parse_cards (position + 1) later (push_record h (Commentary ''CONTINUE'' rest)))
          | ParsedRecord r \<Rightarrow> parse_cards (position + 1) later (push_record h r))"

definition header_parse :: "bytes \<Rightarrow> header run" where
  "header_parse bs = parse_cards 0 (as_chunks CARD_SIZE bs) header_new"

section \<open>Lookup\<close>

fun header_first :: "header \<Rightarrow> record_name \<Rightarrow> nat option" where
  "header_first h (KeywordName k) = h_index h k"
| "header_first h (HierarchName name) = h_hindex h (hierarch_key name)"
| "header_first h (CommentaryName _) = None"

text \<open>An indexed record; a position past the records is a panic.\<close>

definition record_at :: "header \<Rightarrow> nat \<Rightarrow> header_record run" where
  "record_at h i = (if i < length (h_records h) then Inr (h_records h ! i) else Inl Panic)"

definition header_value :: "header \<Rightarrow> record_name \<Rightarrow> hvalue option run" where
  "header_value h name =
     (case header_first h name of
        None \<Rightarrow> Inr None
      | Some i \<Rightarrow> bind (record_at h i) (\<lambda>r. bind (value_or_defect r) (\<lambda>v. Inr (Some v))))"

definition header_get :: "header \<Rightarrow> record_name \<Rightarrow> hvalue option run" where
  "header_get h name = header_value h name"

definition get_comment :: "header \<Rightarrow> record_name \<Rightarrow> string option run" where
  "get_comment h name =
     (case header_first h name of
        None \<Rightarrow> Inr None
      | Some i \<Rightarrow> bind (record_at h i) (\<lambda>r. bind (value_or_defect r) (\<lambda>_. Inr (record_comment r))))"

definition typed_optional :: "header \<Rightarrow> record_name \<Rightarrow> value_kind \<Rightarrow> (hvalue \<Rightarrow> 'a option fits_result) \<Rightarrow> 'a option run" where
  "typed_optional h name expected convert =
     bind (header_value h name) (\<lambda>v.
       case v of
         None \<Rightarrow> Inr None
       | Some v \<Rightarrow>
           (case convert v of
              Inr (Some x) \<Rightarrow> Inr (Some x)
            | Inr None \<Rightarrow> Inl (Err (ValueTypeMismatch name expected))
            | Inl (IntegerOutOfRange _ text target) \<Rightarrow> Inl (Err (IntegerOutOfRange (Some name) text target))
            | Inl other \<Rightarrow> Inl (Err other)))"

definition typed_required :: "header \<Rightarrow> record_name \<Rightarrow> value_kind \<Rightarrow> (hvalue \<Rightarrow> 'a option fits_result) \<Rightarrow> 'a run" where
  "typed_required h name expected convert =
     bind (typed_optional h name expected convert) (\<lambda>v.
       case v of None \<Rightarrow> Inl (Err (MissingKeyword name)) | Some x \<Rightarrow> Inr x)"

definition get_logical :: "header \<Rightarrow> record_name \<Rightarrow> bool option run" where
  "get_logical h name = typed_optional h name KLogical (\<lambda>v. Inr (as_logical v))"

definition get_integer :: "header \<Rightarrow> record_name \<Rightarrow> int option run" where
  "get_integer h name = typed_optional h name KInteger as_integer"

definition get_real :: "header \<Rightarrow> record_name \<Rightarrow> f64 option run" where
  "get_real h name = typed_optional h name KReal as_real"

definition get_complex :: "header \<Rightarrow> record_name \<Rightarrow> (f64 \<times> f64) option run" where
  "get_complex h name = typed_optional h name KComplex as_complex"

definition get_text :: "header \<Rightarrow> record_name \<Rightarrow> string option run" where
  "get_text h name = typed_optional h name KText (\<lambda>v. Inr (as_text v))"

definition require_logical :: "header \<Rightarrow> record_name \<Rightarrow> bool run" where
  "require_logical h name = typed_required h name KLogical (\<lambda>v. Inr (as_logical v))"

definition require_integer :: "header \<Rightarrow> record_name \<Rightarrow> int run" where
  "require_integer h name = typed_required h name KInteger as_integer"

definition require_real :: "header \<Rightarrow> record_name \<Rightarrow> f64 run" where
  "require_real h name = typed_required h name KReal as_real"

definition require_complex :: "header \<Rightarrow> record_name \<Rightarrow> (f64 \<times> f64) run" where
  "require_complex h name = typed_required h name KComplex as_complex"

definition require_text :: "header \<Rightarrow> record_name \<Rightarrow> string run" where
  "require_text h name = typed_required h name KText (\<lambda>v. Inr (as_text v))"

text \<open>\<^verbatim>\<open>usize::try_from\<close> of an \<^verbatim>\<open>i64\<close>.\<close>

definition usize_from :: "keyword \<Rightarrow> int \<Rightarrow> nat run" where
  "usize_from keyword v =
     (if 0 \<le> v \<and> v \<le> int usize_max then Inr (nat v) else Inl (Err (InvalidKeywordValue keyword RangeDefect)))"

definition require_usize :: "header \<Rightarrow> keyword \<Rightarrow> nat run" where
  "require_usize h keyword = bind (require_integer h (KeywordName keyword)) (usize_from keyword)"

definition optional_usize :: "header \<Rightarrow> keyword \<Rightarrow> nat \<Rightarrow> nat run" where
  "optional_usize h keyword absent =
     bind (get_integer h (KeywordName keyword)) (\<lambda>v.
       case v of Some v \<Rightarrow> usize_from keyword v | None \<Rightarrow> Inr absent)"

definition header_len :: "header \<Rightarrow> nat" where "header_len h = length (h_records h)"

definition header_is_empty :: "header \<Rightarrow> bool" where "header_is_empty h = (h_records h = [])"

definition index_of :: "header \<Rightarrow> record_name \<Rightarrow> nat option" where
  "index_of h name =
     (let stop = (case header_first h name of Some i \<Rightarrow> i + 1 | None \<Rightarrow> length (h_records h))
      in find_index (\<lambda>r. is_named r name) (take stop (h_records h)))"

definition header_contains :: "header \<Rightarrow> record_name \<Rightarrow> bool" where
  "header_contains h name = (index_of h name \<noteq> None)"

definition header_commentary :: "header \<Rightarrow> string \<Rightarrow> string list" where
  "header_commentary h name =
     concat (map (\<lambda>r. case r of
                        Commentary own text \<Rightarrow> if own = name then [case text of Some t \<Rightarrow> t | None \<Rightarrow> []] else []
                      | _ \<Rightarrow> []) (h_records h))"

section \<open>The mandatory keywords\<close>

definition header_bitpix :: "header \<Rightarrow> bitpix run" where
  "header_bitpix h = bind (require_integer h (KeywordName ''BITPIX'')) (\<lambda>code. attempt (bitpix_try_from code))"

definition header_naxis :: "header \<Rightarrow> nat run" where
  "header_naxis h =
     bind (require_usize h ''NAXIS'') (\<lambda>n.
       if n > 999 then Inl (Err (InvalidKeywordValue ''NAXIS'' RangeDefect)) else Inr n)"

fun collect_axes :: "header \<Rightarrow> nat list \<Rightarrow> nat list run" where
  "collect_axes h [] = Inr []"
| "collect_axes h (n # ns) =
     bind (attempt (keyword_indexed ''NAXIS'' n)) (\<lambda>keyword.
     bind (require_usize h keyword) (\<lambda>len.
     bind (collect_axes h ns) (\<lambda>lens. Inr (len # lens))))"

definition header_axes :: "header \<Rightarrow> nat list run" where
  "header_axes h = bind (header_naxis h) (\<lambda>naxis. collect_axes h [1..<naxis + 1])"

definition count_keyword :: "header \<Rightarrow> keyword \<Rightarrow> nat \<Rightarrow> nat run" where
  "count_keyword h keyword absent =
     bind (get_integer h (KeywordName keyword)) (\<lambda>v.
       case v of
         Some v \<Rightarrow> if v < 0 then Inl (Err (InvalidKeywordValue keyword RangeDefect)) else Inr (nat v)
       | None \<Rightarrow> Inr absent)"

definition header_pcount :: "header \<Rightarrow> nat run" where "header_pcount h = count_keyword h ''PCOUNT'' 0"

definition header_gcount :: "header \<Rightarrow> nat run" where "header_gcount h = count_keyword h ''GCOUNT'' 1"

section \<open>Edits\<close>

text \<open>The record that takes an indexed record's place when its value changes.\<close>

fun with_value :: "header_record \<Rightarrow> hvalue \<Rightarrow> header_record run" where
  "with_value (Valued k _ comment) v = Inr (Valued k v comment)"
| "with_value (Hierarch name _ comment) v = Inr (Hierarch name v comment)"
| "with_value (Malformed (Some (KeywordName k)) raw d) v = Inr (Valued k v None)"
| "with_value (Malformed (Some (HierarchName name)) raw d) v = Inr (Hierarch name v None)"
| "with_value _ v = Inl Panic"

definition replace_value :: "header \<Rightarrow> nat \<Rightarrow> hvalue \<Rightarrow> header run" where
  "replace_value h i v =
     bind (record_at h i) (\<lambda>r.
     bind (with_value r v) (\<lambda>replacement.
     bind (card_validate replacement) (\<lambda>_.
       Inr (h\<lparr>h_records := (h_records h)[i := replacement]\<rparr>))))"

definition header_set :: "header \<Rightarrow> record_name \<Rightarrow> hvalue \<Rightarrow> header run" where
  "header_set h name v =
     bind (attempt (validate_valued name)) (\<lambda>_.
       case header_first h name of
         Some i \<Rightarrow> replace_value h i v
       | None \<Rightarrow>
           bind (record_valued name v) (\<lambda>r.
           bind (card_validate r) (\<lambda>_. Inr (push_record h r))))"

definition insert_record :: "header \<Rightarrow> nat \<Rightarrow> header_record \<Rightarrow> header run" where
  "insert_record h i r =
     (if i > length (h_records h) then Inl (Err (IndexOutOfBounds IxHeaderRecord i (length (h_records h))))
      else bind (attempt (case r of Valued k v c \<Rightarrow> validate_valued_keyword k | _ \<Rightarrow> Inr ())) (\<lambda>_.
           bind (case r of Malformed name raw d \<Rightarrow> Inr () | _ \<Rightarrow> card_validate r) (\<lambda>_.
             Inr (insert_at h i r))))"

definition header_insert :: "header \<Rightarrow> nat \<Rightarrow> record_name \<Rightarrow> hvalue \<Rightarrow> header run" where
  "header_insert h i name v = bind (record_valued name v) (\<lambda>r. insert_record h i r)"

definition header_append :: "header \<Rightarrow> record_name \<Rightarrow> hvalue \<Rightarrow> header run" where
  "header_append h name v = header_insert h (length (h_records h)) name v"

definition remove_at :: "header \<Rightarrow> nat \<Rightarrow> (header_record \<times> header) run" where
  "remove_at h i =
     (if i \<ge> length (h_records h) then Inl (Err (IndexOutOfBounds IxHeaderRecord i (length (h_records h))))
      else Inr (take_at h i))"

definition header_remove :: "header \<Rightarrow> record_name \<Rightarrow> (header_record option \<times> header) run" where
  "header_remove h name =
     (case index_of h name of
        None \<Rightarrow> Inr (None, h)
      | Some i \<Rightarrow> bind (remove_at h i) (\<lambda>(r, h). Inr (Some r, h)))"

definition remove_all :: "header \<Rightarrow> record_name \<Rightarrow> nat \<times> header" where
  "remove_all h name =
     (let old_len = length (h_records h);
          h' = h\<lparr>h_records := filter (\<lambda>r. \<not> is_named r name) (h_records h)\<rparr>;
          h'' = (if length (h_records h') \<noteq> old_len then reindex h' else h')
      in (old_len - length (h_records h''), h''))"

definition set_optional :: "header \<Rightarrow> record_name \<Rightarrow> hvalue option \<Rightarrow> header run" where
  "set_optional h name v =
     bind (attempt (validate_valued name)) (\<lambda>_.
       case v of
         None \<Rightarrow> Inr (snd (remove_all h name))
       | Some v \<Rightarrow> header_set h name v)"

text \<open>\<^verbatim>\<open>set_internal\<close> and \<^verbatim>\<open>set_comment_internal\<close> \<^verbatim>\<open>expect\<close> their result: an error is a panic.\<close>

definition expect :: "'a run \<Rightarrow> 'a run" where
  "expect r = (case r of Inl _ \<Rightarrow> Inl Panic | Inr a \<Rightarrow> Inr a)"

definition set_internal :: "header \<Rightarrow> record_name \<Rightarrow> hvalue \<Rightarrow> header run" where
  "set_internal h name v = expect (header_set h name v)"

definition append_filtered_from :: "header \<Rightarrow> header \<Rightarrow> (keyword \<Rightarrow> bool) \<Rightarrow> header" where
  "append_filtered_from h source keep =
     reindex (h\<lparr>h_records := h_records h @ filter (\<lambda>r. case record_keyword r of None \<Rightarrow> True | Some k \<Rightarrow> keep k)
                 (h_records source)\<rparr>)"

definition remove_where :: "header \<Rightarrow> (keyword \<Rightarrow> bool) \<Rightarrow> header" where
  "remove_where h should_remove =
     (let rs = filter (\<lambda>r. case record_keyword r of None \<Rightarrow> True | Some k \<Rightarrow> \<not> should_remove k) (h_records h);
          h' = h\<lparr>h_records := rs\<rparr>
      in if length rs \<noteq> length (h_records h) then reindex h' else h')"

definition rename_record :: "(keyword \<times> keyword) list \<Rightarrow> header_record \<Rightarrow> header_record \<times> bool" where
  "rename_record renames r =
     (case r of
        Valued k v comment \<Rightarrow>
          (case find (\<lambda>(old, new). k = old) renames of
             Some (_, new) \<Rightarrow> (Valued new v comment, True)
           | None \<Rightarrow> (r, False))
      | _ \<Rightarrow> (r, False))"

definition rename_keywords :: "header \<Rightarrow> (keyword \<times> keyword) list \<Rightarrow> header" where
  "rename_keywords h renames =
     (let renamed = map (rename_record renames) (h_records h);
          h' = h\<lparr>h_records := map fst renamed\<rparr>
      in if list_ex snd renamed then reindex h' else h')"

definition set_comment :: "header \<Rightarrow> record_name \<Rightarrow> string \<Rightarrow> header run" where
  "set_comment h name text =
     bind (attempt (validate_valued name)) (\<lambda>_.
     bind (attempt (validate_ascii text (CommentText name))) (\<lambda>_.
       case header_first h name of
         None \<Rightarrow> Inl (Err (MissingKeyword name))
       | Some i \<Rightarrow>
           bind (record_at h i) (\<lambda>r.
           bind (with_comment r text) (\<lambda>r.
           bind (card_validate r) (\<lambda>_. Inr (h\<lparr>h_records := (h_records h)[i := r]\<rparr>))))))"

definition set_comment_internal :: "header \<Rightarrow> record_name \<Rightarrow> string \<Rightarrow> header run" where
  "set_comment_internal h name text = expect (set_comment h name text)"

definition push_commentary :: "header \<Rightarrow> string \<Rightarrow> string \<Rightarrow> header run" where
  "push_commentary h name text =
     bind (attempt (commentary_try_from name)) (\<lambda>name.
       let r = record_commentary name text
       in bind (card_validate r) (\<lambda>_. Inr (h\<lparr>h_records := h_records h @ [r]\<rparr>)))"

section \<open>Render\<close>

datatype signing = Unsigned | SignPlaceholder | WithDataSum u32

datatype space = Spare nat | SpaceBlocks nat

text \<open>The value of a signed \<^verbatim>\<open>DATASUM\<close> or \<^verbatim>\<open>CHECKSUM\<close> record; none when the render does not sign.\<close>

definition signed_value :: "signing \<Rightarrow> keyword \<Rightarrow> string option" where
  "signed_value signing keyword =
     (case signing of
        Unsigned \<Rightarrow> None
      | SignPlaceholder \<Rightarrow> Some (if keyword = ''DATASUM'' then ''0'' else PLACEHOLDER)
      | WithDataSum data_sum \<Rightarrow> Some (if keyword = ''DATASUM'' then show_nat (unat data_sum) else PLACEHOLDER))"

text \<open>The rendered bytes so far, and where the \<^verbatim>\<open>CHECKSUM\<close> record starts in them.\<close>

type_synonym render_state = "bytes \<times> nat option"

definition render_signed :: "signing \<Rightarrow> keyword \<Rightarrow> string option \<Rightarrow> render_state \<Rightarrow> render_state run" where
  "render_signed signing keyword comment st =
     (case signed_value signing keyword of
        None \<Rightarrow> Inl Panic
      | Some v \<Rightarrow>
          bind (record_render (Valued keyword (VText v) comment)) (\<lambda>bs.
            Inr (fst st @ bs, if keyword = ''CHECKSUM'' then Some (length (fst st)) else snd st)))"

fun render_each :: "signing \<Rightarrow> nat option set \<Rightarrow> nat \<Rightarrow> header_record list \<Rightarrow> render_state \<Rightarrow> render_state run" where
  "render_each signing sums i [] st = Inr st"
| "render_each signing sums i (r # rs) st =
     bind (case record_keyword r of
             Some keyword \<Rightarrow>
               if keyword \<in> {''DATASUM'', ''CHECKSUM''} \<and> signing \<noteq> Unsigned \<and> Some i \<in> sums
               then render_signed signing keyword (record_comment r) st
               else bind (record_render r) (\<lambda>bs. Inr (fst st @ bs, snd st))
           | None \<Rightarrow> bind (record_render r) (\<lambda>bs. Inr (fst st @ bs, snd st)))
       (\<lambda>st. render_each signing sums (i + 1) rs st)"

definition render_missing :: "signing \<Rightarrow> keyword \<Rightarrow> nat option \<Rightarrow> render_state \<Rightarrow> render_state run" where
  "render_missing signing keyword at st =
     (if at = None then render_signed signing keyword None st else Inr st)"

definition render_records :: "header \<Rightarrow> signing \<Rightarrow> render_state run" where
  "render_records h signing =
     (let datasum = h_index h ''DATASUM''; checksum = h_index h ''CHECKSUM''
      in bind (render_each signing {datasum, checksum} 0 (h_records h) ([], None)) (\<lambda>st.
           if signing \<noteq> Unsigned
           then bind (render_missing signing ''DATASUM'' datasum st) (render_missing signing ''CHECKSUM'' checksum)
           else Inr st))"

definition next_multiple :: "nat \<Rightarrow> nat \<Rightarrow> nat" where
  "next_multiple n m = (n + m - 1) div m * m"

definition blank_byte :: u8 where "blank_byte = byte_of_char (CHR '' '')"

definition end_record :: bytes where
  "end_record = overwrite (replicate CARD_SIZE blank_byte) 0 (as_bytes ''END'')"

definition spare_records :: "nat \<Rightarrow> space \<Rightarrow> nat run" where
  "spare_records recs space =
     (case space of
        Spare spare \<Rightarrow> Inr spare
      | SpaceBlocks blocks \<Rightarrow>
          (let needed = (recs + 1 + RECORDS_PER_BLOCK - 1) div RECORDS_PER_BLOCK
           in if needed > blocks then Inl (Err (HeaderDoesNotFit needed blocks))
              else Inr (blocks * RECORDS_PER_BLOCK - recs - 1)))"

definition checked_header_len :: "nat \<Rightarrow> nat \<Rightarrow> nat option" where
  "checked_header_len recs spare =
     (case checked_add usize_max recs spare of
        None \<Rightarrow> None
      | Some n \<Rightarrow> (case checked_add usize_max n 1 of
          None \<Rightarrow> None
        | Some n \<Rightarrow> checked_mul usize_max n CARD_SIZE))"

text \<open>The header unit: records, spare blank records, \<^verbatim>\<open>END\<close>, and blanks to the block's end. A unit past the
  allocator's largest buffer is a panic.\<close>

definition fill_unit :: "bytes \<Rightarrow> nat \<Rightarrow> bytes" where
  "fill_unit out spare =
     (let out = out @ replicate (spare * CARD_SIZE) blank_byte @ end_record
      in out @ replicate (next_multiple (length out) BLOCK_SIZE - length out) blank_byte)"

definition sign_unit :: "signing \<Rightarrow> nat option \<Rightarrow> bytes \<Rightarrow> bytes" where
  "sign_unit signing checksum_at out =
     (case (signing, checksum_at) of
        (WithDataSum data_sum, Some at) \<Rightarrow> overwrite out (at + 11) (encode (combine (accumulate out 0) data_sum))
      | _ \<Rightarrow> out)"

definition header_render :: "header \<Rightarrow> signing \<Rightarrow> space \<Rightarrow> bytes run" where
  "header_render h signing space =
     bind (render_records h signing) (\<lambda>(out, checksum_at).
       let recs = length out div CARD_SIZE
       in bind (spare_records recs space) (\<lambda>spare.
          bind (attempt (ok_or (checked_header_len recs spare) DataUnitOverflow)) (\<lambda>len.
            if int (next_multiple len BLOCK_SIZE) > i64_max then Inl Panic
            else Inr (sign_unit signing checksum_at (fill_unit out spare)))))"

definition rendered_records :: "header \<Rightarrow> nat run" where
  "rendered_records h = bind (render_records h Unsigned) (\<lambda>(out, _). Inr (length out div CARD_SIZE))"

text \<open>Two headers are equal when their records are.\<close>

definition header_eq :: "header \<Rightarrow> header \<Rightarrow> bool" where
  "header_eq a b = (h_records a = h_records b)"

end
