(* ===== verification/Header_Index.thy ===== *)
theory Header_Index
  imports Header_Model
begin

text \<open>
  The header's invariant: its two indexes hold, for every name, the position of the first record with
  it, through every operation; what follows for lookups and edits, and that no lookup panics.
\<close>

section \<open>Records that keep the index\<close>

text \<open>A commentary record is in no index; a record stands in for another of its name.\<close>

fun keyless :: "header_record \<Rightarrow> bool" where
  "keyless (Commentary name text) = True"
| "keyless _ = False"

fun stands_in :: "header_record \<Rightarrow> header_record \<Rightarrow> bool" where
  "stands_in (Valued k v c) (Valued k' v' c') = (k = k')"
| "stands_in (Hierarch n v c) (Hierarch n' v' c') = (n = n')"
| "stands_in (Malformed (Some (KeywordName k)) raw d) (Valued k' v' c') = (k = k')"
| "stands_in (Malformed (Some (HierarchName n)) raw d) (Hierarch n' v' c') = (n = n')"
| "stands_in _ _ = False"

interpretation kw: keyed record_keyword keyless stands_in
proof unfold_locales
  show "keyless r \<Longrightarrow> record_keyword r = None" for r by (cases r) auto
  show "stands_in r s \<Longrightarrow> record_keyword s = record_keyword r" for r s
    by (cases "(r, s)" rule: stands_in.cases) auto
qed

interpretation hk: keyed record_hkey keyless stands_in
proof unfold_locales
  show "keyless r \<Longrightarrow> record_hkey r = None" for r by (cases r) (auto simp: record_hkey_def)
  show "stands_in r s \<Longrightarrow> record_hkey s = record_hkey r" for r s
    by (cases "(r, s)" rule: stands_in.cases) (auto simp: record_hkey_def)
qed

definition header_inv :: "header \<Rightarrow> bool" where
  "header_inv h \<longleftrightarrow> h_index h = first_pos record_keyword (h_records h) \<and> h_hindex h = first_pos record_hkey (h_records h)"

lemma header_inv_indexed:
  "header_inv h \<longleftrightarrow> kw.indexed (h_records h) (h_index h) \<and> hk.indexed (h_records h) (h_hindex h)"
  by (simp add: header_inv_def kw.indexed_def hk.indexed_def)

named_theorems inv_intros "operations that keep the header's invariant"

lemma inv_new [inv_intros]: "header_inv header_new"
  by (simp add: header_inv_def header_new_def first_pos_def)

lemma inv_repairs [simp]: "header_inv (h\<lparr>h_repairs := rp\<rparr>) = header_inv h"
  by (simp add: header_inv_def)

lemma inv_insert_at [inv_intros]: "header_inv h \<Longrightarrow> i \<le> length (h_records h) \<Longrightarrow> header_inv (insert_at h i r)"
  by (simp add: header_inv_def insert_at_def index_insert_first)

lemma inv_push_record [inv_intros]: "header_inv h \<Longrightarrow> header_inv (push_record h r)"
  by (simp add: push_record_def inv_insert_at)

lemma inv_take_at [inv_intros]: "header_inv h \<Longrightarrow> i < length (h_records h) \<Longrightarrow> header_inv (snd (take_at h i))"
  by (simp add: header_inv_def take_at_def Let_def index_remove_first)

lemma inv_reindex [inv_intros]: "header_inv (reindex h)"
  using kw.indexed_build hk.indexed_build by (simp add: header_inv_indexed reindex_def)

lemma inv_replace:
  "header_inv h \<Longrightarrow> i < length (h_records h) \<Longrightarrow> stands_in (h_records h ! i) r
    \<Longrightarrow> header_inv (h\<lparr>h_records := (h_records h)[i := r]\<rparr>)"
  using kw.indexed_replace hk.indexed_replace by (simp add: header_inv_indexed)

lemma inv_push_keyless: "header_inv h \<Longrightarrow> keyless r \<Longrightarrow> header_inv (h\<lparr>h_records := h_records h @ [r]\<rparr>)"
  using kw.indexed_append_keyless hk.indexed_append_keyless by (simp add: header_inv_indexed)

lemma inv_records:
  "header_inv h \<Longrightarrow> map record_keyword rs = map record_keyword (h_records h)
    \<Longrightarrow> map record_hkey rs = map record_hkey (h_records h) \<Longrightarrow> header_inv (h\<lparr>h_records := rs\<rparr>)"
  using kw.indexed_same_keys [of "h_records h" "h_index h" rs] hk.indexed_same_keys [of "h_records h" "h_hindex h" rs]
  by (simp add: header_inv_indexed)

section \<open>The parse keeps it\<close>

lemma first_pos_keyless:
  "(\<And>r. r \<in> set ks \<Longrightarrow> key r = None) \<Longrightarrow> first_pos key (rs @ ks) = first_pos key rs"
proof -
  assume k: "\<And>r. r \<in> set ks \<Longrightarrow> key r = None"
  have "find_index (\<lambda>r. key r = Some k) ks = None" for k
    using k by (induction ks) auto
  then show ?thesis by (simp add: first_pos_def find_index_append_cases fun_eq_iff split: option.splits)
qed

lemma inv_drop_blank_records: "header_inv h \<Longrightarrow> header_inv (h\<lparr>h_records := drop_blank_records (h_records h)\<rparr>)"
proof -
  assume inv: "header_inv h"
  let ?p = "\<lambda>r. r = Commentary [] None"
  define ds where "ds = drop_blank_records (h_records h)"
  obtain ks where rs: "h_records h = ds @ ks" and ks: "\<And>r. r \<in> set ks \<Longrightarrow> r = Commentary [] None"
  proof
    show "h_records h = ds @ rev (takeWhile ?p (rev (h_records h)))"
      unfolding ds_def drop_blank_records_def by (metis rev_append rev_rev_ident takeWhile_dropWhile_id)
    show "r = Commentary [] None" if "r \<in> set (rev (takeWhile ?p (rev (h_records h))))" for r
      using that by (auto dest: set_takeWhileD)
  qed
  have "first_pos record_keyword (ds @ ks) = first_pos record_keyword ds"
    by (rule first_pos_keyless) (auto dest: ks)
  moreover have "first_pos record_hkey (ds @ ks) = first_pos record_hkey ds"
    by (rule first_pos_keyless) (auto dest: ks simp: record_hkey_def)
  ultimately have "header_inv (h\<lparr>h_records := ds\<rparr>)"
    using inv unfolding header_inv_def rs by simp
  then show ?thesis unfolding ds_def .
qed

lemma fold_continuation_keys:
  assumes "fold_continuation rs substring fragment = Some rs'"
  shows "map record_keyword rs' = map record_keyword rs \<and> map record_hkey rs' = map record_hkey rs"
proof -
  have ne: "rs \<noteq> []" using assms by (auto simp: fold_continuation_def)
  then have rs: "rs = butlast rs @ [last rs]" by simp
  obtain r where "rs' = butlast rs @ [r]" "record_keyword r = record_keyword (last rs)" "record_hkey r = record_hkey (last rs)"
    using assms ne
    by (cases "last rs") (auto simp: fold_continuation_def record_hkey_def split: hvalue.splits)
  then show ?thesis by (metis (no_types, lifting) rs map_append list.map)
qed

lemma inv_parse_cards: "parse_cards position cards h = Inr h' \<Longrightarrow> header_inv h \<Longrightarrow> header_inv h'"
proof (induction position cards h rule: parse_cards.induct)
  case (2 position chunk later h)
  obtain parsed kinds where p: "card_parse chunk = Inr (parsed, kinds)"
    using 2 by (auto simp: bind_eq_Inr)
  let ?h = "h\<lparr>h_repairs := h_repairs h @ repairs_at (position + 1) kinds\<rparr>"
  have inv: "header_inv ?h" using "2.prems" by simp
  show ?case
  proof (cases parsed)
    case (ParsedRecord r)
    then show ?thesis using 2 p inv inv_push_record [OF inv, of r] by simp
  next
    case (ParsedContinue substring comment tail)
    show ?thesis
    proof (cases "fold_continuation (h_records ?h) substring comment")
      case None
      then show ?thesis
        using 2 p ParsedContinue inv inv_push_record [OF inv, of "Commentary ''CONTINUE'' tail"] by simp
    next
      case (Some rs)
      have "header_inv (?h\<lparr>h_records := rs\<rparr>)"
        using inv fold_continuation_keys [OF Some] by (intro inv_records) auto
      then show ?thesis using 2 p ParsedContinue Some by simp
    qed
  next
    case ParsedEnd
    then show ?thesis using 2 p inv_drop_blank_records [OF inv] by simp
  qed
qed simp

lemma inv_parse: "header_parse bs = Inr h \<Longrightarrow> header_inv h"
  using inv_parse_cards inv_new by (auto simp: header_parse_def)

section \<open>The edits keep it\<close>

lemma with_value_stands_in: "with_value r v = Inr s \<Longrightarrow> stands_in r s"
  by (cases "(r, v)" rule: with_value.cases) auto

lemma with_comment_stands_in: "with_comment r text = Inr s \<Longrightarrow> stands_in r s"
  by (cases r) auto

lemma record_at_eq_Inr: "record_at h i = Inr r \<longleftrightarrow> i < length (h_records h) \<and> r = h_records h ! i"
  by (auto simp: record_at_def)

lemma inv_replace_value [inv_intros]: "replace_value h i v = Inr h' \<Longrightarrow> header_inv h \<Longrightarrow> header_inv h'"
  by (auto simp: replace_value_def bind_eq_Inr record_at_eq_Inr intro!: inv_replace with_value_stands_in)

lemma inv_set [inv_intros]: "header_set h name v = Inr h' \<Longrightarrow> header_inv h \<Longrightarrow> header_inv h'"
  by (auto simp: header_set_def bind_eq_Inr split: option.splits intro: inv_intros)

lemma inv_insert_record [inv_intros]: "insert_record h i r = Inr h' \<Longrightarrow> header_inv h \<Longrightarrow> header_inv h'"
  by (auto simp: insert_record_def bind_eq_Inr split: if_split_asm intro!: inv_insert_at)

lemma inv_insert [inv_intros]: "header_insert h i name v = Inr h' \<Longrightarrow> header_inv h \<Longrightarrow> header_inv h'"
  by (auto simp: header_insert_def bind_eq_Inr intro: inv_insert_record)

lemma inv_remove_at [inv_intros]: "remove_at h i = Inr (r, h') \<Longrightarrow> header_inv h \<Longrightarrow> header_inv h'"
  using inv_take_at [of h i] by (auto simp: remove_at_def split: if_split_asm)

lemma inv_remove [inv_intros]: "header_remove h name = Inr (r, h') \<Longrightarrow> header_inv h \<Longrightarrow> header_inv h'"
  by (auto simp: header_remove_def bind_eq_Inr split: option.splits intro: inv_remove_at)

lemma filter_all_length: "length (filter p xs) = length xs \<Longrightarrow> filter p xs = xs"
  by (metis filter_id_conv length_filter_less nat_neq_iff)

lemma inv_remove_all [inv_intros]: "header_inv h \<Longrightarrow> header_inv (snd (remove_all h name))"
  using filter_all_length [of "\<lambda>r. \<not> is_named r name" "h_records h"]
  by (auto simp: remove_all_def Let_def inv_reindex)

lemma inv_set_optional [inv_intros]: "set_optional h name v = Inr h' \<Longrightarrow> header_inv h \<Longrightarrow> header_inv h'"
  by (auto simp: set_optional_def bind_eq_Inr split: option.splits intro: inv_intros)

lemma inv_append_filtered [inv_intros]: "header_inv (append_filtered_from h source keep)"
  by (simp add: append_filtered_from_def inv_reindex)

lemma inv_remove_where [inv_intros]: "header_inv h \<Longrightarrow> header_inv (remove_where h should_remove)"
  using filter_all_length [of "\<lambda>r. case record_keyword r of None \<Rightarrow> True | Some k \<Rightarrow> \<not> should_remove k" "h_records h"]
  by (auto simp: remove_where_def Let_def inv_reindex)

lemma rename_record_same: "\<not> snd (rename_record renames r) \<Longrightarrow> fst (rename_record renames r) = r"
  by (auto simp: rename_record_def split: header_record.splits option.splits)

lemma inv_rename_keywords [inv_intros]: "header_inv h \<Longrightarrow> header_inv (rename_keywords h renames)"
proof (cases "list_ex snd (map (rename_record renames) (h_records h))")
  case False
  assume inv: "header_inv h"
  have "map fst (map (rename_record renames) (h_records h)) = h_records h"
    using False rename_record_same by (induction "h_records h") (auto simp: list_ex_iff intro!: map_idI)
  then show ?thesis using False inv by (simp add: rename_keywords_def Let_def)
qed (simp add: rename_keywords_def inv_reindex)

lemma inv_set_comment [inv_intros]: "set_comment h name text = Inr h' \<Longrightarrow> header_inv h \<Longrightarrow> header_inv h'"
  by (auto simp: set_comment_def bind_eq_Inr record_at_eq_Inr split: option.splits
      intro!: inv_replace with_comment_stands_in)

lemma inv_push_commentary [inv_intros]: "push_commentary h name text = Inr h' \<Longrightarrow> header_inv h \<Longrightarrow> header_inv h'"
  by (auto simp: push_commentary_def bind_eq_Inr record_commentary_def Let_def intro!: inv_push_keyless)

section \<open>Headers that programs build\<close>

text \<open>What a program can do with a header: parse one or start one, and edit it.\<close>

inductive header_step :: "header \<Rightarrow> header \<Rightarrow> bool" where
  step_set: "header_set h name v = Inr h' \<Longrightarrow> header_step h h'"
| step_set_optional: "set_optional h name opt = Inr h' \<Longrightarrow> header_step h h'"
| step_insert: "header_insert h i name v = Inr h' \<Longrightarrow> header_step h h'"
| step_insert_record: "insert_record h i r = Inr h' \<Longrightarrow> header_step h h'"
| step_remove: "header_remove h name = Inr (r', h') \<Longrightarrow> header_step h h'"
| step_remove_at: "remove_at h i = Inr (r, h') \<Longrightarrow> header_step h h'"
| step_remove_all: "remove_all h name = (n, h') \<Longrightarrow> header_step h h'"
| step_append_filtered: "append_filtered_from h source keep = h' \<Longrightarrow> header_step h h'"
| step_remove_where: "remove_where h should_remove = h' \<Longrightarrow> header_step h h'"
| step_rename: "rename_keywords h renames = h' \<Longrightarrow> header_step h h'"
| step_set_comment: "set_comment h name text = Inr h' \<Longrightarrow> header_step h h'"
| step_push_commentary: "push_commentary h cname text = Inr h' \<Longrightarrow> header_step h h'"

inductive header_built :: "header \<Rightarrow> bool" where
  built_new: "header_built header_new"
| built_parse: "header_parse bs = Inr h \<Longrightarrow> header_built h"
| built_step: "header_built h \<Longrightarrow> header_step h h' \<Longrightarrow> header_built h'"

lemma inv_step: "header_step h h' \<Longrightarrow> header_inv h \<Longrightarrow> header_inv h'"
proof (induction rule: header_step.induct)
  case (step_remove_all h name n h')
  then show ?case using inv_remove_all [of h name] by simp
qed (auto intro: inv_intros)

text \<open>C6: In every header a program parses, starts or edits, each index holds for every name the position of
  the first record with that name, and for no other name a position.\<close>

theorem built_header_inv:
  assumes "header_built h"
  shows "h_index h = first_pos record_keyword (h_records h) \<and> h_hindex h = first_pos record_hkey (h_records h)"
proof -
  have "header_inv h"
    using assms by (induction rule: header_built.induct) (auto intro: inv_new inv_parse inv_step)
  then show ?thesis by (simp add: header_inv_def)
qed

lemma built_header_inv_witness:
  "h_index (push_record header_new (Valued ''OBJECT'' VUndefined None))
      = first_pos record_keyword (h_records (push_record header_new (Valued ''OBJECT'' VUndefined None)))
    \<and> h_hindex (push_record header_new (Valued ''OBJECT'' VUndefined None))
      = first_pos record_hkey (h_records (push_record header_new (Valued ''OBJECT'' VUndefined None)))"
proof (rule built_header_inv)
  have "card_validate (Valued ''OBJECT'' VUndefined None) = Inr ()" by code_simp
  then have "header_set header_new (KeywordName ''OBJECT'') VUndefined
      = Inr (push_record header_new (Valued ''OBJECT'' VUndefined None))"
    by (simp add: header_set_def header_new_def record_valued_def validate_valued_keyword_def)
  then show "header_built (push_record header_new (Valued ''OBJECT'' VUndefined None))"
    by (intro built_step [OF built_new] step_set)
qed

lemma built_inv: "header_built h \<Longrightarrow> header_inv h"
  by (induction rule: header_built.induct) (auto intro: inv_new inv_parse inv_step)

section \<open>Lookups without the index\<close>

text \<open>The record a name is looked up by: the first one a scan of the records finds.\<close>

fun answers :: "record_name \<Rightarrow> header_record \<Rightarrow> bool" where
  "answers (KeywordName k) r = (record_keyword r = Some k)"
| "answers (HierarchName name) r = (record_hkey r = Some (hierarch_key name))"
| "answers (CommentaryName _) r = False"

definition scan_first :: "header_record list \<Rightarrow> record_name \<Rightarrow> nat option" where
  "scan_first rs name = find_index (answers name) rs"

lemma answers_fun:
  "answers (KeywordName k) = (\<lambda>r. record_keyword r = Some k)"
  "answers (HierarchName n) = (\<lambda>r. record_hkey r = Some (hierarch_key n))"
  "answers (CommentaryName c) = (\<lambda>r. False)"
  by (simp_all add: fun_eq_iff)

lemma find_index_False [simp]: "find_index (\<lambda>r. False) rs = None"
  by (induction rs) auto

lemma header_first_scan: "header_inv h \<Longrightarrow> header_first h name = scan_first (h_records h) name"
  by (cases name) (simp_all add: header_inv_def scan_first_def first_pos_def answers_fun find_index_None)

lemma answers_named: "answers name r \<Longrightarrow> is_named r name"
  by (cases name; cases "record_hierarch_name r") (auto simp: record_hkey_def hierarch_eq_def)

lemma scan_first_take:
  assumes "find_index p xs = Some i" and "\<And>x. p x \<Longrightarrow> q x"
  shows "find_index q (take (Suc i) xs) = find_index q xs"
proof -
  have i: "i < length xs" "p (xs ! i)" using find_index_Some [OF assms(1)] by auto
  then have "q (xs ! i)" using assms(2) by simp
  then have "find_index q (take (Suc i) xs) \<noteq> None"
    using i by (auto simp: find_index_None in_set_conv_nth take_Suc_conv_app_nth)
  then show ?thesis
    using find_index_append_cases [of q "take (Suc i) xs" "drop (Suc i) xs"] by (auto split: option.splits)
qed

text \<open>The search for a record's position that stops at its indexed record finds what a search of all the
  records finds.\<close>

theorem index_of_is_search:
  assumes "header_built h"
  shows "index_of h name = find_index (\<lambda>r. is_named r name) (h_records h)"
proof (cases "header_first h name")
  case None
  then show ?thesis by (simp add: index_of_def)
next
  case (Some i)
  then have "find_index (answers name) (h_records h) = Some i"
    using header_first_scan [OF built_inv [OF assms]] by (simp add: scan_first_def)
  then show ?thesis
    using Some scan_first_take [of "answers name" "h_records h" i "\<lambda>r. is_named r name"] answers_named
    by (simp add: index_of_def)
qed

lemma index_of_is_search_witness:
  "index_of header_new (KeywordName ''HISTORY'')
    = find_index (\<lambda>r. is_named r (KeywordName ''HISTORY'')) (h_records header_new)"
  by (rule index_of_is_search) (rule built_new)

section \<open>No lookup panics\<close>

lemma answers_value: "answers name r \<Longrightarrow> value_or_defect r \<noteq> Inl Panic"
  by (cases name; cases r) (auto simp: record_hkey_def)

lemma first_record:
  assumes "header_inv h" and "header_first h name = Some i"
  shows "i < length (h_records h)" and "answers name (h_records h ! i)"
  using assms find_index_Some [of "answers name" "h_records h" i] by (auto simp: header_first_scan scan_first_def)

text \<open>The value of a name by a scan of the records.\<close>

definition scan_value :: "header_record list \<Rightarrow> record_name \<Rightarrow> hvalue option run" where
  "scan_value rs name =
     (case find (answers name) rs of
        None \<Rightarrow> Inr None
      | Some r \<Rightarrow> bind (value_or_defect r) (\<lambda>v. Inr (Some v)))"

lemma find_find_index: "find p xs = map_option ((!) xs) (find_index p xs)"
  by (induction xs) (auto simp: option.map_comp comp_def)

lemma get_scan:
  assumes "header_built h"
  shows "header_get h name = scan_value (h_records h) name \<and> header_get h name \<noteq> Inl Panic"
proof -
  note inv = built_inv [OF assms]
  have "header_get h name = scan_value (h_records h) name"
    using first_record [OF inv] header_first_scan [OF inv, of name]
    by (auto simp: header_get_def header_value_def scan_value_def find_find_index scan_first_def record_at_def
        split: option.splits)
  moreover have "scan_value (h_records h) name \<noteq> Inl Panic"
    using answers_value by (auto simp: scan_value_def bind_eq_Inl find_Some_iff split: option.splits)
  ultimately show ?thesis by simp
qed

text \<open>C7: A lookup through the index gives the value of the first record a scan finds, or that record's
  defect, and never panics.\<close>

theorem header_get_refines_scan:
  assumes "header_built h"
  shows "header_get h name = scan_value (h_records h) name \<and> header_get h name \<noteq> Inl Panic"
  using assms by (rule get_scan)

lemma header_get_refines_scan_witness:
  "header_get header_new (KeywordName ''NAXIS'') = scan_value (h_records header_new) (KeywordName ''NAXIS'')
    \<and> header_get header_new (KeywordName ''NAXIS'') \<noteq> Inl Panic"
  by (rule header_get_refines_scan) (rule built_new)

section \<open>Edits and lookups\<close>

lemma answers_unique_name:
  "answers name r \<Longrightarrow> stands_in r s \<Longrightarrow> answers name s"
  using kw.stands_in_key [of r s] hk.stands_in_key [of r s] by (cases name) auto

lemma stands_in_answers: "stands_in r s \<Longrightarrow> answers name s = answers name r"
  using kw.stands_in_key [of r s] hk.stands_in_key [of r s] by (cases name) auto

lemma find_list_update:
  assumes "find_index p xs = Some i"
  shows "find q (xs[i := y]) = (if q y \<and> (\<forall>j < i. \<not> q (xs ! j)) then Some y else find q (xs[i := y]))"
proof -
  have i: "i < length xs" using find_index_lt [OF assms] .
  have "find q (xs[i := y]) = Some y" if "q y" "\<forall>j < i. \<not> q (xs ! j)"
    using that i by (auto simp: find_Some_iff intro!: exI [of _ i])
  then show ?thesis by simp
qed

lemma scan_value_first:
  "find_index (answers name) rs = Some i \<Longrightarrow> scan_value rs name = bind (value_or_defect (rs ! i)) (\<lambda>v. Inr (Some v))"
  by (simp add: scan_value_def find_find_index)

lemma find_index_stands_in:
  "i < length rs \<Longrightarrow> stands_in (rs ! i) r \<Longrightarrow> find_index (answers name) (rs[i := r]) = find_index (answers name) rs"
proof -
  assume i: "i < length rs" and s: "stands_in (rs ! i) r"
  have "map (answers name) (rs[i := r]) = map (answers name) rs"
    using i stands_in_answers [OF s, of name] by (simp add: map_update list_update_same_conv)
  moreover have "find_index p xs = find_index (\<lambda>b. b) (map p xs)" for p and xs :: "header_record list"
    by (induction xs) auto
  ultimately show ?thesis by metis
qed

text \<open>The values a header holds, by name, after an edit of the record at \<open>i\<close> in place.\<close>

lemma scan_value_replaced:
  assumes "i < length rs" and "stands_in (rs ! i) r"
  shows "scan_value (rs[i := r]) name
    = (if find_index (answers name) rs = Some i then bind (value_or_defect r) (\<lambda>v. Inr (Some v)) else scan_value rs name)"
proof (cases "find_index (answers name) rs")
  case None
  then show ?thesis
    using find_index_stands_in [OF assms, of name] by (simp add: scan_value_def find_find_index)
next
  case (Some j)
  then show ?thesis
    using find_index_stands_in [OF assms, of name] assms(1) scan_value_first [of name rs j]
      scan_value_first [of name "rs[i := r]" j] by (cases "j = i") simp_all
qed

lemma with_value_value: "with_value r v = Inr s \<Longrightarrow> value_or_defect s = Inr v"
  by (cases "(r, v)" rule: with_value.cases) auto

lemma same_first_same_name:
  assumes "answers name r" and "answers other r"
  shows "(\<exists>k. name = KeywordName k \<and> other = KeywordName k)
    \<or> (\<exists>a b. name = HierarchName a \<and> other = HierarchName b \<and> hierarch_key a = hierarch_key b)"
  using assms by (cases name; cases other; cases r rule: record_keyword.cases) (auto simp: record_hkey_def)

text \<open>Two names that look up the same record: equal keywords, or \<^verbatim>\<open>HIERARCH\<close> names equal but for case.\<close>

fun same_name :: "record_name \<Rightarrow> record_name \<Rightarrow> bool" where
  "same_name (KeywordName a) (KeywordName b) = (a = b)"
| "same_name (HierarchName a) (HierarchName b) = hierarch_eq a b"
| "same_name _ _ = False"

lemma answers_same_name: "answers name r \<Longrightarrow> answers other r \<longleftrightarrow> same_name name other"
  using same_first_same_name [of name r other]
  by (cases name; cases other) (auto simp: hierarch_eq_def record_hkey_def)

lemma scan_value_snoc:
  "scan_value (rs @ [r]) name = (if find_index (answers name) rs = None \<and> answers name r
     then bind (value_or_defect r) (\<lambda>v. Inr (Some v)) else scan_value rs name)"
  by (cases "find_index (answers name) rs")
     (auto simp: scan_value_def find_find_index find_index_append_cases nth_append dest: find_index_lt)

lemma header_set_records:
  assumes "header_inv h" and "header_set h name v = Inr h'"
  shows "(\<exists>i r. find_index (answers name) (h_records h) = Some i \<and> with_value (h_records h ! i) v = Inr r
        \<and> h_records h' = (h_records h)[i := r])
    \<or> (\<exists>r. find_index (answers name) (h_records h) = None \<and> record_valued name v = Inr r \<and> h_records h' = h_records h @ [r])"
proof (cases "header_first h name")
  case None
  then show ?thesis
    using assms header_first_scan [OF assms(1), of name]
    by (auto simp: header_set_def bind_eq_Inr scan_first_def push_record_def insert_at_def insert_nth_def)
next
  case (Some i)
  then show ?thesis
    using assms header_first_scan [OF assms(1), of name]
    by (auto simp: header_set_def bind_eq_Inr scan_first_def replace_value_def record_at_eq_Inr)
qed

lemma record_valued_answers: "record_valued name v = Inr r \<Longrightarrow> answers name r \<and> value_or_defect r = Inr v"
  by (cases name) (auto simp: record_valued_def bind_eq_Inr record_hkey_def)

text \<open>C31: Setting a name's value makes a lookup of that name give the value, and leaves what every other name
  looks up as it was.\<close>

theorem header_set_get:
  assumes "header_built h" and "header_set h name v = Inr h'"
  shows "header_get h' other = (if same_name name other then Inr (Some v) else header_get h other)"
proof -
  note inv = built_inv [OF assms(1)]
  have built': "header_built h'" using assms by (intro built_step [OF assms(1)] step_set)
  have get: "header_get h' other = scan_value (h_records h') other" "header_get h other = scan_value (h_records h) other"
    using get_scan built' assms(1) by blast+
  from header_set_records [OF inv assms(2)] show ?thesis
  proof (elim disjE exE conjE)
    fix i r
    assume f: "find_index (answers name) (h_records h) = Some i" and w: "with_value (h_records h ! i) v = Inr r"
      and rs: "h_records h' = (h_records h)[i := r]"
    note i = find_index_Some [OF f]
    have "find_index (answers other) (h_records h) = Some i \<longleftrightarrow> same_name name other"
    proof
      assume "find_index (answers other) (h_records h) = Some i"
      then have "answers other (h_records h ! i)" using find_index_Some by blast
      then show "same_name name other" using i answers_same_name by blast
    next
      assume "same_name name other"
      then have "answers other = answers name"
        by (cases name; cases other) (auto simp: hierarch_eq_def fun_eq_iff)
      then show "find_index (answers other) (h_records h) = Some i" using f by simp
    qed
    then show ?thesis
      using scan_value_replaced [of i "h_records h" r other] i with_value_stands_in [OF w] with_value_value [OF w]
      by (simp add: get rs)
  next
    fix r
    assume f: "find_index (answers name) (h_records h) = None" and w: "record_valued name v = Inr r"
      and rs: "h_records h' = h_records h @ [r]"
    note r = record_valued_answers [OF w]
    have "find_index (answers other) (h_records h) = None" if "same_name name other"
    proof -
      have "answers other = answers name"
        using that by (cases name; cases other) (auto simp: hierarch_eq_def fun_eq_iff)
      then show ?thesis using f by simp
    qed
    then show ?thesis
      using r answers_same_name [of name r other] by (simp add: get rs scan_value_snoc)
  qed
qed

lemma set_new:
  assumes "card_validate (Valued k v None) = Inr ()" and "validate_valued_keyword k = Inr ()"
  shows "header_set header_new (KeywordName k) v = Inr (push_record header_new (Valued k v None))"
  using assms by (simp add: header_set_def header_new_def record_valued_def)

lemma header_set_get_witness:
  "header_get (push_record header_new (Valued ''OBJECT'' VUndefined None)) (KeywordName ''NAXIS'')
    = (if same_name (KeywordName ''OBJECT'') (KeywordName ''NAXIS'') then Inr (Some VUndefined)
       else header_get header_new (KeywordName ''NAXIS''))"
proof (rule header_set_get [OF built_new])
  have "card_validate (Valued ''OBJECT'' VUndefined None) = Inr ()" by code_simp
  then show "header_set header_new (KeywordName ''OBJECT'') VUndefined
      = Inr (push_record header_new (Valued ''OBJECT'' VUndefined None))"
    by (rule set_new) (simp add: validate_valued_keyword_def)
qed

lemma remove_insert_nth: "i \<le> length rs \<Longrightarrow> remove_nth i (insert_nth i r rs) = rs"
  by (simp add: remove_nth_def insert_nth_def min_absorb2)

lemma nth_insert_nth: "i \<le> length rs \<Longrightarrow> insert_nth i r rs ! i = r \<and> length (insert_nth i r rs) = Suc (length rs)"
  by (simp add: insert_nth_def nth_append)

lemma header_inv_unique:
  "header_inv a \<Longrightarrow> header_inv b \<Longrightarrow> h_records a = h_records b \<Longrightarrow> h_repairs a = h_repairs b \<Longrightarrow> a = b"
  by (simp add: header_inv_def)

text \<open>C32: Removing a record that was inserted at a position gives back the record and the header before the
  insertion, its two indexes included.\<close>

theorem insert_remove_inverse:
  assumes "header_built h" and "insert_record h i r = Inr h'"
  shows "remove_at h' i = Inr (r, h)"
proof -
  note inv = built_inv [OF assms(1)]
  have i: "i \<le> length (h_records h)" and h': "h' = insert_at h i r"
    using assms(2) by (auto simp: insert_record_def bind_eq_Inr split: if_split_asm)
  have inv': "header_inv h'" using inv i h' by (auto intro: inv_insert_at)
  have rs: "h_records h' = insert_nth i r (h_records h)" and rp: "h_repairs h' = h_repairs h"
    by (simp_all add: h' insert_at_def)
  have lt: "i < length (h_records h')" using nth_insert_nth [OF i, of r] i by (simp add: rs)
  have "snd (take_at h' i) = h"
  proof (rule header_inv_unique)
    show "header_inv (snd (take_at h' i))" using inv' lt by (rule inv_take_at)
    show "h_records (snd (take_at h' i)) = h_records h"
      using i by (simp add: take_at_def Let_def rs remove_insert_nth)
    show "h_repairs (snd (take_at h' i)) = h_repairs h" by (simp add: take_at_def Let_def rp)
  qed (rule inv)
  moreover have "fst (take_at h' i) = r"
    using nth_insert_nth [OF i, of r] by (simp add: take_at_def Let_def rs)
  ultimately have "take_at h' i = (r, h)" by (metis prod.collapse)
  then show ?thesis using lt by (simp add: remove_at_def)
qed

lemma insert_remove_inverse_witness:
  "remove_at (insert_at header_new 0 (Valued ''OBJECT'' VUndefined None)) 0
    = Inr (Valued ''OBJECT'' VUndefined None, header_new)"
proof (rule insert_remove_inverse [OF built_new])
  have "card_validate (Valued ''OBJECT'' VUndefined None) = Inr ()" by code_simp
  then show "insert_record header_new 0 (Valued ''OBJECT'' VUndefined None)
      = Inr (insert_at header_new 0 (Valued ''OBJECT'' VUndefined None))"
    by (simp add: insert_record_def header_new_def validate_valued_keyword_def)
qed

end
