(* ===== verification/Header_Names_Correct.thy ===== *)
theory Header_Names_Correct
  imports Header_Names
begin

text \<open>
  What the names of header records promise: the byte-wise trim is the standard library's, an indexed
  keyword and its index determine each other, and a record's name reads back from its text.
\<close>

section \<open>Blanks\<close>

lemma is_blank_whitespace: "is_blank = is_whitespace"
proof
  fix c
  have "c = CHR '' '' \<longleftrightarrow> code_of c = code_of (CHR '' '')" by (simp only: code_of_inject)
  then show "is_blank c = is_whitespace c" by (auto simp: is_blank_def is_whitespace_def code_of_def)
qed

lemma find_index_dropWhile:
  "dropWhile (\<lambda>x. \<not> p x) xs = (case find_index p xs of Some i \<Rightarrow> drop i xs | None \<Rightarrow> [])"
  by (induction xs) (auto split: option.splits)

lemma rev_dropWhile_rev:
  "rev (dropWhile (\<lambda>x. \<not> p x) (rev xs)) = (case rfind_index p xs of Some i \<Rightarrow> take (Suc i) xs | None \<Rightarrow> [])"
proof (cases "find_index p (rev xs)")
  case (Some i)
  then have i: "i < length xs" using find_index_Some [OF Some] by simp
  then show ?thesis
    using Some by (simp add: find_index_dropWhile rfind_index_def drop_rev Suc_diff_Suc)
qed (simp add: find_index_dropWhile rfind_index_def)

text \<open>The trim a byte at a time drops exactly what \<^verbatim>\<open>str::trim\<close> drops from ASCII text.\<close>

lemma blank_trim_is_trim: "blank_trim s = trim s"
proof (cases "find_index (\<lambda>c. \<not> is_whitespace c) s")
  case None
  then have blank: "\<forall>c\<in>set s. is_whitespace c" by (simp add: find_index_None)
  then have "rfind_index (\<lambda>c. \<not> is_whitespace c) s = None"
    by (simp add: rfind_index_def find_index_None)
  moreover have "trim_start s = []" using blank by (simp add: trim_start_def)
  ultimately show ?thesis
    using None by (simp add: blank_trim_def is_blank_whitespace trim_def trim_end_def)
next
  case (Some i)
  note i = find_index_Some [OF Some]
  let ?p = "\<lambda>c. \<not> is_whitespace c"
  have start: "trim_start s = drop i s"
    using find_index_dropWhile [of ?p s] Some by (simp add: trim_start_def)
  obtain j where j: "rfind_index ?p s = Some j" "j < length s" "?p (s ! j)" "\<forall>k < length s. j < k \<longrightarrow> \<not> ?p (s ! k)"
  proof -
    have "find_index ?p (rev s) \<noteq> None" using i nth_mem [of i s] by (auto simp: find_index_None)
    then obtain r where r: "find_index ?p (rev s) = Some r" by auto
    note f = find_index_Some [OF r]
    have 1: "rfind_index ?p s = Some (length s - 1 - r)" by (simp add: rfind_index_def r)
    have 2: "?p (s ! (length s - 1 - r))" using f rev_nth [of r s] by simp
    have 3: "\<not> ?p (s ! k)" if "k < length s" "length s - 1 - r < k" for k
    proof -
      have "length s - 1 - k < r" using that f by simp
      then have "\<not> ?p (rev s ! (length s - 1 - k))" using f by blast
      then show ?thesis using that by (simp add: rev_nth)
    qed
    have "r < length s" using f by simp
    then have "length s - 1 - r < length s" by linarith
    then show ?thesis using that [of "length s - 1 - r"] 1 2 3 by blast
  qed
  have ij: "i \<le> j" using i j by (metis not_le)
  have r': "rfind_index ?p (drop i s) = Some (j - i)"
  proof -
    have sp: "rev (drop i s) = rev (drop (Suc j) s) @ s ! j # rev (take (j - i) (drop i s))"
    proof -
      have "drop i s = take (j - i) (drop i s) @ s ! j # drop (Suc j) s"
        using id_take_nth_drop [of "j - i" "drop i s"] ij j(2) by simp
      then show ?thesis by (metis rev.simps(2) rev_append append.assoc append_Cons append_Nil)
    qed
    have "find_index ?p (rev (drop i s)) = Some (length (rev (drop (Suc j) s)))"
      unfolding sp using j by (intro find_index_append) (auto simp: in_set_conv_nth)
    then show ?thesis using ij j(2) by (simp add: rfind_index_def)
  qed
  have "trim s = take (Suc (j - i)) (drop i s)"
    unfolding trim_def start trim_end_def using rev_dropWhile_rev [of ?p "drop i s"] r' by simp
  moreover have "take (Suc (j - i)) (drop i s) = drop i (take (Suc j) s)"
    using ij by (simp add: drop_take Suc_diff_le)
  ultimately show ?thesis
    using Some j(1) by (simp add: blank_trim_def is_blank_whitespace)
qed

section \<open>Indexed keywords\<close>

lemma digit_char_val: "is_ascii_digit c \<Longrightarrow> digit_char (digit_val c) = c"
  by (simp add: is_ascii_digit_def digit_val_def digit_char_def code_of_def)

lemma digit_val_lt: "is_ascii_digit c \<Longrightarrow> digit_val c < 10"
  unfolding is_ascii_digit_def digit_val_def by linarith

lemma digits_val_pos:
  "list_all is_ascii_digit (c # ds) \<Longrightarrow> c \<noteq> CHR ''0'' \<Longrightarrow> 0 < digits_val (c # ds)"
proof (induction ds rule: rev_induct)
  case Nil
  have "code_of (CHR ''0'') = 48" by (simp add: code_of_def)
  then have "code_of c \<noteq> 48" using Nil(2) by (metis code_of_inject)
  then show ?case using Nil(1) by (simp add: digits_val_def digit_val_def is_ascii_digit_def)
next
  case (snoc d ds)
  then show ?case using digits_val_snoc [of "c # ds" d] by simp
qed

text \<open>Digits without a leading zero are the display of their number.\<close>

lemma show_digits_val:
  "list_all is_ascii_digit (c # ds) \<Longrightarrow> c \<noteq> CHR ''0'' \<Longrightarrow> show_nat (digits_val (c # ds)) = c # ds"
proof (induction ds rule: rev_induct)
  case Nil
  then show ?case
    using digit_val_lt [of c] digit_char_val [of c] by (simp add: digits_val_def show_nat.simps [of "digit_val c"])
next
  case (snoc d ds)
  let ?n = "digits_val (c # ds)"
  have d: "is_ascii_digit d" "digit_val d < 10" using snoc.prems digit_val_lt by auto
  have IH: "show_nat ?n = c # ds" and pos: "0 < ?n" using snoc digits_val_pos by auto
  have v: "digits_val (c # ds @ [d]) = ?n * 10 + digit_val d" using digits_val_snoc [of "c # ds" d] by simp
  then show ?case
    using d pos IH digit_char_val [OF d(1)] by (subst show_nat.simps) (simp add: v)
qed

lemma digit_char_zero [simp]: "digit_char 0 = CHR ''0''"
  by code_simp

lemma show_nat_no_zero: "0 < n \<Longrightarrow> show_nat n = c # ds \<Longrightarrow> c \<noteq> CHR ''0''"
proof (induction n arbitrary: c ds rule: show_nat.induct)
  case (1 n)
  show ?case
  proof (cases "n < 10")
    case True
    then have "c = digit_char n" using "1.prems" by (simp add: show_nat.simps [of n])
    then show ?thesis using digit_char_simps(2) [OF True] "1.prems" by (auto simp: digit_val_def code_of_def)
  next
    case False
    then obtain ds' where "show_nat (n div 10) = c # ds'"
      using "1.prems" show_nat_ne [of "n div 10"] by (cases "show_nat (n div 10)") (auto simp: show_nat.simps [of n])
    then show ?thesis using "1.IH" [OF False] False by simp
  qed
qed

text \<open>A keyword has the index \<open>n\<close> in a root's family exactly when it is the root followed by the
  decimal \<open>n\<close>, with \<open>n\<close> positive: a keyword has at most one index, and \<^verbatim>\<open>NAXIS03\<close> none.\<close>

lemma index_after_iff:
  "index_after k root = Some n \<longleftrightarrow> k = root @ show_nat n \<and> 0 < n \<and> n \<le> usize_max"
proof
  assume "index_after k root = Some n"
  then obtain suffix where f: "k = root @ suffix" "suffix \<noteq> []" "hd suffix \<noteq> CHR ''0''"
    "list_all is_ascii_digit suffix" "parse_unsigned usize_max suffix = Some n"
    by (auto simp: index_after_def strip_prefix_Some split: option.splits if_split_asm)
  then obtain c ds where s: "k = root @ c # ds" "c \<noteq> CHR ''0''" "list_all is_ascii_digit (c # ds)"
    "parse_unsigned usize_max (c # ds) = Some n"
    by (cases suffix) auto
  have "c \<noteq> CHR ''+''" using s(3) by (auto simp: is_ascii_digit_def code_of_def)
  then have "n = digits_val (c # ds)" "n \<le> usize_max"
    using s(3,4) by (auto simp: parse_unsigned_def Let_def split: if_split_asm)
  then show "k = root @ show_nat n \<and> 0 < n \<and> n \<le> usize_max"
    using s show_digits_val [of c ds] digits_val_pos [of c ds] by simp
next
  assume n: "k = root @ show_nat n \<and> 0 < n \<and> n \<le> usize_max"
  obtain c ds where s: "show_nat n = c # ds" using show_nat_ne [of n] by (cases "show_nat n") auto
  then have "c \<noteq> CHR ''0''" using n show_nat_no_zero by blast
  then show "index_after k root = Some n"
    using n s show_nat_all_digits [of n] parse_show_nat [of n usize_max] by (simp add: index_after_def)
qed

section \<open>Formatted names\<close>

text \<open>The pieces a name is formatted from never overrun the 8 bytes of the inline storage.\<close>

lemma keyword_from_format_eq:
  "keyword_from_format pieces =
     (if admits KeywordRule (concat pieces) then Inr (concat pieces) else Inl (InvalidKeyword (concat pieces)))"
proof (cases "inline_formatted pieces")
  case None
  then have "8 < length (concat pieces)" using inline_formatted_str [of pieces] by (auto split: if_splits)
  then show ?thesis using None by (simp add: keyword_from_format_def admits_def)
next
  case (Some n)
  then have "inline_str n = concat pieces" using inline_formatted_str [of pieces] by (auto split: if_splits)
  then show ?thesis using Some by (simp add: keyword_from_format_def keyword_try_from_def keyword_checked_iff)
qed

text \<open>An indexed keyword is made when the text is a keyword, and its index then reads back from it; the
  index 0 is read back as none.\<close>

theorem keyword_indexed_result:
  assumes "n \<le> usize_max"
  shows "keyword_indexed root n = (if admits KeywordRule (root @ show_nat n) then Inr (root @ show_nat n)
      else Inl (InvalidKeyword (root @ show_nat n)))
    \<and> index_after (root @ show_nat n) root = (if n = 0 then None else Some n)"
proof -
  have "index_after (root @ show_nat n) root = (if n = 0 then None else Some n)"
  proof (cases "n = 0")
    case True
    then show ?thesis by (simp add: index_after_def show_nat.simps)
  next
    case False
    then show ?thesis using assms index_after_iff [of "root @ show_nat n" root n] by simp
  qed
  then show ?thesis by (simp add: keyword_indexed_def keyword_from_format_eq)
qed

lemma keyword_indexed_result_witness:
  "keyword_indexed ''NAXIS'' 3 = (if admits KeywordRule (''NAXIS'' @ show_nat 3) then Inr (''NAXIS'' @ show_nat 3)
      else Inl (InvalidKeyword (''NAXIS'' @ show_nat 3)))
    \<and> index_after (''NAXIS'' @ show_nat 3) ''NAXIS'' = (if (3::nat) = 0 then None else Some 3)"
  by (rule keyword_indexed_result) (simp add: usize_max_def)

section \<open>HIERARCH names\<close>

definition token_ok :: "string \<Rightarrow> bool" where
  "token_ok t \<longleftrightarrow> t \<noteq> [] \<and> list_all (\<lambda>c. is_ascii_graphic c \<and> c \<noteq> CHR ''='') t"

text \<open>A name in its canonical form: tokens joined by one blank.\<close>

definition hierarch_ok :: "string \<Rightarrow> bool" where
  "hierarch_ok name \<longleftrightarrow> hierarch_from_str name = Inr name"

fun join_tokens :: "string list \<Rightarrow> string" where
  "join_tokens [] = []"
| "join_tokens [t] = t"
| "join_tokens (t # u # ts) = t @ '' '' @ join_tokens (u # ts)"

lemma graphic_not_space: "is_ascii_graphic c \<Longrightarrow> \<not> is_ascii_whitespace c"
  by (auto simp: is_ascii_graphic_def is_ascii_whitespace_def)

lemma words_of_Nil [simp]: "words_of [] = []"
  by (simp add: words_of.simps)

lemma words_of_ne: "t \<in> set (words_of s) \<Longrightarrow> t \<noteq> []"
proof (induction s rule: words_of.induct)
  case (1 s)
  then show ?case by (cases "dropWhile is_ascii_whitespace s") (auto simp: words_of.simps [of s])
qed

lemma words_of_token:
  assumes "t \<noteq> []" and "\<And>c. c \<in> set t \<Longrightarrow> \<not> is_ascii_whitespace c" and "s = [] \<or> is_ascii_whitespace (hd s)"
  shows "words_of (t @ s) = t # words_of s"
proof -
  obtain c cs where t: "t = c # cs" using assms(1) by (cases t) auto
  have "dropWhile is_ascii_whitespace (t @ s) = c # cs @ s" using t assms(2) by simp
  moreover have "takeWhile (\<lambda>c. \<not> is_ascii_whitespace c) (cs @ s) = cs"
    "dropWhile (\<lambda>c. \<not> is_ascii_whitespace c) (cs @ s) = s"
    using assms(2,3) t by (cases s; simp)+
  ultimately show ?thesis using t by (subst words_of.simps) simp
qed

lemma words_of_space: "words_of (CHR '' '' # s) = words_of s"
proof -
  have "is_ascii_whitespace (CHR '' '')" by (simp add: is_ascii_whitespace_def code_of_def)
  then show ?thesis by (subst (1 2) words_of.simps) simp
qed

lemma words_of_join: "list_all token_ok ts \<Longrightarrow> words_of (join_tokens ts) = ts"
proof (induction ts rule: join_tokens.induct)
  case (2 t)
  then show ?case using words_of_token [of t "[]"] graphic_not_space by (auto simp: token_ok_def list_all_iff)
next
  case (3 t u ts)
  have "is_ascii_whitespace (CHR '' '')" by (simp add: is_ascii_whitespace_def code_of_def)
  then show ?case
    using 3 words_of_token [of t "CHR '' '' # join_tokens (u # ts)"] graphic_not_space
    by (auto simp: token_ok_def list_all_iff words_of_space)
qed simp

lemma join_tokens_snoc: "ts \<noteq> [] \<Longrightarrow> join_tokens (ts @ [t]) = join_tokens ts @ '' '' @ t"
  by (induction ts rule: join_tokens.induct) auto

lemma join_tokens_ne: "list_all token_ok ts \<Longrightarrow> join_tokens ts = [] \<longleftrightarrow> ts = []"
  by (induction ts rule: join_tokens.induct) (auto simp: token_ok_def)

lemma push_tokens_join:
  assumes "list_all token_ok us" and "\<And>t. t \<in> set ts \<Longrightarrow> t \<noteq> []"
  shows "push_tokens (join_tokens us) ts = (if list_all token_ok ts then Some (join_tokens (us @ ts)) else None)"
  using assms
proof (induction ts arbitrary: us)
  case (Cons t ts)
  show ?case
  proof (cases "token_ok t")
    case True
    have "(if join_tokens us = [] then [] else join_tokens us @ '' '') @ t = join_tokens (us @ [t])"
      using join_tokens_ne [OF Cons.prems(1)] join_tokens_snoc [of us t] by auto
    moreover have "push_tokens (join_tokens (us @ [t])) ts
        = (if list_all token_ok ts then Some (join_tokens ((us @ [t]) @ ts)) else None)"
      using Cons True by (intro Cons.IH) auto
    moreover have "push_tokens (join_tokens us) (t # ts)
        = push_tokens ((if join_tokens us = [] then [] else join_tokens us @ '' '') @ t) ts"
      using True by (simp add: token_ok_def)
    ultimately show ?thesis using True by simp
  next
    case False
    then have "\<not> list_all (\<lambda>c. is_ascii_graphic c \<and> c \<noteq> CHR ''='') t" using Cons.prems by (simp add: token_ok_def)
    then show ?thesis using False by simp
  qed
qed simp

lemma hierarch_from_str_eq:
  "hierarch_from_str s = (if words_of s \<noteq> [] \<and> list_all token_ok (words_of s) then Inr (join_tokens (words_of s))
     else Inl (InvalidKeyword s))"
  using push_tokens_join [of "[]" "words_of s"] words_of_ne [of _ s] join_tokens_ne [of "words_of s"]
  by (auto simp: hierarch_from_str_def)

text \<open>A parsed name is canonical: it parses to itself.\<close>

lemma hierarch_from_str_ok: "hierarch_from_str s = Inr h \<Longrightarrow> hierarch_ok h"
  by (auto simp: hierarch_from_str_eq hierarch_ok_def words_of_join split: if_split_asm)

text \<open>A name the record-name type holds: a keyword within its rule, a canonical \<^verbatim>\<open>HIERARCH\<close> name.\<close>

fun record_name_ok :: "record_name \<Rightarrow> bool" where
  "record_name_ok (KeywordName k) = admits KeywordRule k"
| "record_name_ok (HierarchName h) = hierarch_ok h"
| "record_name_ok (CommentaryName c) = admits CommentaryRule c"

lemma keyword_no_space: "admits KeywordRule k \<Longrightarrow> CHR '' '' \<notin> set k"
  by (auto simp: admits_def list_all_iff char_classes code_of_def split: if_split_asm)


end
