(* ===== verification/Card_Line.thy ===== *)
theory Card_Line
  imports Card_Render Header_Names_Correct
begin

text \<open>
  A rendered record as text: the record buffer's bytes are those of a line, its text padded with blanks to
  80 characters, and every write at the text's end appends to it.
\<close>

section \<open>Text and bytes\<close>

definition is_ascii :: "string \<Rightarrow> bool" where "is_ascii s \<longleftrightarrow> list_all (\<lambda>c. code_of c < 128) s"

lemma is_ascii_simps [simp]:
  "is_ascii []" "is_ascii (c # s) \<longleftrightarrow> code_of c < 128 \<and> is_ascii s" "is_ascii (s @ t) \<longleftrightarrow> is_ascii s \<and> is_ascii t"
  by (auto simp: is_ascii_def)

lemma is_ascii_replicate: "code_of c < 128 \<Longrightarrow> is_ascii (replicate n c)"
  by (simp add: is_ascii_def list_all_iff)

lemma is_ascii_printable: "list_all is_printable s \<Longrightarrow> is_ascii s"
  by (auto simp: is_ascii_def list_all_iff is_printable_def)

lemma unat_byte_of_char [simp]: "unat (byte_of_char c) = code_of c"
  using code_of_lt [of c] by (simp add: byte_of_char_def unat_of_nat)

lemma byte_of_char_inject [simp]: "byte_of_char c = byte_of_char d \<longleftrightarrow> c = d"
  by (metis unat_byte_of_char code_of_inject)

lemma char_of_byte_of_char [simp]: "char_of_byte (byte_of_char c) = c"
  by (simp add: char_of_byte_def) (simp add: code_of_def)

lemma length_as_bytes [simp]: "length (as_bytes s) = length s"
  by (simp add: as_bytes_def)

lemma as_bytes_simps [simp]: "as_bytes [] = []" "as_bytes (c # s) = byte_of_char c # as_bytes s"
  "as_bytes (s @ t) = as_bytes s @ as_bytes t"
  by (simp_all add: as_bytes_def)

lemma as_bytes_inject [simp]: "as_bytes s = as_bytes t \<longleftrightarrow> s = t"
  by (simp add: as_bytes_def inj_map_eq_map inj_def)

lemma take_as_bytes: "take n (as_bytes s) = as_bytes (take n s)"
  and drop_as_bytes: "drop n (as_bytes s) = as_bytes (drop n s)"
  by (simp_all add: as_bytes_def take_map drop_map)

lemma slice_as_bytes: "slice a b (as_bytes s) = as_bytes (slice a b s)"
  by (simp add: slice_def take_as_bytes drop_as_bytes)

lemma byte_ascii_as_bytes: "is_ascii s \<Longrightarrow> list_all byte_ascii (as_bytes s)"
  by (induction s) (auto simp: byte_ascii_def)

lemma ascii_text_as_bytes [simp]: "is_ascii s \<Longrightarrow> ascii_text (as_bytes s) = s"
  by (induction s) (auto simp: ascii_text_def byte_ascii_def)

lemma is_ascii_take: "is_ascii s \<Longrightarrow> is_ascii (take n s)"
  and is_ascii_drop: "is_ascii s \<Longrightarrow> is_ascii (drop n s)"
  by (auto simp: is_ascii_def list_all_iff dest: in_set_takeD in_set_dropD)

lemma non_ascii_in_as_bytes [simp]: "is_ascii s \<Longrightarrow> \<not> non_ascii_in (as_bytes s) a b"
proof -
  assume "is_ascii s"
  then have "is_ascii (slice a b s)" by (simp add: slice_def is_ascii_take is_ascii_drop)
  then show ?thesis by (simp add: non_ascii_in_def slice_as_bytes byte_ascii_as_bytes)
qed

lemma text_repair_as_bytes [simp]: "is_ascii s \<Longrightarrow> text_repair (as_bytes s) a = []"
  by (simp add: text_repair_def)

section \<open>Lines\<close>

abbreviation blanks :: "nat \<Rightarrow> string" where "blanks n \<equiv> replicate n (CHR '' '')"

definition line :: "string \<Rightarrow> string" where "line p = p @ blanks (CARD_SIZE - length p)"

lemma length_line [simp]: "length p \<le> CARD_SIZE \<Longrightarrow> length (line p) = CARD_SIZE"
  by (simp add: line_def)

lemma code_of_blank [simp]: "code_of (CHR '' '') = 32"
  by (simp add: code_of_def)

lemma is_ascii_blanks [simp]: "is_ascii (blanks n)"
  by (simp add: is_ascii_replicate)

lemma is_ascii_line [simp]: "is_ascii (line p) \<longleftrightarrow> is_ascii p"
  by (simp add: line_def)

lemma line_blanks: "length p + n \<le> CARD_SIZE \<Longrightarrow> line (p @ blanks n) = line p"
  by (simp add: line_def flip: replicate_add)

lemma as_bytes_overwrite: "as_bytes (overwrite s at t) = overwrite (as_bytes s) at (as_bytes t)"
  by (simp add: overwrite_def take_as_bytes drop_as_bytes)

lemma overwrite_line:
  "length p + length s \<le> CARD_SIZE \<Longrightarrow> overwrite (line p) (length p) s = line (p @ s)"
  by (simp add: overwrite_def line_def)

lemma as_bytes_blanks: "as_bytes (blanks n) = replicate n (byte_of_char (CHR '' ''))"
  by (simp add: as_bytes_def)

text \<open>A buffer that holds a line.\<close>

definition buf_line :: "record_buf \<Rightarrow> string \<Rightarrow> bool" where
  "buf_line b p \<longleftrightarrow> length p \<le> CARD_SIZE \<and> buf_bytes b = as_bytes (line p)"

lemma buf_named_line: "length field \<le> CARD_SIZE \<Longrightarrow> buf_line (buf_named field ld) field"
  using overwrite_line [of "[]" field]
  by (simp add: buf_line_def buf_named_def flip: as_bytes_blanks as_bytes_overwrite) (simp add: line_def)

lemma buf_put_line:
  assumes "buf_line b p" and "length p + length s \<le> CARD_SIZE"
  shows "buf_line (buf_put b (length p) s) (p @ s)"
  using assms overwrite_line [of p s] by (simp add: buf_line_def buf_put_def flip: as_bytes_overwrite)

lemma buf_line_blanks: "buf_line b p \<Longrightarrow> length p + n \<le> CARD_SIZE \<Longrightarrow> buf_line b (p @ blanks n)"
  by (simp add: buf_line_def line_blanks)

lemma buf_indicator_line:
  assumes "buf_line b k" and "length k \<le> 8"
  shows "buf_line (buf_indicator b) (k @ blanks (8 - length k) @ ''='')"
proof -
  have l: "line k = (k @ blanks (8 - length k)) @ CHR '' '' # blanks 71"
  proof -
    have "blanks (80 - length k) = blanks (8 - length k) @ blanks (Suc 71)"
      using assms(2) by (simp add: replicate_add [symmetric] del: replicate_Suc)
    then show ?thesis using replicate_Suc [of 71 "CHR '' ''"] by (simp add: line_def CARD_SIZE_def)
  qed
  have n: "length (k @ blanks (8 - length k)) = 8" using assms(2) by simp
  have "(line k)[8 := CHR ''=''] = (k @ blanks (8 - length k)) @ CHR ''='' # blanks 71"
    unfolding l using list_update_length [of "k @ blanks (8 - length k)" "CHR '' ''" "blanks 71" "CHR ''=''"] n by simp
  moreover have "\<dots> = line (k @ blanks (8 - length k) @ ''='')"
    using n by (simp add: line_def CARD_SIZE_def)
  ultimately have "as_bytes ((line k)[8 := CHR ''='']) = as_bytes (line (k @ blanks (8 - length k) @ ''=''))"
    by simp
  moreover have "as_bytes ((line k)[8 := CHR ''='']) = (as_bytes (line k))[8 := byte_of_char (CHR ''='')]"
    by (simp add: as_bytes_def map_update)
  ultimately show ?thesis
    using assms n by (simp add: buf_line_def buf_indicator_def CARD_SIZE_def)
qed

section \<open>Writes\<close>

lemma write_str_line:
  assumes "buf_line b p" and "write_str_at b (length p) s = Inr (b', pos)"
  shows "buf_line b' (p @ s) \<and> pos = length (p @ s) \<and> buf_lead b' = buf_lead b"
  using assms buf_put_line [OF assms(1), of s]
  by (auto simp: write_str_at_def Let_def buf_put_def split: if_split_asm)

lemma write_value_line:
  assumes "buf_line b p" and "write_value_at b (length p) v = Inr (b', pos)"
  shows "buf_line b' (p @ value_text v) \<and> pos = length (p @ value_text v) \<and> buf_lead b' = buf_lead b"
  using assms buf_put_line [OF assms(1), of "value_text v"]
  by (auto simp: write_value_at_def buf_put_def split: if_split_asm)

definition comment_part :: "string option \<Rightarrow> string" where
  "comment_part comment = (case comment of None \<Rightarrow> [] | Some c \<Rightarrow> '' / '' @ c)"

lemma write_comment_line:
  assumes "buf_line b p" and "write_comment_at b (length p) comment = Inr (b', pos)"
  shows "buf_line b' (p @ comment_part comment)"
proof (cases comment)
  case None
  then show ?thesis using assms by (simp add: write_comment_at_def comment_part_def)
next
  case (Some c)
  then obtain b1 pos1 where w: "write_str_at b (length p) '' / '' = Inr (b1, pos1)" "write_str_at b1 pos1 c = Inr (b', pos)"
    using assms(2) by (auto simp: write_comment_at_def bind_eq_Inr)
  have 1: "buf_line b1 (p @ '' / '')" "pos1 = length (p @ '' / '')"
    using write_str_line [OF assms(1) w(1)] by auto
  then have "buf_line b' ((p @ '' / '') @ c)"
    using write_str_line [OF 1(1), of c b' pos] w(2) by simp
  then show ?thesis using Some by (simp add: comment_part_def)
qed

lemma buf_line_bytes: "buf_line b p \<Longrightarrow> buf_bytes b = as_bytes (line p) \<and> length p \<le> CARD_SIZE"
  by (simp add: buf_line_def)

section \<open>A single record as a line\<close>

definition valued_lead :: "keyword \<Rightarrow> string" where
  "valued_lead k = k @ blanks (8 - length k) @ ''=''"

lemma value_pos_ge: "10 \<le> value_pos v"
  by (cases v) (auto simp: max_def)

lemma length_valued_lead: "length k \<le> 8 \<Longrightarrow> length (valued_lead k) = 9"
  by (simp add: valued_lead_def)

lemma render_valued_line:
  assumes "length k \<le> 8" and "render_one (Valued k v comment) = Inr raw"
  obtains p where "p = valued_lead k @ blanks (value_pos v - 9) @ value_text v @ comment_part comment"
    and "raw = as_bytes (line p)" and "length p \<le> CARD_SIZE"
proof -
  obtain b1 pos1 b2 pos2 where w: "write_value_at (buf_indicator (buf_new (LeadKeyword k))) (value_pos v) v = Inr (b1, pos1)"
    "write_comment_at b1 pos1 comment = Inr (b2, pos2)" and raw: "raw = buf_bytes b2"
    using assms(2) by (auto simp: bind_eq_Inr attempt_eq_Inr)
  let ?p0 = "valued_lead k @ blanks (value_pos v - 9)"
  have "value_pos v + length (value_text v) \<le> CARD_SIZE"
    using w(1) by (auto simp: write_value_at_def split: if_split_asm)
  then have "length (valued_lead k) + (value_pos v - 9) \<le> CARD_SIZE"
    using value_pos_ge [of v] length_valued_lead [OF assms(1)] by simp
  moreover have "buf_line (buf_indicator (buf_new (LeadKeyword k))) (valued_lead k)"
    unfolding valued_lead_def buf_new.simps
    by (rule buf_indicator_line [OF buf_named_line]) (use assms(1) in \<open>simp_all add: CARD_SIZE_def\<close>)
  ultimately have l0: "buf_line (buf_indicator (buf_new (LeadKeyword k))) ?p0"
    by (intro buf_line_blanks)
  have len0: "length ?p0 = value_pos v"
    using value_pos_ge [of v] length_valued_lead [OF assms(1)] by simp
  have "write_value_at (buf_indicator (buf_new (LeadKeyword k))) (length ?p0) v = Inr (b1, pos1)"
    using w(1) unfolding len0 .
  from write_value_line [OF l0 this] have l1: "buf_line b1 (?p0 @ value_text v)" "pos1 = length (?p0 @ value_text v)"
    by simp_all
  then have "buf_line b2 ((?p0 @ value_text v) @ comment_part comment)"
    using write_comment_line w(2) by blast
  then show ?thesis
    using that raw buf_line_bytes by (metis append.assoc)
qed

end
