(* ===== verification/Value_Correct.thy ===== *)
theory Value_Correct
  imports Card_Line
begin

text \<open>
  The text of every value parses back to the value: the integers of any range, the reals through the
  shortest decimal, the complex pairs and the escaped strings.
\<close>

section \<open>Integers\<close>

lemma show_int_cases: "(\<exists>n. v = int n \<and> show_int v = show_nat n) \<or> (\<exists>n. v = - int n \<and> 0 < n \<and> show_int v = CHR ''-'' # show_nat n)"
proof (cases "v < 0")
  case True
  then show ?thesis by (intro disjI2 exI [of _ "nat (- v)"]) (simp add: show_int_def)
next
  case False
  then have "v = int (nat v)" by simp
  then show ?thesis using False unfolding show_int_def by metis
qed

lemma trim_start_zeros_show: "0 < n \<Longrightarrow> trim_start_zeros (show_nat n) = show_nat n"
proof -
  assume n: "0 < n"
  obtain c cs where s: "show_nat n = c # cs" using show_nat_ne [of n] by (cases "show_nat n") auto
  then show ?thesis using show_nat_no_zero [OF n s] by (simp add: trim_start_zeros_def)
qed

lemma parse_signed_show_int: "parse_signed lo hi (show_int v) = (if lo \<le> v \<and> v \<le> hi then Some v else None)"
proof (cases "v < 0")
  case True
  then show ?thesis
    using show_nat_all_digits [of "nat (- v)"] digits_val_show_nat [of "nat (- v)"]
    by (simp add: parse_signed_def show_int_def)
next
  case False
  obtain d cs where h: "d < 10" "show_nat (nat v) = digit_char d # cs" using show_nat_hd by blast
  then show ?thesis
    using False show_nat_all_digits [of "nat v"] digits_val_show_nat [of "nat v"]
    by (simp add: parse_signed_def show_int_def)
qed

text \<open>An integer in the type's form: its display is the display of its value.\<close>

lemma integer_ok_display: "integer_ok i \<Longrightarrow> integer_display i = show_int (integer_value i)"
proof (induction i)
  case (IntDecimal s)
  then obtain v where s: "s = show_int v" by auto
  show ?case
    using show_int_cases [of v]
  proof (elim disjE exE conjE)
    fix n assume n: "v = int n" "show_int v = show_nat n"
    obtain d cs where h: "d < 10" "show_nat n = digit_char d # cs" using show_nat_hd by blast
    then show ?thesis using n s digits_val_show_nat [of n] by simp
  next
    fix n assume n: "v = - int n" "show_int v = CHR ''-'' # show_nat n"
    then show ?thesis using s digits_val_show_nat [of n] by simp
  qed
qed simp

lemma integer_value_display: "integer_ok i \<Longrightarrow> integer_parse (show_int (integer_value i)) = Some i"
proof (induction i)
  case (IntI64 v)
  then show ?case by (simp add: integer_parse_def parse_signed_show_int)
next
  case (IntDecimal s)
  then obtain v where s: "s = show_int v" and out: "\<not> (i64_min \<le> v \<and> v \<le> i64_max)" by auto
  have val: "show_int (integer_value (IntDecimal s)) = s"
    using integer_ok_display [OF IntDecimal] by simp
  have no: "parse_signed i64_min i64_max s = None" using out by (simp add: s parse_signed_show_int)
  show ?case
    unfolding val using show_int_cases [of v]
  proof (elim disjE exE conjE)
    fix n assume n: "v = int n" "show_int v = show_nat n"
    then have pos: "0 < n" using out by (auto simp: i64_min_def i64_max_def)
    obtain d cs where h: "d < 10" "show_nat n = digit_char d # cs" using show_nat_hd by blast
    then show "integer_parse s = Some (IntDecimal s)"
      using n no s show_nat_all_digits [of n] trim_start_zeros_show [OF pos] by (simp add: integer_parse_def)
  next
    fix n assume n: "v = - int n" "0 < n" "show_int v = CHR ''-'' # show_nat n"
    then show "integer_parse s = Some (IntDecimal s)"
      using no s show_nat_all_digits [of n] trim_start_zeros_show [OF n(2)] by (simp add: integer_parse_def)
  qed
qed

lemma integer_parse_ok:
  assumes "integer_parse token = Some i"
  shows "integer_ok i"
proof (cases "parse_signed i64_min i64_max token")
  case (Some v)
  then have "i64_min \<le> v \<and> v \<le> i64_max"
    by (auto simp: parse_signed_def Let_def split: prod.splits if_split_asm)
  then show ?thesis using Some assms by (auto simp: integer_parse_def)
next
  case None
  define neg where "neg = (token \<noteq> [] \<and> hd token = CHR ''-'')"
  define digits where "digits = (case token of [] \<Rightarrow> token | c # cs \<Rightarrow> if c = CHR ''+'' \<or> c = CHR ''-'' then cs else token)"
  have split: "(case token of [] \<Rightarrow> (False, token) | c # cs \<Rightarrow> if c = CHR ''+'' then (False, cs)
      else if c = CHR ''-'' then (True, cs) else (False, token)) = (neg, digits)"
    by (cases token) (auto simp: neg_def digits_def)
  have d: "digits \<noteq> []" "list_all is_ascii_digit digits"
    and i: "(if trim_start_zeros digits = [] then Some (IntI64 0)
        else Some (IntDecimal (if neg then CHR ''-'' # trim_start_zeros digits else trim_start_zeros digits))) = Some i"
    using assms None split by (auto simp: integer_parse_def Let_def split: if_split_asm)
  show ?thesis
  proof (cases "trim_start_zeros digits")
    case Nil
    then show ?thesis using i by (auto simp: i64_min_def i64_max_def)
  next
    case (Cons c cs)
    have c: "c \<noteq> CHR ''0''" using Cons by (auto simp: trim_start_zeros_def dropWhile_eq_Cons_conv)
    have all: "list_all is_ascii_digit (c # cs)"
      using d(2) Cons by (metis list_all_iff set_dropWhileD trim_start_zeros_def)
    have zeros: "\<exists>n. digits = replicate n (CHR ''0'') @ c # cs"
    proof -
      have "\<forall>x\<in>set (takeWhile (\<lambda>c. c = CHR ''0'') digits). x = CHR ''0''" by (auto dest: set_takeWhileD)
      then have "takeWhile (\<lambda>c. c = CHR ''0'') digits = replicate (length (takeWhile (\<lambda>c. c = CHR ''0'') digits)) (CHR ''0'')"
        by (metis replicate_length_same)
      then show ?thesis
        using takeWhile_dropWhile_id [of "\<lambda>c. c = CHR ''0''" digits] Cons unfolding trim_start_zeros_def by metis
    qed
    then have val: "digits_val digits = digits_val (c # cs)" by (auto simp: digits_val_append)
    have pos: "0 < digits_val (c # cs)" using digits_val_pos [OF all c] .
    have show': "show_nat (digits_val (c # cs)) = c # cs" using show_digits_val [OF all c] .
    have none: "\<not> (i64_min \<le> (if neg then - int (digits_val digits) else int (digits_val digits))
        \<and> (if neg then - int (digits_val digits) else int (digits_val digits)) \<le> i64_max)"
    proof -
      have sp: "(case token of [] \<Rightarrow> (False, token) | c # cs \<Rightarrow> if c = CHR ''+'' then (False, cs)
        else if c = CHR ''-'' then (True, cs) else (False, token)) = (neg, digits)" by (rule split)
      then show ?thesis using None d unfolding parse_signed_def sp by (auto simp: Let_def split: if_split_asm)
    qed
    have "i = IntDecimal (show_int (if neg then - int (digits_val digits) else int (digits_val digits)))"
      using i Cons pos show' val by (auto simp: show_int_def)
    then show ?thesis using none by (simp only: integer_ok.simps) blast
  qed
qed

text \<open>The form is decided by a parse of the display.\<close>

lemma integer_ok_code [code]: "integer_ok i \<longleftrightarrow> integer_parse (integer_display i) = Some i"
  using integer_ok_display integer_value_display integer_parse_ok by metis


text \<open>C34: The conversions to the machine integers give the exact value when the type holds it, and name the
  integer when it does not.\<close>

theorem integer_conversions_exact:
  assumes "integer_ok i"
  shows "integer_to_i64 i = (if i64_min \<le> integer_value i \<and> integer_value i \<le> i64_max
        then Inr (integer_value i) else Inl (out_of_range i TargetI64))
    \<and> integer_to_u64 i = (if 0 \<le> integer_value i \<and> integer_value i \<le> int u64_max
        then Inr (nat (integer_value i)) else Inl (out_of_range i TargetU64))
    \<and> integer_to_i128 i = (if i128_min \<le> integer_value i \<and> integer_value i \<le> i128_max
        then Inr (integer_value i) else Inl (out_of_range i TargetI128))"
proof (cases i)
  case (IntI64 v)
  then show ?thesis
    using assms by (auto simp: integer_to_i64_def integer_to_u64_def integer_to_i128_def i64_min_def i64_max_def
        u64_max_def i128_min_def i128_max_def)
next
  case (IntDecimal s)
  define v where "v = integer_value i"
  have s: "s = show_int v" using integer_ok_display [OF assms] IntDecimal by (simp add: v_def)
  have u: "parse_unsigned u64_max s = (if 0 \<le> v \<and> v \<le> int u64_max then Some (nat v) else None)"
  proof (cases "v < 0")
    case True
    then show ?thesis by (simp add: s show_int_def parse_unsigned_def)
  next
    case False
    obtain d cs where h: "d < 10" "show_nat (nat v) = digit_char d # cs" using show_nat_hd by blast
    then show ?thesis
      using False show_nat_all_digits [of "nat v"] digits_val_show_nat [of "nat v"]
      by (auto simp: s show_int_def parse_unsigned_def nat_le_iff)
  qed
  have vi: "integer_value (IntDecimal s) = v" by (simp only: v_def IntDecimal)
  show ?thesis
    using u unfolding IntDecimal vi
    by (simp add: integer_to_i64_def integer_to_u64_def integer_to_i128_def s parse_signed_show_int)
qed

lemma integer_conversions_exact_witness:
  "integer_to_i64 (IntDecimal ''9223372036854775808'') = (if i64_min \<le> integer_value (IntDecimal ''9223372036854775808'')
        \<and> integer_value (IntDecimal ''9223372036854775808'') \<le> i64_max
        then Inr (integer_value (IntDecimal ''9223372036854775808'')) else Inl (out_of_range (IntDecimal ''9223372036854775808'') TargetI64))
    \<and> integer_to_u64 (IntDecimal ''9223372036854775808'') = (if 0 \<le> integer_value (IntDecimal ''9223372036854775808'')
        \<and> integer_value (IntDecimal ''9223372036854775808'') \<le> int u64_max
        then Inr (nat (integer_value (IntDecimal ''9223372036854775808''))) else Inl (out_of_range (IntDecimal ''9223372036854775808'') TargetU64))
    \<and> integer_to_i128 (IntDecimal ''9223372036854775808'') = (if i128_min \<le> integer_value (IntDecimal ''9223372036854775808'')
        \<and> integer_value (IntDecimal ''9223372036854775808'') \<le> i128_max
        then Inr (integer_value (IntDecimal ''9223372036854775808'')) else Inl (out_of_range (IntDecimal ''9223372036854775808'') TargetI128))"
proof (rule integer_conversions_exact)
  have "digits_val ''9223372036854775808'' = 9223372036854775808"
    by (simp add: digits_val_def digit_val_def code_of_def)
  moreover have "show_nat (digits_val ''9223372036854775808'') = ''9223372036854775808''"
    by (rule show_digits_val) (simp_all add: is_ascii_digit_def code_of_def)
  ultimately have "''9223372036854775808'' = show_int 9223372036854775808"
    by (simp add: show_int_def)
  moreover have "\<not> (i64_min \<le> 9223372036854775808 \<and> 9223372036854775808 \<le> i64_max)" by (simp add: i64_max_def)
  ultimately show "integer_ok (IntDecimal ''9223372036854775808'')"
    unfolding integer_ok.simps by (intro exI conjI)
qed

end
