(* ===== verification/Float64_Whole.thy ===== *)
theory Float64_Whole
  imports Float64
begin

text \<open>
  The decimal of a finite number has a point exactly when the number has a fraction: the fact the
  writer of a real value rests on. A rounded integer is a whole number, and the shortest decimal of a
  whole number is an integer.
\<close>

lemma units_scaled:
  assumes "2 ^ 52 \<le> m" and "m \<le> 2 ^ 53"
  shows "units (e * 2 ^ 52 + m) = m * 2 ^ e"
proof (cases "m = 2 ^ 53")
  case True
  have c: "e * 2 ^ 52 + m = (e + 2) * 2 ^ 52" by (simp add: True)
  have "(e + 2) * 2 ^ 52 div 2 ^ 52 = e + (2 :: nat)" "(e + 2) * 2 ^ 52 mod 2 ^ 52 = (0 :: nat)"
    by (rule nonzero_mult_div_cancel_right; simp) (rule mod_mult_self2_is_0)
  then show ?thesis unfolding c by (simp add: units_def True)
next
  case False
  have exp_ne: "(2::nat) ^ 52 \<noteq> 0" by simp
  define f where "f = m - 2 ^ 52"
  have f: "f < 2 ^ 52" and m: "m = 2 ^ 52 + f" using assms False by (simp_all add: f_def)
  have c: "e * 2 ^ 52 + m = f + (e + 1) * 2 ^ 52" by (simp add: m)
  have "(f + (e + 1) * 2 ^ 52) div 2 ^ 52 = e + 1" "(f + (e + 1) * 2 ^ 52) mod 2 ^ 52 = f"
    using f by (simp_all only: div_mult_self1 [OF exp_ne] mod_mult_self1 div_less mod_less add_0_right)
  moreover have "\<not> f + (e + 1) * 2 ^ 52 < 2 ^ 52" by simp
  ultimately show ?thesis unfolding c units_def by (simp only: if_False m) simp
qed

lemma round_half_even_bounds:
  assumes "0 < d" and "lo * d \<le> n" and "n < hi * d"
  shows "lo \<le> round_half_even n d" and "round_half_even n d \<le> hi"
proof -
  have "lo \<le> n div d" using assms by (metis div_le_mono nonzero_mult_div_cancel_right not_gr_zero)
  then show "lo \<le> round_half_even n d" by (simp add: round_half_even_def Let_def)
  have "n div d < hi" using assms by (simp add: less_mult_imp_div_less)
  then show "round_half_even n d \<le> hi" by (simp add: round_half_even_def Let_def)
qed

lemma round_ratio_pieces:
  assumes "0 < d" and "2 ^ 53 \<le> n * unit_den div d" and "round_ratio n d < inf_code"
  obtains e m where "round_ratio n d = e * 2 ^ 52 + m" and "2 ^ 52 \<le> m" and "m \<le> 2 ^ 53"
    and "m = round_half_even (n * unit_den) (d * 2 ^ e)" and "e = bit_len (n * unit_den div d) - 53"
proof -
  define q where "q = n * unit_den div d"
  define e where "e = bit_len q - 53"
  have "\<not> bit_len q \<le> 53" using assms(2) by (simp add: bit_len_le_iff q_def)
  then have l: "bit_len q = e + 53" by (simp add: e_def)
  have lo: "2 ^ (e + 52) \<le> q" and hi: "q < 2 ^ (e + 53)"
    using bit_len_le_iff [of q "e + 52"] bit_len_le_iff [of q "e + 53"] l by auto
  have "2 ^ 52 * (d * 2 ^ e) \<le> n * unit_den"
  proof -
    have "2 ^ (e + 52) * d \<le> q * d" using lo by simp
    also have "\<dots> \<le> n * unit_den" by (simp add: q_def div_times_less_eq_dividend)
    finally show ?thesis by (simp add: power_add ac_simps)
  qed
  moreover have "n * unit_den < 2 ^ 53 * (d * 2 ^ e)"
  proof -
    have "n * unit_den < (q + 1) * d"
      using assms(1) dividend_less_div_times [of d "n * unit_den"] by (simp add: q_def)
    also have "\<dots> \<le> 2 ^ (e + 53) * d" using hi by (intro mult_le_mono1) simp
    finally show ?thesis by (simp add: power_add ac_simps)
  qed
  ultimately have m: "2 ^ 52 \<le> round_half_even (n * unit_den) (d * 2 ^ e)"
    "round_half_even (n * unit_den) (d * 2 ^ e) \<le> 2 ^ 53"
    using round_half_even_bounds [of "d * 2 ^ e" "2 ^ 52" "n * unit_den" "2 ^ 53"] assms(1) by auto
  have "round_ratio n d = e * 2 ^ 52 + round_half_even (n * unit_den) (d * 2 ^ e)"
    using assms(3) by (simp add: round_ratio_def Let_def flip: q_def e_def)
  then show ?thesis using that m e_def q_def by blast
qed

lemma unit_den_ge: "2 ^ 53 \<le> unit_den"
  unfolding unit_den_def unit_exp_def by (rule power_increasing) simp_all

text \<open>An integer rounds to a whole number.\<close>

lemma round_integer_whole:
  assumes "round_ratio n 1 < inf_code"
  shows "units (round_ratio n 1) mod unit_den = 0"
proof (cases "n = 0")
  case True
  then show ?thesis by (simp add: round_ratio_def round_half_even_def bit_len.simps units_def)
next
  case False
  then have big: "2 ^ 53 \<le> n * unit_den div 1"
    using unit_den_ge by (metis div_by_1 le_trans mult.commute mult_le_mono1 nat_mult_1 not_less_eq_eq One_nat_def less_one linorder_not_le)
  obtain e m where em: "round_ratio n 1 = e * 2 ^ 52 + m" "2 ^ 52 \<le> m" "m \<le> 2 ^ 53"
    "m = round_half_even (n * unit_den) (1 * 2 ^ e)"
    using round_ratio_pieces [of 1 n] big assms by auto
  have u: "units (round_ratio n 1) = m * 2 ^ e" using em units_scaled by simp
  show ?thesis
  proof (cases "unit_exp \<le> e")
    case True
    then have "unit_den dvd 2 ^ e" by (simp add: unit_den_def le_imp_power_dvd)
    then show ?thesis unfolding u by (simp add: dvd_imp_mod_0 dvd_mult)
  next
    case False
    then have "n * unit_den = (n * 2 ^ (unit_exp - e)) * (1 * 2 ^ e)"
      by (simp add: unit_den_def flip: power_add)
    then have "m = n * 2 ^ (unit_exp - e)" using em(4) by (simp only: round_half_even_exact) simp
    then have "m * 2 ^ e = n * unit_den" using False by (simp add: unit_den_def flip: power_add)
    then show ?thesis unfolding u by simp
  qed
qed

lemma round_decimal_whole:
  assumes "0 \<le> k" and "round_decimal d k < inf_code"
  shows "units (round_decimal d k) mod unit_den = 0"
  using assms round_integer_whole by (simp add: round_decimal_def)

text \<open>The shortest decimal of a whole number has no fraction.\<close>

lemma strip_zeros_exponent: "k \<le> snd (strip_zeros d k)"
proof (induction d k rule: strip_zeros.induct)
  case (1 d k)
  then show ?case by (cases "d = 0 \<or> d mod 10 \<noteq> 0") (simp_all add: strip_zeros.simps [of d k])
qed

lemma strip_zeros_ten: "0 < n \<Longrightarrow> k + int j \<le> snd (strip_zeros (n * 10 ^ j) k)"
proof (induction j arbitrary: k)
  case 0
  then show ?case using strip_zeros_exponent by simp
next
  case (Suc j)
  have "strip_zeros (n * 10 ^ Suc j) k = strip_zeros (n * 10 ^ j) (k + 1)"
    using Suc.prems by (subst strip_zeros.simps) (simp add: ac_simps)
  then show ?case using Suc.IH [OF Suc.prems, of "k + 1"] by simp
qed

lemma digits_at_exponent:
  "digits_at code len = Some (d, k) \<Longrightarrow> k = dec_point (units code) unit_den - int len"
  by (auto simp: digits_at_def Let_def split: if_split_asm)

lemma shortest_whole:
  assumes "code < inf_code" and "0 < code" and "units code mod unit_den = 0"
  shows "0 \<le> snd (shortest code)"
proof -
  define n where "n = units code div unit_den"
  have un: "units code = n * unit_den" using assms(3) by (simp add: n_def mod_eq_0_iff_dvd)
  have pos: "0 < units code" using assms(2) by (simp add: units_def)
  then have n: "0 < n" using un by (cases n) auto
  define p where "p = length (show_nat n)"
  have dp: "dec_point (units code) unit_den = int p"
    using n by (simp add: dec_point_def un p_def)
  have "round_decimal n 0 = code"
    using round_ratio_scale [of unit_den n 1] round_units [OF assms(1)] by (simp add: round_decimal_def un)
  then have at: "digits_at code p = Some (n, 0)"
    by (simp add: digits_at_def dp) (simp add: un)
  have k: "0 \<le> snd (strip_zeros d k)" if "shortest_digits code [a..<18] = (d, k)" "a \<le> p" for a d k
    using that
  proof (induction "18 - a" arbitrary: a)
    case 0
    then have "[a..<18] = []" by simp
    then have "d = n * 10 ^ unit_exp" "k = - int unit_exp"
      using 0 by (simp_all add: un unit_den_def ac_simps flip: power_mult_distrib)
    then show ?case using strip_zeros_ten [OF n, of k unit_exp] by simp
  next
    case (Suc x)
    then have l: "[a..<18] = a # [Suc a..<18]" by (simp add: upt_conv_Cons)
    show ?case
    proof (cases "digits_at code a")
      case None
      then have "a \<noteq> p" using at by auto
      moreover have "x = 18 - Suc a" using Suc.hyps by simp
      ultimately show ?thesis using Suc.hyps(1) [of "Suc a"] Suc.prems l None by simp
    next
      case (Some r)
      then have "digits_at code a = Some (d, k)" using Suc.prems l by simp
      then have "0 \<le> k" using digits_at_exponent Suc.prems(2) dp by fastforce
      then show ?thesis using strip_zeros_exponent [of k d] by simp
    qed
  qed
  have "1 \<le> p" using show_nat_ne [of n] by (cases "show_nat n") (auto simp: p_def)
  then show ?thesis
    using k by (cases "shortest_digits code [1..<18]") (simp add: shortest_def del: upt.simps)
qed

text \<open>A positive finite number is whole exactly when its shortest decimal is an integer, so its display has
  a point exactly when it has a fraction.\<close>

lemma shortest_whole_iff:
  assumes "is_finite x" and "f64_code x \<noteq> 0"
  shows "f64_integral x \<longleftrightarrow> 0 \<le> snd (shortest (f64_code x))"
proof
  assume "f64_integral x"
  then show "0 \<le> snd (shortest (f64_code x))"
    using assms shortest_whole [of "f64_code x"] by (simp add: f64_integral_def is_finite_def)
next
  assume k: "0 \<le> snd (shortest (f64_code x))"
  have r: "round_decimal (fst (shortest (f64_code x))) (snd (shortest (f64_code x))) = f64_code x"
    using assms(1) by (rule shortest_round)
  then show "f64_integral x"
    using round_decimal_whole [OF k, of "fst (shortest (f64_code x))"] assms(1)
    by (simp add: f64_integral_def is_finite_def)
qed

end
