(* ===== verification/Value_Text.thy ===== *)
theory Value_Text
  imports Value_Correct Float64_Whole
begin

text \<open>
  The text a value is written as reads back as the value: \<open>value_text\<close> against \<open>parse_value\<close>, for every
  value in its canonical form, and the split of a value field from its comment.
\<close>

section \<open>Reals\<close>

definition real_char :: "char \<Rightarrow> bool" where
  "real_char c = (is_ascii_digit c \<or> c \<in> {CHR ''-'', CHR ''.'', CHR ''E''})"

lemma real_char_digit: "is_ascii_digit c \<Longrightarrow> real_char c"
  by (simp add: real_char_def)

lemma real_char_marks [simp]: "real_char (CHR ''-'')" "real_char (CHR ''.'')" "real_char (CHR ''E'')" "real_char (CHR ''0'')"
  by (simp_all add: real_char_def)

lemma real_chars_show_nat [simp]: "list_all real_char (show_nat n)"
  using show_nat_all_digits [of n] real_char_digit by (simp add: list_all_iff)

lemma real_chars_show_int [simp]: "list_all real_char (show_int v)"
  by (simp add: show_int_def)

lemma list_all_parts: "list_all p s \<Longrightarrow> list_all p (take n s) \<and> list_all p (drop n s)"
  by (auto simp: list_all_iff dest: in_set_takeD in_set_dropD)

lemma real_chars_forms [simp]: "list_all real_char (plain_decimal d k)" "list_all real_char (exp_decimal d k)"
proof -
  have z: "list_all real_char (replicate n (CHR ''0''))" for n by (simp add: list_all_iff)
  show "list_all real_char (plain_decimal d k)"
    using list_all_parts [OF real_chars_show_nat [of d]] z by (simp add: plain_decimal_def Let_def)
  obtain c cs where "show_nat d = c # cs" using show_nat_ne [of d] by (cases "show_nat d") auto
  then have "real_char (hd (show_nat d))" "list_all real_char (tl (show_nat d))"
    using real_chars_show_nat [of d] by simp_all
  then show "list_all real_char (exp_decimal d k)" by (simp add: exp_decimal_def Let_def)
qed

lemma real_chars_text:
  assumes "is_finite x"
  shows "list_all real_char (real_text x)"
proof -
  have "list_all real_char (f64_sign_text x)" by (simp add: f64_sign_text_def)
  then have "list_all real_char (f64_display x)" "list_all real_char (f64_upper_exp x)"
    using assms by (simp_all add: f64_display_def f64_upper_exp_def finite_text)
  then show ?thesis by (simp add: real_text_def)
qed

lemma real_text_ne: "is_finite x \<Longrightarrow> real_text x \<noteq> []"
proof -
  assume "is_finite x"
  then have "parse_f64 (f64_display x) = Some x" "parse_f64 (f64_upper_exp x) = Some x"
    using f64_text_parses by blast+
  moreover have "parse_f64 [] = None"
    by (simp add: parse_f64_def parse_number_def split_digits_def parse_word_def)
  ultimately show ?thesis by (auto simp: real_text_def)
qed

lemma plain_point: "k < 0 \<Longrightarrow> CHR ''.'' \<in> set (plain_decimal d k)"
  by (simp add: plain_decimal_def Let_def)

lemma plain_whole: "0 \<le> k \<Longrightarrow> plain_decimal d k = show_nat d @ replicate (nat k) (CHR ''0'')"
  by (simp add: plain_decimal_def)

text \<open>A whole number's display with \<^verbatim>\<open>.0\<close> parses to it, and a fraction's has a point.\<close>

lemma real_text_plain:
  assumes "is_finite x" and "f64_integral x"
  shows "parse_f64 (f64_display x @ ''.0'') = Some x"
proof (cases "f64_code x = 0")
  case True
  have "parse_number ''0.0'' = Some (0, - 1)" by code_simp
  moreover have "signless ''0.0''" by (simp add: signless_def)
  ultimately show ?thesis
    using True assms parse_f64_text [of "''0.0''" 0 "-1" x] by (simp add: f64_display_def finite_text finite_not_nan)
next
  case False
  let ?d = "fst (shortest (f64_code x))" and ?k = "snd (shortest (f64_code x))"
  have k: "0 \<le> ?k" using assms False shortest_whole by (simp add: f64_integral_def is_finite_def)
  let ?s = "show_nat ?d @ replicate (nat ?k) (CHR ''0'')"
  have ds: "list_all is_ascii_digit ?s" using show_nat_all_digits [of ?d] by (auto simp: list_all_iff)
  have "parse_number (?s @ CHR ''.'' # ''0'') = Some (digits_val (?s @ ''0''), - 1)"
    using parse_number_forms(2) [of ?s "''0''"] ds by simp
  moreover have "digits_val (?s @ ''0'') = ?d * 10 ^ nat ?k * 10"
  proof -
    have "digits_val ''0'' = 0" by (simp add: digits_val_def digit_val_def code_of_def)
    then show ?thesis by (simp add: digits_val_append digits_val_show_nat)
  qed
  ultimately have "parse_number (plain_decimal ?d ?k @ ''.0'') = Some (?d * 10 ^ nat ?k * 10, - 1)"
    by (simp add: plain_whole [OF k])
  moreover have "round_decimal (?d * 10 ^ nat ?k * 10) (- 1) = f64_code x"
    using round_decimal_ten [of "?d * 10 ^ nat ?k" "- 1"] shortest_round [OF assms(1)] k
    by (simp add: round_decimal_def)
  moreover have "signless (plain_decimal ?d ?k @ ''.0'')"
    using signless_plain [of ?d ?k] by (auto simp: signless_def)
  ultimately show ?thesis
    using False assms parse_f64_text [of "plain_decimal ?d ?k @ ''.0''" _ _ x]
    by (simp add: f64_display_def finite_text finite_not_nan)
qed

lemma looks_real_in: "CHR ''.'' \<in> set s \<or> CHR ''E'' \<in> set s \<Longrightarrow> looks_real s"
  by (auto simp: looks_real_def list_ex_iff)

lemma real_text_looks_real:
  assumes "is_finite x"
  shows "looks_real (real_text x)"
proof (cases "length (f64_display x) > 20 \<and> length (f64_upper_exp x) < length (f64_display x)")
  case True
  have "CHR ''E'' \<in> set (f64_upper_exp x)"
    using assms by (simp add: f64_upper_exp_def finite_text exp_decimal_def Let_def)
  then show ?thesis using True looks_real_in by (simp add: real_text_def)
next
  case False
  show ?thesis
  proof (cases "f64_integral x")
    case True
    then have "CHR ''.'' \<in> set (real_text x)" using False by (auto simp: real_text_def)
    then show ?thesis using looks_real_in by blast
  next
    case frac: False
    have c: "f64_code x \<noteq> 0"
    proof
      assume "f64_code x = 0"
      then have "units (f64_code x) = 0" by (simp add: units_def)
      then show False using frac assms by (simp add: f64_integral_def)
    qed
    have "snd (shortest (f64_code x)) < 0"
    proof (rule ccontr)
      assume "\<not> snd (shortest (f64_code x)) < 0"
      then have "units (f64_code x) mod unit_den = 0"
        using round_decimal_whole [of "snd (shortest (f64_code x))" "fst (shortest (f64_code x))"]
          shortest_round [OF assms] assms by (simp add: is_finite_def)
      then show False using frac assms by (simp add: f64_integral_def)
    qed
    then have "CHR ''.'' \<in> set (real_text x)"
      using False frac c assms plain_point by (auto simp: real_text_def f64_display_def finite_text)
    then show ?thesis using looks_real_in by blast
  qed
qed

lemma parse_real_text:
  assumes "is_finite x"
  shows "parse_real (real_text x) = Some x"
proof -
  have p: "parse_f64 (real_text x) = Some x"
    using f64_text_parses [OF assms] real_text_plain [OF assms] by (simp add: real_text_def)
  have "\<not> real_char (CHR ''d'')" "\<not> real_char (CHR ''D'')"
    by (simp_all add: real_char_def is_ascii_digit_def code_of_def)
  then have "\<not> list_ex (\<lambda>c. c = CHR ''d'' \<or> c = CHR ''D'') (real_text x)"
    using real_chars_text [OF assms] by (auto simp: list_ex_iff list_all_iff)
  then show ?thesis using p assms by (simp add: parse_real_def)
qed

lemma parse_scalar_real: "is_finite x \<Longrightarrow> parse_scalar (real_text x) = Some (VReal x)"
  by (simp add: parse_scalar_def real_text_looks_real parse_real_text)

lemma show_int_chars: "list_all (\<lambda>c. is_ascii_digit c \<or> c = CHR ''-'') (show_int v)"
  using show_nat_all_digits by (auto simp: show_int_def list_all_iff)

lemma parse_scalar_integer: "integer_ok i \<Longrightarrow> parse_scalar (integer_display i) = Some (VInteger i)"
proof -
  assume ok: "integer_ok i"
  have "\<not> looks_real (show_int (integer_value i))"
  proof
    assume "looks_real (show_int (integer_value i))"
    then obtain c where "c \<in> set (show_int (integer_value i))" "c \<in> {CHR ''.'', CHR ''e'', CHR ''E'', CHR ''d'', CHR ''D''}"
      by (auto simp: looks_real_def list_ex_iff)
    then show False
      using show_int_chars [of "integer_value i"] by (auto simp: list_all_iff is_ascii_digit_def code_of_def)
  qed
  then show ?thesis
    using integer_value_display [OF ok] by (simp add: parse_scalar_def integer_ok_display [OF ok])
qed

section \<open>Fields\<close>

text \<open>Positions counted from further on.\<close>

definition shift_by :: "nat \<Rightarrow> nat option \<Rightarrow> nat option" where
  "shift_by n opt = map_option (\<lambda>i. n + i) opt"

lemma shift_by_simps [simp]: "shift_by 0 opt = opt" "shift_by m (shift_by n opt) = shift_by (m + n) opt"
  "shift_by n None = None" "shift_by n (Some i) = Some (n + i)"
  by (cases opt; simp add: shift_by_def)+

lemma find_slash_steps:
  "c \<noteq> CHR 0x27 \<Longrightarrow> c \<noteq> CHR ''/'' \<or> in_string \<Longrightarrow> find_slash in_string (c # cs) = shift_by 1 (find_slash in_string cs)"
  "find_slash False (CHR 0x27 # cs) = shift_by 1 (find_slash True cs)"
  "find_slash True (CHR 0x27 # CHR 0x27 # cs) = shift_by 2 (find_slash True cs)"
  "cs = [] \<or> hd cs \<noteq> CHR 0x27 \<Longrightarrow> find_slash True (CHR 0x27 # cs) = shift_by 1 (find_slash False cs)"
  by (cases cs; auto simp: shift_by_def)+

declare find_slash.simps(2) [simp del]

text \<open>A text that the search for the comment runs through, whatever follows but a quote.\<close>

definition passes :: "string \<Rightarrow> bool" where
  "passes s \<longleftrightarrow> (\<forall>rest. (rest = [] \<or> hd rest \<noteq> CHR 0x27) \<longrightarrow>
     find_slash False (s @ rest) = shift_by (length s) (find_slash False rest))"

lemma passes_plain: "list_all (\<lambda>c. c \<noteq> CHR 0x27 \<and> c \<noteq> CHR ''/'') s \<Longrightarrow> passes s"
proof -
  assume p: "list_all (\<lambda>c. c \<noteq> CHR 0x27 \<and> c \<noteq> CHR ''/'') s"
  have "find_slash False (s @ rest) = shift_by (length s) (find_slash False rest)" for rest
    using p by (induction s) (auto simp: find_slash_steps)
  then show ?thesis by (simp add: passes_def)
qed

lemma find_slash_escape: "find_slash True (escape t @ u) = shift_by (length (escape t)) (find_slash True u)"
  by (induction t) (auto simp: find_slash_steps)

lemma find_slash_close:
  assumes "rest = [] \<or> hd rest \<noteq> CHR 0x27"
  shows "find_slash True (blanks n @ CHR 0x27 # rest) = shift_by (Suc n) (find_slash False rest)"
  using assms by (induction n) (auto simp: find_slash_steps)

lemma passes_string: "passes (CHR 0x27 # escape t @ blanks n @ [CHR 0x27])"
  using find_slash_escape find_slash_close by (auto simp: passes_def find_slash_steps)

lemma passes_blanks_before: "passes s \<Longrightarrow> passes (blanks n @ s)"
  by (induction n) (auto simp: passes_def find_slash_steps)

section \<open>Values in their form\<close>

fun value_ok :: "hvalue \<Rightarrow> bool" where
  "value_ok (VLogical b) \<longleftrightarrow> True"
| "value_ok (VInteger i) \<longleftrightarrow> integer_ok i"
| "value_ok (VReal x) \<longleftrightarrow> is_finite x"
| "value_ok (VText t) \<longleftrightarrow> keep_one_blank t = t \<and> list_all is_printable t"
| "value_ok (VComplexInteger re im) \<longleftrightarrow> integer_ok re \<and> integer_ok im"
| "value_ok (VComplexReal re im) \<longleftrightarrow> is_finite re \<and> is_finite im"
| "value_ok VUndefined \<longleftrightarrow> True"

definition comment_ok :: "string option \<Rightarrow> bool" where
  "comment_ok comment \<longleftrightarrow> (case comment of None \<Rightarrow> True | Some c \<Rightarrow> comment_text c = Some c \<and> list_all is_printable c)"

text \<open>The characters of a number's text.\<close>

lemma real_char_plain: "real_char c \<Longrightarrow> c \<noteq> CHR 0x27 \<and> c \<noteq> CHR ''/'' \<and> c \<noteq> CHR '','' \<and> c \<noteq> CHR ''('' \<and> c \<noteq> CHR ''T''
    \<and> c \<noteq> CHR ''F'' \<and> \<not> is_whitespace c \<and> is_printable c"
  by (auto simp: real_char_def char_classes code_of_def)

lemma integer_chars: "integer_ok i \<Longrightarrow> list_all real_char (integer_display i) \<and> integer_display i \<noteq> []"
  by (auto simp: integer_ok_display show_int_def)

lemma real_chars_no_space: "list_all real_char s \<Longrightarrow> blank_trim s = s"
  using real_char_plain by (auto simp: blank_trim_is_trim list_all_iff intro!: trim_no_space)

lemma parse_string_quoted:
  assumes "keep_one_blank t = t"
  shows "parse_string (value_text (VText t)) = Some t"
proof (cases "t = []")
  case True
  then show ?thesis by (simp add: parse_string_def keep_one_blank_def trim_end_char_def)
next
  case False
  have esc: "unescape (escape t @ u) = map_option (\<lambda>s. t @ s) (unescape u)" for t u
    by (induction t) (auto simp: option.map_comp comp_def option.map_ident)
  have bl: "unescape (blanks n @ [CHR 0x27]) = Some (blanks n)" for n by (induction n) auto
  have "dropWhile (\<lambda>x. x = CHR '' '') (blanks n @ u) = dropWhile (\<lambda>x. x = CHR '' '') u" for n u
    by (induction n) auto
  then have "trim_end_char (CHR '' '') (t @ blanks n) = trim_end_char (CHR '' '') t" for n
    by (simp add: trim_end_char_def)
  then have "keep_one_blank (t @ blanks n) = keep_one_blank t" for n
    using False by (simp add: keep_one_blank_def)
  then show ?thesis using False assms by (simp add: parse_string_def quoted_def esc bl)
qed

lemma parse_complex_text:
  assumes "list_all real_char re" and "list_all real_char im" and "re \<noteq> []" and "im \<noteq> []"
  shows "parse_complex (''('' @ re @ '', '' @ im @ '')'')
    = complex_value (parse_scalar re) (parse_scalar im)"
proof -
  have once: "split_once (CHR '','') (re @ '', '' @ im) = Some (re, '' '' @ im)"
    using assms(1) real_char_plain by (induction re) auto
  have im: "blank_trim ('' '' @ im) = im"
  proof -
    have "is_whitespace (CHR '' '')" by (simp add: is_whitespace_def)
    then have "trim ('' '' @ im) = trim im" by (simp add: trim_def trim_start_def)
    then show ?thesis using real_chars_no_space [OF assms(2)] by (simp add: blank_trim_is_trim)
  qed
  have "strip_suffix '')'' ((re @ '', '' @ im) @ '')'') = Some (re @ '', '' @ im)" by (rule strip_suffix_append)
  then show ?thesis
    using once im real_chars_no_space [OF assms(1)] by (simp add: parse_complex_def)
qed

text \<open>The text of a value parses to it.\<close>

lemma parse_value_text:
  assumes "value_ok v"
  shows "parse_value (value_text v) = Inr (Some v)"
proof -
  have number: "parse_value s = Inr (parse_scalar s)" if chars: "list_all real_char s" and ne: "s \<noteq> []" for s
  proof -
    obtain c cs where s: "s = c # cs" using ne by (cases s) auto
    then have "c \<noteq> CHR 0x27 \<and> c \<noteq> CHR ''('' \<and> c \<noteq> CHR ''T'' \<and> c \<noteq> CHR ''F''"
      using chars real_char_plain [of c] by simp
    then show ?thesis by (simp add: parse_value_def s)
  qed
  show ?thesis
  proof (cases v)
    case (VText t)
    have "value_text v \<noteq> [] \<and> hd (value_text v) = CHR 0x27" by (simp add: VText quoted_def)
    then show ?thesis using parse_string_quoted [of t] assms VText by (simp add: parse_value_def del: value_text.simps)
  next
    case (VInteger i)
    then show ?thesis using assms number integer_chars [of i] parse_scalar_integer [of i] by simp
  next
    case (VReal x)
    then show ?thesis using assms number real_chars_text [of x] real_text_ne [of x] parse_scalar_real [of x] by simp
  next
    case (VComplexInteger re im)
    then show ?thesis
      using assms parse_complex_text integer_chars parse_scalar_integer by (simp add: parse_value_def complex_value_def)
  next
    case (VComplexReal re im)
    then show ?thesis
      using assms parse_complex_text real_chars_text real_text_ne parse_scalar_real
      by (simp add: parse_value_def complex_part_def complex_value_def)
  qed (auto simp: parse_value_def)
qed

text \<open>C36: The fixed-format text of a value in its canonical form parses back to the value: an integer of any
  size, a real to the same bits, a string with its quotes and blanks, a complex pair.\<close>

theorem value_text_roundtrip:
  assumes "value_ok v"
  shows "parse_value (value_text v) = Inr (Some v)"
  using assms by (rule parse_value_text)

lemma value_text_roundtrip_witness:
  "parse_value (value_text (VReal 0x3FB999999999999A)) = Inr (Some (VReal 0x3FB999999999999A))"
  by (rule value_text_roundtrip) (simp add: is_finite_def f64_code_def inf_code_def)

end
