(* ===== verification/Card_Roundtrip.thy ===== *)
theory Card_Roundtrip
  imports Value_Text
begin

text \<open>
  A rendered header record parses back to itself: the value field, the valued record and the
  \<^verbatim>\<open>HIERARCH\<close> record of one line.
\<close>

section \<open>The value field\<close>

lemma whitespace_blank [simp]: "is_whitespace (CHR '' '')"
  by (simp add: is_whitespace_def)

lemma dropWhile_blanks: "dropWhile is_whitespace (blanks n @ s) = dropWhile is_whitespace s"
  by (induction n) auto

lemma trim_blanks: "trim (blanks a @ s @ blanks b) = trim s"
proof (cases "dropWhile is_whitespace s = []")
  case True
  then have "list_all is_whitespace s" by (auto simp: list_all_iff dropWhile_eq_Nil_conv)
  then have "trim_start (blanks a @ s @ blanks b) = []" "trim_start s = []"
    by (auto simp: trim_start_def list_all_iff)
  then show ?thesis by (simp add: trim_def)
next
  case False
  then have "dropWhile is_whitespace (s @ blanks b) = dropWhile is_whitespace s @ blanks b"
    by (metis dropWhile_append1 dropWhile_eq_Nil_conv)
  then show ?thesis
    by (simp add: trim_def trim_start_def trim_end_def dropWhile_blanks)
qed

lemma value_text_passes:
  assumes "value_ok v"
  shows "passes (value_text v)"
proof -
  have plain: "passes s" if "list_all (\<lambda>c. real_char c \<or> c \<in> {CHR ''('', CHR '')'', CHR '','', CHR '' ''}) s" for s
    using that real_char_plain by (intro passes_plain) (auto simp: list_all_iff)
  have wide: "list_all (\<lambda>c. real_char c \<or> c \<in> {CHR ''('', CHR '')'', CHR '','', CHR '' ''}) s" if "list_all real_char s" for s
    using that by (auto simp: list_all_iff)
  show ?thesis
  proof (cases v)
    case (VLogical b)
    then show ?thesis by (simp add: passes_plain)
  next
    case (VInteger i)
    then show ?thesis using assms integer_chars [of i] plain wide by simp
  next
    case (VReal x)
    then show ?thesis using assms real_chars_text [of x] plain wide by simp
  next
    case (VText t)
    then show ?thesis using passes_string [of t] passes_string [of "[]" 0] by (auto simp: quoted_def)
  next
    case (VComplexInteger re im)
    then show ?thesis
      using assms wide [of "integer_display re"] wide [of "integer_display im"] integer_chars by (intro plain) simp
  next
    case (VComplexReal re im)
    then show ?thesis
      using assms wide [of "real_text re"] wide [of "real_text im"] real_chars_text by (intro plain) simp
  next
    case VUndefined
    then show ?thesis by (simp add: passes_plain)
  qed
qed

lemma not_whitespace_marks [simp]: "\<not> is_whitespace (CHR 0x27)" "\<not> is_whitespace (CHR ''('')" "\<not> is_whitespace (CHR '')'')"
  "\<not> is_whitespace (CHR ''T'')" "\<not> is_whitespace (CHR ''F'')"
  by (simp_all add: is_whitespace_def code_of_def)

lemma value_text_trim:
  assumes "value_ok v"
  shows "blank_trim (blanks a @ value_text v @ blanks b) = value_text v"
proof -
  have "trim (value_text v) = value_text v"
  proof (cases v)
    case (VInteger i)
    then show ?thesis using assms integer_chars [of i] real_chars_no_space by (simp add: blank_trim_is_trim)
  next
    case (VReal x)
    then show ?thesis using assms real_chars_text [of x] real_chars_no_space by (simp add: blank_trim_is_trim)
  qed (auto intro!: trim_id simp: quoted_def)
  then show ?thesis by (simp add: blank_trim_is_trim trim_blanks)
qed

lemma find_slash_blanks [simp]: "find_slash False (blanks n) = None"
  by (induction n) (simp_all add: find_slash_steps)

text \<open>A token that stands for a value in a value field.\<close>

definition token_for :: "hvalue \<Rightarrow> string \<Rightarrow> bool" where
  "token_for v t \<longleftrightarrow> passes t \<and> list_all is_printable t \<and> trim t = t \<and> parse_value t = Inr (Some v)"

text \<open>The split of a written value field.\<close>

lemma split_field:
  assumes t: "token_for v t" and "comment_ok comment"
  shows "split_value_comment (blanks a @ t @ comment_part comment @ blanks b)
    = \<lparr>value_token = t, split_comment = comment,
       comment_start = (case comment of None \<Rightarrow> None | Some _ \<Rightarrow> Some (a + length (t) + 1))\<rparr>"
proof -
  have token_passes: "passes t" using t by (simp add: token_for_def)
  have token_trim: "blank_trim (blanks a @ t @ blanks b) = t" for a b
    using t by (simp add: token_for_def blank_trim_is_trim trim_blanks)
  let ?s = "blanks a @ t"
  have p: "find_slash False (?s @ rest) = shift_by (length ?s) (find_slash False rest)"
    if "rest = [] \<or> hd rest \<noteq> CHR 0x27" for rest
    using passes_blanks_before [OF token_passes, of a] that unfolding passes_def by blast
  show ?thesis
  proof (cases comment)
    case None
    have "blanks b = [] \<or> hd (blanks b) \<noteq> CHR 0x27" by (cases b) auto
    from p [OF this] have "find_slash False (?s @ blanks b) = None" by simp
    then show ?thesis
      using None token_trim [of a b] by (simp add: split_value_comment_def comment_part_def)
  next
    case (Some c)
    let ?rest = "CHR '' '' # CHR ''/'' # CHR '' '' # c @ blanks b"
    have sl: "find_slash False ?rest = Some 1" by (simp add: find_slash_steps find_slash.simps(2))
    have f: "find_slash False (?s @ ?rest) = Some (length ?s + 1)" using p [of ?rest] by (simp add: sl)
    have c: "blank_trim c = c" "c \<noteq> []"
      using assms(2) Some by (auto simp: comment_ok_def comment_text_def Let_def split: if_split_asm)
    have "trim (blanks 1 @ c @ blanks b) = trim c" by (rule trim_blanks)
    then have tr: "comment_text (CHR '' '' # c @ blanks b) = Some c"
      using c by (simp add: comment_text_def blank_trim_is_trim)
    have tk: "take (length ?s + 1) (?s @ ?rest) = blanks a @ t @ blanks 1"
      "drop (length ?s + 1 + 1) (?s @ ?rest) = CHR '' '' # c @ blanks b"
      by simp_all
    have field: "blanks a @ t @ comment_part comment @ blanks b = ?s @ ?rest"
      by (simp add: Some comment_part_def)
    show ?thesis
      unfolding field split_value_comment_def f option.case tk tr token_trim
      by (simp add: Some)
  qed
qed

section \<open>Valued records\<close>

lemma keyword_codes:
  assumes "rule_allows KeywordRule c"
  shows "(48 \<le> code_of c \<and> code_of c \<le> 57) \<or> (65 \<le> code_of c \<and> code_of c \<le> 90) \<or> code_of c = 45 \<or> code_of c = 95"
proof -
  have "code_of (CHR ''-'') = 45" "code_of (CHR ''_'') = 95" by (simp_all add: code_of_def)
  then show ?thesis using assms by (auto simp: is_ascii_uppercase_def is_ascii_digit_def)
qed

lemma keyword_chars:
  assumes "admits KeywordRule k" and "c \<in> set k"
  shows "c \<noteq> CHR '' ''" and "c \<noteq> CHR ''=''" and "is_printable c" and "\<not> is_ascii_lowercase c"
proof -
  have "rule_allows KeywordRule c" using assms by (auto simp: admits_def list_all_iff split: if_split_asm)
  note k = keyword_codes [OF this]
  have m: "code_of (CHR ''='') = 61" by (simp add: code_of_def)
  show "c \<noteq> CHR '' ''" "c \<noteq> CHR ''=''" using k m code_of_blank by auto
  show "is_printable c" "\<not> is_ascii_lowercase c" using k by (auto simp: is_printable_def is_ascii_lowercase_def)
qed

lemma keyword_length: "admits KeywordRule k \<Longrightarrow> length k \<le> 8 \<and> k \<noteq> []"
  by (auto simp: admits_def split: if_split_asm)

lemma keyword_commentary: "admits KeywordRule k \<Longrightarrow> admits CommentaryRule k"
proof -
  assume k: "admits KeywordRule k"
  have "list_all is_printable k" using keyword_chars(3) [OF k] by (simp add: list_all_iff)
  moreover have "last k \<noteq> CHR '' ''" using keyword_length [OF k] keyword_chars(1) [OF k last_in_set] by blast
  moreover have "rule_allows CommentaryRule = is_printable" by (simp add: fun_eq_iff)
  ultimately show ?thesis using keyword_length [OF k] by (simp add: admits_def)
qed

lemma trim_end_blanks: "CHR '' '' \<notin> set s \<Longrightarrow> trim_end_char (CHR '' '') (s @ blanks n) = s"
proof -
  assume s: "CHR '' '' \<notin> set s"
  have "dropWhile (\<lambda>x. x = CHR '' '') (blanks n @ u) = dropWhile (\<lambda>x. x = CHR '' '') u" for u
    by (induction n) auto
  moreover have "dropWhile (\<lambda>x. x = CHR '' '') (rev s) = rev s"
    using s by (intro dropWhile_hd) (metis last_in_set hd_rev rev_is_Nil_conv)
  ultimately show ?thesis by (simp add: trim_end_char_def)
qed

lemma printable_ascii: "is_printable c \<Longrightarrow> code_of c < 128"
  by (simp add: is_printable_def)

lemma real_chars_printable: "list_all real_char s \<Longrightarrow> list_all is_printable s"
  using real_char_plain by (auto simp: list_all_iff)

lemma value_text_printable:
  assumes "value_ok v"
  shows "list_all is_printable (value_text v)"
proof -
  have esc: "list_all is_printable (escape t)" if "list_all is_printable t" for t
    using that by (induction t) auto
  have marks [simp]: "is_printable (CHR 0x27)" "is_printable (CHR ''('')" "is_printable (CHR '')'')" "is_printable (CHR '','')"
    "is_printable (CHR '' '')" "is_printable (CHR ''T'')" "is_printable (CHR ''F'')"
    by (simp_all add: is_printable_def code_of_def)
  have bl: "list_all is_printable (blanks n)" for n by (simp add: list_all_iff)
  show ?thesis
    using assms integer_chars real_chars_text real_chars_printable esc bl by (cases v) (auto simp: quoted_def)
qed

lemma value_text_token: "value_ok v \<Longrightarrow> token_for v (value_text v)"
  using value_text_passes [of v] value_text_printable [of v] value_text_trim [of v 0 0] parse_value_text [of v]
  by (simp add: token_for_def blank_trim_is_trim)

lemma comment_part_printable: "comment_ok c \<Longrightarrow> list_all is_printable (comment_part c)"
  by (cases c) (auto simp: comment_ok_def comment_part_def is_printable_def code_of_def)

lemma value_end_field:
  "value_end start \<lparr>value_token = t, split_comment = comment,
     comment_start = (case comment of None \<Rightarrow> None | Some _ \<Rightarrow> Some i)\<rparr>
   = (case comment of None \<Rightarrow> start + (CARD_SIZE - start) | Some _ \<Rightarrow> start + i)"
  by (simp add: value_end_def split: option.splits)

lemma valued_lead_line:
  assumes "admits KeywordRule k"
  shows "take 8 (line (valued_lead k @ s)) = k @ blanks (8 - length k)"
    and "take 9 (line (valued_lead k @ s)) = k @ blanks (8 - length k) @ ''=''"
    and "drop 9 (line (valued_lead k @ s)) = s @ blanks (CARD_SIZE - (9 + length s))"
proof -
  have n: "length (k @ blanks (8 - length k)) = 8" "length (k @ blanks (8 - length k) @ ''='') = 9"
    using keyword_length [OF assms] by simp_all
  have l: "line (valued_lead k @ s) = (k @ blanks (8 - length k) @ ''='') @ s @ blanks (CARD_SIZE - (9 + length s))"
    using n by (simp add: line_def valued_lead_def)
  show "take 9 (line (valued_lead k @ s)) = k @ blanks (8 - length k) @ ''=''"
    "drop 9 (line (valued_lead k @ s)) = s @ blanks (CARD_SIZE - (9 + length s))"
    unfolding l using n(2) by simp_all
  have "line (valued_lead k @ s) = (k @ blanks (8 - length k)) @ ''='' @ s @ blanks (CARD_SIZE - (9 + length s))"
    unfolding l by simp
  then show "take 8 (line (valued_lead k @ s)) = k @ blanks (8 - length k)"
    using n(1) by simp
qed

lemma padded_keyword_end:
  assumes "admits KeywordRule k" and "k @ blanks (8 - length k) = ''END     ''"
  shows "k = ''END''"
proof -
  have k: "CHR '' '' \<notin> set k" using keyword_chars(1) [OF assms(1)] by blast
  have "trim_end_char (CHR '' '') (k @ blanks (8 - length k)) = k" by (rule trim_end_blanks [OF k])
  moreover have "trim_end_char (CHR '' '') ''END     '' = ''END''" by (simp add: trim_end_char_def)
  ultimately show ?thesis using assms(2) by simp
qed

lemma valued_not_hierarch: "\<not> eq_ignore_case (s @ ''='') ''HIERARCH ''"
proof
  assume "eq_ignore_case (s @ ''='') ''HIERARCH ''"
  then have "last (map to_upper (s @ ''='')) = last (map to_upper ''HIERARCH '')" by (simp add: eq_ignore_case_def)
  then show False by (simp add: to_upper_def is_ascii_lowercase_def code_of_def)
qed

lemma is_ascii_lead: "admits KeywordRule k \<Longrightarrow> is_ascii (valued_lead k)"
proof -
  assume "admits KeywordRule k"
  then have "list_all is_printable k" using keyword_chars(3) by (simp add: list_all_iff)
  then have "is_ascii k" by (rule is_ascii_printable)
  moreover have "code_of (CHR ''='') < 128" by (simp add: code_of_def)
  ultimately show ?thesis by (simp add: valued_lead_def)
qed

text \<open>The steps of the parse up to the value field, for the line of a valued record.\<close>

lemma find_indicator:
  assumes "admits KeywordRule k"
  shows "find_index (\<lambda>b. b = byte_of_char (CHR ''='')) (as_bytes (k @ blanks (8 - length k) @ ''='')) = Some 8"
proof -
  have e: "as_bytes (k @ blanks (8 - length k) @ ''='') = as_bytes (k @ blanks (8 - length k)) @ byte_of_char (CHR ''='') # []"
    by simp
  have n: "length (as_bytes (k @ blanks (8 - length k))) = 8" using keyword_length [OF assms] by simp
  have "x \<noteq> byte_of_char (CHR ''='')" if "x \<in> set (as_bytes (k @ blanks (8 - length k)))" for x
  proof -
    obtain c where "x = byte_of_char c" "c \<in> set k \<or> c = CHR '' ''" using \<open>x \<in> _\<close> by (auto simp: as_bytes_def)
    then show ?thesis using keyword_chars(2) [OF assms] by auto
  qed
  then show ?thesis
    unfolding e using find_index_append [of "as_bytes (k @ blanks (8 - length k))" "\<lambda>b. b = byte_of_char (CHR ''='')"] n by simp
qed

lemma card_parse_valued_start:
  assumes k: "admits KeywordRule k" "validate_valued_keyword k = Inr ()"
    and p: "length (valued_lead k @ s) \<le> CARD_SIZE" "is_ascii s"
  shows "card_parse (as_bytes (line (valued_lead k @ s))) = parse_valued (as_bytes (line (valued_lead k @ s))) 8"
proof -
  let ?t = "line (valued_lead k @ s)"
  note lead = valued_lead_line [OF k(1), of s]
  have reserved: "k \<notin> {''END'', ''CONTINUE'', ''COMMENT'', ''HISTORY''}"
    using k(2) by (auto simp: validate_valued_keyword_def)
  have asc: "is_ascii ?t"
    using p(2) is_ascii_lead [OF k(1)] by simp
  have end_no: "\<not> is_end_record (as_bytes ?t)"
    using padded_keyword_end [OF k(1)] reserved
    unfolding is_end_record_def take_as_bytes as_bytes_inject lead(1) by blast
  have name: "commentary_try_from (trim_end_char (CHR '' '') (take 8 ?t)) = Inr k"
    using keyword_commentary [OF k(1)] trim_end_blanks [OF keyword_no_space [OF k(1)], of "8 - length k"]
    by (simp add: lead commentary_try_from_def commentary_checked_iff)
  have nh: "\<not> eq_ignore_case (take 9 ?t) ''HIERARCH ''"
    using valued_not_hierarch [of "k @ blanks (8 - length k)"] by (simp add: lead)
  have ind: "find_index (\<lambda>b. b = byte_of_char (CHR ''='')) (take 9 (as_bytes ?t)) = Some 8"
    using find_indicator [OF k(1)] by (simp add: take_as_bytes lead)
  have first: "list_all byte_ascii (take 8 (as_bytes ?t))"
    using asc by (simp add: take_as_bytes byte_ascii_as_bytes is_ascii_take)
  have ne: "k \<noteq> []" using keyword_length [OF k(1)] by simp
  show ?thesis
    using end_no first name nh ind reserved ne asc by (simp add: card_parse_def Let_def)
qed

lemma parse_valued_field:
  assumes k: "admits KeywordRule k" and v: "token_for v tok" and c: "comment_ok comment"
    and len: "length (valued_lead k @ blanks (Suc n) @ tok @ comment_part comment) \<le> CARD_SIZE"
  shows "parse_valued (as_bytes (line (valued_lead k @ blanks (Suc n) @ tok @ comment_part comment))) 8
    = Inr (ParsedRecord (Valued k v comment), [])"
proof -
  let ?s = "blanks (Suc n) @ tok @ comment_part comment"
  let ?t = "line (valued_lead k @ ?s)"
  note lead = valued_lead_line [OF k, of ?s]
  have asc: "is_ascii ?t"
    using v comment_part_printable [OF c] is_ascii_lead [OF k] is_ascii_printable by (simp add: token_for_def)
  define m where "m = CARD_SIZE - (9 + length ?s)"
  have nine: "drop 9 ?t = blanks (Suc n) @ tok @ comment_part comment @ blanks m"
    using lead(3) by (simp add: m_def)
  then have ten: "drop 10 ?t = blanks n @ tok @ comment_part comment @ blanks m"
    using drop_drop [of 1 9 ?t] by simp
  have "length ?t = CARD_SIZE" using len by (rule length_line)
  then have "?t ! 9 = hd (drop 9 ?t)" by (simp add: hd_drop_conv_nth CARD_SIZE_def)
  then have at9: "as_bytes ?t ! 9 = byte_of_char (CHR '' '')"
    using \<open>length ?t = CARD_SIZE\<close> nine by (simp add: as_bytes_def CARD_SIZE_def)
  have name: "trim_end_char (CHR '' '') (take 8 ?t) = k"
    unfolding lead(1) by (rule trim_end_blanks [OF keyword_no_space [OF k]])
  have low: "\<not> list_ex is_ascii_lowercase k" using keyword_chars(4) [OF k] by (auto simp: list_ex_iff)
  have tried: "keyword_try_from k = Inr k" using k by (simp add: keyword_try_from_def keyword_checked_iff)
  note split = split_field [OF v c, of n m]
  define t where "t = ?t"
  have "parse_valued (as_bytes t) 8 = Inr (ParsedRecord (Valued k v comment), [])"
    using asc name at9 low tried v ten split unfolding t_def [symmetric]
    by (simp add: parse_valued_def token_for_def)
  then show ?thesis unfolding t_def .
qed

lemma valued_parses:
  assumes "admits KeywordRule k" and "value_ok v" and "comment_ok comment"
    and "continuation_chain (Valued k v comment) = None"
    and "record_render (Valued k v comment) = Inr raw"
  shows "length raw = CARD_SIZE \<and> card_parse raw = Inr (ParsedRecord (Valued k v comment), [])"
proof -
  have valid: "validate_valued_keyword k = Inr ()" and one: "render_one (Valued k v comment) = Inr raw"
    using assms(4,5) by (auto simp: record_render_def bind_eq_Inr attempt_eq_Inr)
  have k8: "length k \<le> 8" using keyword_length [OF assms(1)] by simp
  obtain p where p: "p = valued_lead k @ blanks (value_pos v - 9) @ value_text v @ comment_part comment"
    "raw = as_bytes (line p)" "length p \<le> CARD_SIZE"
    using render_valued_line [OF k8 one] by blast
  obtain n where n: "value_pos v - 9 = Suc n" using value_pos_ge [of v] by (cases "value_pos v - 9") auto
  have asc: "is_ascii (blanks (value_pos v - 9) @ value_text v @ comment_part comment)"
    using value_text_printable [OF assms(2)] comment_part_printable [OF assms(3)] is_ascii_printable by simp
  have "card_parse raw = parse_valued raw 8"
    using card_parse_valued_start [OF assms(1) valid _ asc] p by simp
  also have "\<dots> = Inr (ParsedRecord (Valued k v comment), [])"
    using parse_valued_field [OF assms(1) value_text_token [OF assms(2)] assms(3), of n] p n by simp
  finally show ?thesis using p by simp
qed

text \<open>A valued record with a keyword, a value and a comment in their canonical forms, whose text is valid and
  fits one record, renders to 80 bytes that parse back to it without a repair.\<close>

theorem valued_roundtrip:
  assumes "admits KeywordRule k" and "value_ok v" and "comment_ok comment"
    and "continuation_chain (Valued k v comment) = None"
    and "record_render (Valued k v comment) = Inr raw"
  shows "length raw = CARD_SIZE \<and> card_parse raw = Inr (ParsedRecord (Valued k v comment), [])"
  using assms by (rule valued_parses)

lemma valued_roundtrip_witness:
  "length (as_bytes (line (''OBJECT  = '' @ [CHR 0x27] @ ''M 31    '' @ [CHR 0x27] @ '' / galaxy''))) = CARD_SIZE
    \<and> card_parse (as_bytes (line (''OBJECT  = '' @ [CHR 0x27] @ ''M 31    '' @ [CHR 0x27] @ '' / galaxy'')))
      = Inr (ParsedRecord (Valued ''OBJECT'' (VText ''M 31'') (Some ''galaxy'')), [])"
proof (rule valued_roundtrip)
  show "admits KeywordRule ''OBJECT''" "comment_ok (Some ''galaxy'')"
    "continuation_chain (Valued ''OBJECT'' (VText ''M 31'') (Some ''galaxy'')) = None"
    "record_render (Valued ''OBJECT'' (VText ''M 31'') (Some ''galaxy''))
      = Inr (as_bytes (line (''OBJECT  = '' @ [CHR 0x27] @ ''M 31    '' @ [CHR 0x27] @ '' / galaxy'')))"
    by code_simp+
  have "keep_one_blank ''M 31'' = ''M 31'' \<and> list_all is_printable ''M 31''" by code_simp
  then show "value_ok (VText ''M 31'')" by simp
qed

end
