(* ===== verification/Hierarch_Roundtrip.thy ===== *)
theory Hierarch_Roundtrip
  imports Card_Roundtrip
begin

text \<open>
  The round trip of a \<^verbatim>\<open>HIERARCH\<close> record of one line, with and without the blank before its \<^verbatim>\<open>=\<close>.
\<close>

section \<open>The name\<close>

lemma words_of_join_append:
  assumes "list_all token_ok ts" and "ts \<noteq> []" and "s = [] \<or> is_ascii_whitespace (hd s)"
  shows "words_of (join_tokens ts @ s) = ts @ words_of s"
  using assms
proof (induction ts rule: join_tokens.induct)
  case (2 t)
  then show ?case using words_of_token [of t s] graphic_not_space by (auto simp: token_ok_def list_all_iff)
next
  case (3 t u ts)
  have "is_ascii_whitespace (CHR '' '')" by (simp add: is_ascii_whitespace_def)
  then show ?case
    using 3 words_of_token [of t "CHR '' '' # join_tokens (u # ts) @ s"] graphic_not_space
    by (auto simp: token_ok_def list_all_iff words_of_space)
qed simp

lemma hierarch_ok_tokens:
  assumes "hierarch_ok name"
  obtains ts where "list_all token_ok ts" "ts \<noteq> []" "name = join_tokens ts"
  using assms by (auto simp: hierarch_ok_def hierarch_from_str_eq split: if_split_asm)

lemma hierarch_trailing_blanks: "hierarch_ok name \<Longrightarrow> hierarch_from_str (name @ blanks n) = Inr name"
proof -
  assume ok: "hierarch_ok name"
  obtain ts where ts: "list_all token_ok ts" "ts \<noteq> []" "name = join_tokens ts"
    using hierarch_ok_tokens [OF ok] .
  have "words_of (blanks n) = []" by (induction n) (simp_all add: words_of_space)
  moreover have "blanks n = [] \<or> is_ascii_whitespace (hd (blanks n))"
    by (cases n) (simp_all add: is_ascii_whitespace_def)
  ultimately have "words_of (name @ blanks n) = ts"
    using words_of_join_append [OF ts(1,2), of "blanks n"] ts(3) by simp
  then show ?thesis using ts by (simp add: hierarch_from_str_eq)
qed

lemma join_tokens_chars: "c \<in> set (join_tokens ts) \<Longrightarrow> c = CHR '' '' \<or> (\<exists>t\<in>set ts. c \<in> set t)"
  by (induction ts rule: join_tokens.induct) auto

lemma hierarch_chars:
  assumes "hierarch_ok name" and "c \<in> set name"
  shows "is_printable c" and "c \<noteq> CHR ''=''"
proof -
  obtain ts where ts: "list_all token_ok ts" "name = join_tokens ts" using hierarch_ok_tokens [OF assms(1)] .
  have "c = CHR '' '' \<or> (is_ascii_graphic c \<and> c \<noteq> CHR ''='')"
    using join_tokens_chars [of c ts] assms(2) ts by (auto simp: token_ok_def list_all_iff)
  then show "is_printable c" "c \<noteq> CHR ''=''" by (auto simp: is_printable_def is_ascii_graphic_def)
qed

section \<open>The record\<close>

lemma render_hierarch_line:
  assumes "render_hierarch name v comment = Inr raw"
  obtains n where "raw = as_bytes (line (''HIERARCH '' @ name @ blanks n @ ''= '' @ value_text v @ comment_part comment))"
    and "length (''HIERARCH '' @ name @ blanks n @ ''= '' @ value_text v @ comment_part comment) \<le> CARD_SIZE"
proof -
  define ind where "ind = (if value_start (LeadHierarch name) + rendered_len v
      + (case comment of None \<Rightarrow> 0 | Some c \<Rightarrow> 3 + length c) \<le> CARD_SIZE then '' = '' else ''= '')"
  have "ind = blanks 1 @ ''= '' \<or> ind = blanks 0 @ ''= ''" unfolding ind_def by simp
  then obtain n where n: "ind = blanks n @ ''= ''" by blast
  obtain b1 p1 b2 p2 b3 p3 b4 p4 where w: "write_str_at (buf_new (LeadHierarch name)) 9 name = Inr (b1, p1)"
    "write_str_at b1 p1 ind = Inr (b2, p2)" "write_value_at b2 p2 v = Inr (b3, p3)"
    "write_comment_at b3 p3 comment = Inr (b4, p4)" "raw = buf_bytes b4"
    using assms by (auto simp: render_hierarch_def Let_def bind_eq_Inr ind_def)
  have "buf_line (buf_new (LeadHierarch name)) ''HIERARCH''"
    unfolding buf_new.simps by (rule buf_named_line) (simp add: CARD_SIZE_def)
  then have "buf_line (buf_new (LeadHierarch name)) (''HIERARCH'' @ blanks 1)"
    by (rule buf_line_blanks) (simp add: CARD_SIZE_def)
  then have l0: "buf_line (buf_new (LeadHierarch name)) ''HIERARCH ''" by simp
  have w1: "write_str_at (buf_new (LeadHierarch name)) (length ''HIERARCH '') name = Inr (b1, p1)"
    using w(1) by (simp add: numeral_eq_Suc)
  note l1 = write_str_line [OF l0 w1]
  have l2: "buf_line b2 ((''HIERARCH '' @ name) @ ind)" "p2 = length ((''HIERARCH '' @ name) @ ind)"
    using write_str_line [of b1 "''HIERARCH '' @ name" ind b2 p2] l1 w(2) by auto
  have l3: "buf_line b3 (((''HIERARCH '' @ name) @ ind) @ value_text v)" "p3 = length (((''HIERARCH '' @ name) @ ind) @ value_text v)"
    using write_value_line [of b2 "(''HIERARCH '' @ name) @ ind" v b3 p3] l2 w(3) by auto
  have l4: "buf_line b4 ((((''HIERARCH '' @ name) @ ind) @ value_text v) @ comment_part comment)"
    using write_comment_line [of b3 "((''HIERARCH '' @ name) @ ind) @ value_text v" comment b4 p4] l3 w(4) by simp
  have e: "(((''HIERARCH '' @ name) @ ind) @ value_text v) @ comment_part comment
      = ''HIERARCH '' @ name @ blanks n @ ''= '' @ value_text v @ comment_part comment" by (simp add: n)
  show ?thesis
    using that [of n] buf_line_bytes [OF l4] w(5) unfolding e by simp
qed

lemma is_ascii_hierarch: "hierarch_ok name \<Longrightarrow> is_ascii name"
  using hierarch_chars(1) by (intro is_ascii_printable) (simp add: list_all_iff)

lemma parse_hierarch_line:
  assumes name: "hierarch_ok name" and v: "token_for v tok" and c: "comment_ok comment"
    and len: "length (''HIERARCH '' @ name @ blanks n @ ''= '' @ tok @ comment_part comment) \<le> CARD_SIZE"
  shows "card_parse (as_bytes (line (''HIERARCH '' @ name @ blanks n @ ''= '' @ tok @ comment_part comment)))
    = Inr (ParsedRecord (Hierarch name v comment), [])"
proof -
  define p where "p = ''HIERARCH '' @ name @ blanks n @ ''= '' @ tok @ comment_part comment"
  define t where "t = line p"
  define m where "m = CARD_SIZE - length p"
  have "code_of (CHR ''='') < 128" by (simp add: code_of_def)
  then have asc: "is_ascii t"
    using is_ascii_hierarch [OF name] v [unfolded token_for_def] comment_part_printable [OF c] is_ascii_printable
    by (simp add: t_def p_def) (simp add: code_of_def)
  have t: "t = ''HIERARCH '' @ (name @ blanks n) @ CHR ''='' # blanks 1 @ tok @ comment_part comment @ blanks m"
    by (simp add: t_def p_def line_def m_def)
  have t9: "take 9 t = ''HIERARCH ''" "drop 9 t = (name @ blanks n) @ CHR ''='' # blanks 1 @ tok @ comment_part comment @ blanks m"
    by (simp_all add: t)
  have t8: "take 8 t = ''HIERARCH''" by (simp add: t)
  have no_eq: "x \<noteq> CHR ''=''" if "x \<in> set (name @ blanks n)" for x
    using that hierarch_chars(2) [OF name] by auto
  have at: "find_index (\<lambda>c. c = CHR ''='') (drop 9 t) = Some (length name + n)"
    unfolding t9(2) using find_index_append [of "name @ blanks n" "\<lambda>c. c = CHR ''=''"] no_eq by simp
  have sl: "slice 9 (9 + (length name + n)) t = name @ blanks n"
    unfolding slice_def drop_take using t9(2) by simp
  have after: "drop (9 + (length name + n) + 1) t = blanks 1 @ tok @ comment_part comment @ blanks m"
  proof -
    have "drop (9 + (length name + n) + 1) t = drop (length name + n + 1) (drop 9 t)" by (simp add: drop_drop add.commute)
    then show ?thesis unfolding t9(2) by simp
  qed
  have cm: "commentary_try_from (trim_end_char (CHR '' '') ''HIERARCH'') = Inr ''HIERARCH''" by code_simp
  have eqc: "eq_ignore_case ''HIERARCH '' ''HIERARCH ''" by (simp add: eq_ignore_case_def)
  have first: "list_all byte_ascii (take 8 (as_bytes t))"
    using asc by (simp add: take_as_bytes byte_ascii_as_bytes is_ascii_take)
  have end_no: "\<not> is_end_record (as_bytes t)"
    unfolding is_end_record_def take_as_bytes as_bytes_inject t8 by simp
  have "card_parse (as_bytes t) = parse_hierarch (as_bytes t) (9 + (length name + n))"
    using end_no first asc at cm eqc by (simp add: card_parse_def Let_def t8 t9(1))
  also have "\<dots> = Inr (ParsedRecord (Hierarch name v comment), [])"
    using asc sl hierarch_trailing_blanks [OF name, of n] after split_field [OF v c, of 1 m] v [unfolded token_for_def]
    by (simp add: parse_hierarch_def Let_def t8)
  finally show ?thesis by (simp only: t_def p_def)
qed

lemma hierarch_parses:
  assumes "hierarch_ok name" and "value_ok v" and "comment_ok comment"
    and "continuation_chain (Hierarch name v comment) = None"
    and "record_render (Hierarch name v comment) = Inr raw"
  shows "length raw = CARD_SIZE \<and> card_parse raw = Inr (ParsedRecord (Hierarch name v comment), [])"
proof -
  have "render_hierarch name v comment = Inr raw"
    using assms(4,5) by (auto simp: record_render_def bind_eq_Inr attempt_eq_Inr)
  then obtain n where n: "raw = as_bytes (line (''HIERARCH '' @ name @ blanks n @ ''= '' @ value_text v @ comment_part comment))"
    "length (''HIERARCH '' @ name @ blanks n @ ''= '' @ value_text v @ comment_part comment) \<le> CARD_SIZE"
    using render_hierarch_line by blast
  then show ?thesis
    using parse_hierarch_line [OF assms(1) value_text_token [OF assms(2)] assms(3) n(2)] length_line [OF n(2)] by simp
qed

text \<open>A \<^verbatim>\<open>HIERARCH\<close> record with its name, value and comment in canonical form, whose text is valid and fits one
  record, renders to 80 bytes that parse back to it without a repair, whether or not the blank before the
  value indicator fits.\<close>

theorem hierarch_roundtrip:
  assumes "hierarch_ok name" and "value_ok v" and "comment_ok comment"
    and "continuation_chain (Hierarch name v comment) = None"
    and "record_render (Hierarch name v comment) = Inr raw"
  shows "length raw = CARD_SIZE \<and> card_parse raw = Inr (ParsedRecord (Hierarch name v comment), [])"
  using assms by (rule hierarch_parses)

lemma hierarch_roundtrip_witness:
  "length (as_bytes (line ''HIERARCH ESO DET DIT = 42'')) = CARD_SIZE
    \<and> card_parse (as_bytes (line ''HIERARCH ESO DET DIT = 42''))
      = Inr (ParsedRecord (Hierarch ''ESO DET DIT'' (VInteger (IntI64 42)) None), [])"
proof (rule hierarch_roundtrip)
  show "hierarch_ok ''ESO DET DIT''" "comment_ok None"
    "continuation_chain (Hierarch ''ESO DET DIT'' (VInteger (IntI64 42)) None) = None"
    "record_render (Hierarch ''ESO DET DIT'' (VInteger (IntI64 42)) None)
      = Inr (as_bytes (line ''HIERARCH ESO DET DIT = 42''))"
    by code_simp+
  show "value_ok (VInteger (IntI64 42))" by (simp add: i64_min_def i64_max_def)
qed

end
