(* ===== verification/First_Failure.thy ===== *)
theory First_Failure
  imports Fits_Types
begin

text \<open>
  The parallel runs of \<^verbatim>\<open>src/compression/first_failure.rs\<close>. \<open>par_step\<close> is one atomic event of
  \<^verbatim>\<open>try_map_init\<close>: an item loads the hint and skips or starts, or it ends its work, lowering the hint
  when it failed. Items interleave in any order, as rayon runs them; a \<^verbatim>\<open>Relaxed\<close> load may give any value
  the hint has had, so the state keeps them all, while \<^verbatim>\<open>fetch_min\<close> changes the latest. The scratch of a
  worker is a buffer that the work's result does not depend on, so the work is a function of the index.

  The lemmas show that the result does not depend on the interleaving: it is that of a sequential loop.
\<close>

section \<open>The code\<close>

type_synonym 't slot = "'t fits_result option"

datatype 't item_state = Waiting | Working | Done "'t slot"

record 't par_state =
  hint_values :: "nat list"  \<comment> \<open>the latest value first\<close>
  item_states :: "'t item_state list"

definition par_init :: "nat \<Rightarrow> 't par_state" where
  "par_init n = \<lparr>hint_values = [usize_max], item_states = replicate n Waiting\<rparr>"

text \<open>Item \<open>i\<close> of the range that starts at \<open>start\<close> works on the index \<open>start + i\<close>.\<close>

inductive par_step :: "(nat \<Rightarrow> 't fits_result) \<Rightarrow> nat \<Rightarrow> 't par_state \<Rightarrow> 't par_state \<Rightarrow> bool"
  for f :: "nat \<Rightarrow> 't fits_result" and start :: nat where
  skip: "i < length (item_states s) \<Longrightarrow> item_states s ! i = Waiting \<Longrightarrow> seen \<in> set (hint_values s) \<Longrightarrow> start + i > seen
    \<Longrightarrow> par_step f start s (s\<lparr>item_states := (item_states s)[i := Done None]\<rparr>)"
| begin_work: "i < length (item_states s) \<Longrightarrow> item_states s ! i = Waiting \<Longrightarrow> seen \<in> set (hint_values s) \<Longrightarrow> \<not> start + i > seen
    \<Longrightarrow> par_step f start s (s\<lparr>item_states := (item_states s)[i := Working]\<rparr>)"
| work_ok: "i < length (item_states s) \<Longrightarrow> item_states s ! i = Working \<Longrightarrow> f (start + i) = Inr t
    \<Longrightarrow> par_step f start s (s\<lparr>item_states := (item_states s)[i := Done (Some (Inr t))]\<rparr>)"
| work_err: "i < length (item_states s) \<Longrightarrow> item_states s ! i = Working \<Longrightarrow> f (start + i) = Inl e
    \<Longrightarrow> par_step f start s (s\<lparr>hint_values := min (start + i) (hd (hint_values s)) # hint_values s,
                              item_states := (item_states s)[i := Done (Some (Inl e))]\<rparr>)"

inductive_cases par_stepE: "par_step f start s s'"

fun slot_of :: "'t item_state \<Rightarrow> 't slot option" where
  "slot_of (Done r) = Some r"
| "slot_of _ = None"

text \<open>The ordered collect: a skipped slot is the \<^verbatim>\<open>expect\<close>'s panic, and the first error ends it.\<close>

fun collect_slots :: "'t slot list \<Rightarrow> 't list run" where
  "collect_slots [] = Inr []"
| "collect_slots (None # rest) = Inl Panic"
| "collect_slots (Some (Inl e) # rest) = Inl (Err e)"
| "collect_slots (Some (Inr t) # rest) = bind (collect_slots rest) (\<lambda>ts. Inr (t # ts))"

definition all_done :: "'t par_state \<Rightarrow> bool" where
  "all_done s = list_all (\<lambda>st. slot_of st \<noteq> None) (item_states s)"

text \<open>What \<^verbatim>\<open>try_map_init\<close> returns once every item is done.\<close>

definition par_result :: "'t par_state \<Rightarrow> 't list run" where
  "par_result s = collect_slots (map (the \<circ> slot_of) (item_states s))"

text \<open>\<^verbatim>\<open>try_for_each_init\<close> over rayon's \<^verbatim>\<open>find_map_first\<close>, a parameter.\<close>

definition try_for_each_init ::
  "((nat \<times> 'i \<Rightarrow> fits_error option) \<Rightarrow> (nat \<times> 'i) list \<Rightarrow> fits_error option) \<Rightarrow> 'i list \<Rightarrow> (nat \<times> 'i \<Rightarrow> unit fits_result)
    \<Rightarrow> unit fits_result" where
  "try_for_each_init find_map_first items f =
     (case find_map_first (\<lambda>item. case f item of Inl e \<Rightarrow> Some e | Inr _ \<Rightarrow> None) (enumerate 0 items) of
        None \<Rightarrow> Inr () | Some e \<Rightarrow> Inl e)"

section \<open>The sequential loop\<close>

fun sequential :: "(nat \<Rightarrow> 't fits_result) \<Rightarrow> nat list \<Rightarrow> 't list fits_result" where
  "sequential f [] = Inr []"
| "sequential f (i # is) = bind (f i) (\<lambda>t. bind (sequential f is) (\<lambda>ts. Inr (t # ts)))"

section \<open>Every interleaving gives the sequential result\<close>

text \<open>Every value of the hint is the start value or the index of a failure, and an item is skipped only past a
  failure.\<close>

definition hint_ok :: "(nat \<Rightarrow> 't fits_result) \<Rightarrow> nat \<Rightarrow> nat \<Rightarrow> nat \<Rightarrow> bool" where
  "hint_ok f start n v \<longleftrightarrow> v = usize_max \<or> (\<exists>j < n. v = start + j \<and> (\<exists>e. f (start + j) = Inl e))"

fun item_ok :: "(nat \<Rightarrow> 't fits_result) \<Rightarrow> nat \<Rightarrow> nat \<Rightarrow> 't item_state \<Rightarrow> bool" where
  "item_ok f start i (Done None) \<longleftrightarrow> (\<exists>j < i. \<exists>e. f (start + j) = Inl e)"
| "item_ok f start i (Done (Some r)) \<longleftrightarrow> r = f (start + i)"
| "item_ok f start i _ \<longleftrightarrow> True"

definition par_inv :: "(nat \<Rightarrow> 't fits_result) \<Rightarrow> nat \<Rightarrow> nat \<Rightarrow> 't par_state \<Rightarrow> bool" where
  "par_inv f start n s \<longleftrightarrow> length (item_states s) = n \<and> hint_values s \<noteq> []
     \<and> (\<forall>v \<in> set (hint_values s). hint_ok f start n v) \<and> (\<forall>i < n. item_ok f start i (item_states s ! i))"

lemma par_inv_init: "par_inv f start n (par_init n)"
  by (simp add: par_inv_def par_init_def hint_ok_def)

lemma par_inv_update:
  assumes "par_inv f start n s" and "item_ok f start i st"
  shows "par_inv f start n (s\<lparr>item_states := (item_states s)[i := st]\<rparr>)"
  using assms unfolding par_inv_def by (auto, metis nth_list_update_eq nth_list_update_neq)

lemma par_inv_step:
  assumes "par_step f start s s'" and inv: "par_inv f start n s" and "start + n \<le> usize_max"
  shows "par_inv f start n s'"
  using assms(1)
proof (cases rule: par_step.cases)
  case (skip i seen)
  note 1 = this
  have "hint_ok f start n seen" using inv 1 by (auto simp: par_inv_def)
  moreover have "seen \<noteq> usize_max" using 1 inv assms(3) by (auto simp: par_inv_def)
  ultimately obtain j e where "j < n" "seen = start + j" "f (start + j) = Inl e" by (auto simp: hint_ok_def)
  then have "item_ok f start i (Done None)" using 1 by auto
  then show ?thesis unfolding 1(1) using inv by (rule par_inv_update [rotated])
next
  case (work_err i e)
  note 4 = this
  have "hint_ok f start n (hd (hint_values s))" using inv by (auto simp: par_inv_def)
  moreover have "hint_ok f start n (start + i)" using 4 inv by (auto simp: hint_ok_def par_inv_def)
  ultimately have "hint_ok f start n (min (start + i) (hd (hint_values s)))" by (simp add: min_def)
  moreover have "par_inv f start n (s\<lparr>item_states := (item_states s)[i := Done (Some (Inl e))]\<rparr>)"
    using inv 4 by (intro par_inv_update) simp_all
  ultimately show ?thesis unfolding 4(1) by (auto simp: par_inv_def)
qed (use inv in \<open>auto intro!: par_inv_update\<close>)

lemma par_inv_run:
  assumes "(par_step f start)\<^sup>*\<^sup>* (par_init n) s" and "start + n \<le> usize_max"
  shows "par_inv f start n s"
  using assms(1) by (induction rule: rtranclp_induct) (auto intro: par_inv_init par_inv_step assms(2))

text \<open>The collect of slots that satisfy the invariant.\<close>

lemma collect_sequential:
  assumes "\<forall>i < length sl. item_ok f start i (Done (sl ! i))"
  shows "collect_slots sl = attempt (sequential f [start..<start + length sl])"
  using assms
proof (induction sl arbitrary: start)
  case (Cons r sl)
  have "item_ok f start 0 (Done r)" using Cons.prems by (metis length_greater_0_conv list.distinct(1) nth_Cons_0)
  then have r: "r = Some (f start)" by (cases r) auto
  have up: "[start..<start + length (r # sl)] = start # [Suc start..<Suc start + length sl]"
    by (simp add: upt_rec)
  show ?case
  proof (cases "f start")
    case (Inr t)
    have "item_ok f (Suc start) i (Done (sl ! i))" if "i < length sl" for i
    proof (cases "sl ! i")
      case None
      have "item_ok f start (Suc i) (Done (sl ! i))" using Cons.prems that by (metis Suc_less_eq length_Cons nth_Cons_Suc)
      then obtain j e where j: "j < Suc i" "f (start + j) = Inl e" using None by auto
      then have "j \<noteq> 0" using Inr by (intro notI) simp
      then obtain j' where "j = Suc j'" by (cases j) auto
      then show ?thesis using j None by auto
    next
      case (Some a)
      have "item_ok f start (Suc i) (Done (sl ! i))" using Cons.prems that by (metis Suc_less_eq length_Cons nth_Cons_Suc)
      then show ?thesis using Some by simp
    qed
    then have "collect_slots sl = attempt (sequential f [Suc start..<Suc start + length sl])"
      by (intro Cons.IH) simp
    then show ?thesis using Inr r up by (cases "sequential f [Suc start..<Suc start + length sl]") simp_all
  qed (use r up in simp)
qed simp

section \<open>Every run ends\<close>

fun item_work :: "'t item_state \<Rightarrow> nat" where
  "item_work Waiting = 2"
| "item_work Working = 1"
| "item_work (Done r) = 0"

definition work_left :: "'t par_state \<Rightarrow> nat" where
  "work_left s = sum_list (map item_work (item_states s))"

lemma work_update:
  "i < length sts \<Longrightarrow> item_work st < item_work (sts ! i)
    \<Longrightarrow> sum_list (map item_work (sts[i := st])) < sum_list (map item_work sts)"
proof (induction sts arbitrary: i)
  case (Cons a sts)
  then show ?case by (cases i) auto
qed simp

lemma step_works: "par_step f start s s' \<Longrightarrow> work_left s' < work_left s"
  by (elim par_stepE) (auto simp: work_left_def intro!: work_update)

lemma step_enabled:
  assumes "\<not> all_done s" and "hint_values s \<noteq> []"
  shows "\<exists>s'. par_step f start s s'"
proof -
  obtain i where i: "i < length (item_states s)" "slot_of (item_states s ! i) = None"
    using assms(1) by (auto simp: all_done_def list_all_length)
  show ?thesis
  proof (cases "item_states s ! i")
    case Waiting
    have "hd (hint_values s) \<in> set (hint_values s)" using assms(2) by simp
    then show ?thesis using par_step.skip [OF i(1) Waiting] par_step.begin_work [OF i(1) Waiting] by blast
  next
    case Working
    then show ?thesis
      using par_step.work_ok [OF i(1) Working, of f start] par_step.work_err [OF i(1) Working, of f start]
      by (cases "f (start + i)") blast+
  qed (use i(2) in simp)
qed

lemma run_works:
  "(par_step f start ^^ k) s s' \<Longrightarrow> work_left s' + k \<le> work_left s"
proof (induction k arbitrary: s')
  case (Suc k)
  then obtain s1 where "(par_step f start ^^ k) s s1" "par_step f start s1 s'" by auto
  then show ?case using Suc.IH step_works by fastforce
qed simp

text \<open>C2: However the items of a parallel run interleave, and whatever earlier value of the hint a relaxed load
  gives, a run that has ended returns what a sequential loop over the indices returns: every value in order,
  or the error of the lowest failing index. The \<^verbatim>\<open>expect\<close> of a skipped item never panics.\<close>

theorem parallel_result_sequential:
  assumes "(par_step f start)\<^sup>*\<^sup>* (par_init n) s" and "start + n \<le> usize_max" and "all_done s"
  shows "par_result s = attempt (sequential f [start..<start + n])"
proof -
  have inv: "par_inv f start n s" by (rule par_inv_run [OF assms(1,2)])
  define sl where "sl = map (the \<circ> slot_of) (item_states s)"
  have n: "length sl = n" using inv by (simp add: sl_def par_inv_def)
  have "item_ok f start i (Done (sl ! i))" if i: "i < length sl" for i
  proof -
    have len: "i < length (item_states s)" using i by (simp add: sl_def)
    then obtain r where "item_states s ! i = Done r"
      using assms(3) by (cases "item_states s ! i") (auto simp: all_done_def list_all_length)
    moreover have "item_ok f start i (item_states s ! i)" using inv i n by (simp add: par_inv_def)
    ultimately show ?thesis using len by (simp add: sl_def)
  qed
  then have "collect_slots sl = attempt (sequential f [start..<start + length sl])" by (intro collect_sequential) blast
  then show ?thesis by (simp add: par_result_def sl_def [symmetric] n)
qed

text \<open>Two items of which both fail; the second fails first, and the first one's error is returned.\<close>

definition both_fail :: "nat \<Rightarrow> nat fits_result" where
  "both_fail i = Inl (MissingKeyword (KeywordName (if i = 0 then ''A'' else ''B'')))"

lemma parallel_result_sequential_witness:
  "par_result \<lparr>hint_values = [0, 1, usize_max],
      item_states = [Done (Some (both_fail 0)), Done (Some (both_fail 1))]\<rparr>
    = attempt (sequential both_fail [0..<0 + 2])"
proof (rule parallel_result_sequential)
  define s0 :: "nat par_state" where "s0 = par_init 2"
  define s1 where "s1 = s0\<lparr>item_states := (item_states s0)[0 := Working]\<rparr>"
  define s2 where "s2 = s1\<lparr>item_states := (item_states s1)[1 := Working]\<rparr>"
  define s3 where "s3 = s2\<lparr>hint_values := min (0 + 1) (hd (hint_values s2)) # hint_values s2,
    item_states := (item_states s2)[1 := Done (Some (Inl (MissingKeyword (KeywordName ''B''))))]\<rparr>"
  define s4 where "s4 = s3\<lparr>hint_values := min (0 + 0) (hd (hint_values s3)) # hint_values s3,
    item_states := (item_states s3)[0 := Done (Some (Inl (MissingKeyword (KeywordName ''A''))))]\<rparr>"
  note defs = s0_def s1_def s2_def s3_def s4_def par_init_def both_fail_def numeral_2_eq_2 usize_max_def
  have "par_step both_fail 0 s0 s1" unfolding s1_def by (rule begin_work [of _ _ usize_max]) (simp_all add: defs)
  moreover have "par_step both_fail 0 s1 s2" unfolding s2_def by (rule begin_work [of _ _ usize_max]) (simp_all add: defs)
  moreover have "par_step both_fail 0 s2 s3"
    unfolding s3_def by (rule work_err) (simp_all add: defs)
  moreover have "par_step both_fail 0 s3 s4"
    unfolding s4_def by (rule work_err) (simp_all add: defs)
  ultimately have "(par_step both_fail 0)\<^sup>*\<^sup>* s0 s4"
    by (rule converse_rtranclp_into_rtranclp [OF _ converse_rtranclp_into_rtranclp
          [OF _ converse_rtranclp_into_rtranclp [OF _ r_into_rtranclp]]])
  moreover have "s4 = \<lparr>hint_values = [0, 1, usize_max],
      item_states = [Done (Some (both_fail 0)), Done (Some (both_fail 1))]\<rparr>"
    by (simp add: defs)
  ultimately show "(par_step both_fail 0)\<^sup>*\<^sup>* (par_init 2) \<lparr>hint_values = [0, 1, usize_max],
      item_states = [Done (Some (both_fail 0)), Done (Some (both_fail 1))]\<rparr>"
    by (simp add: s0_def)
qed (simp_all add: usize_max_def all_done_def)



end
