(* ===== verification/Gzip.thy ===== *)
theory Gzip
  imports Blocks
begin

text \<open>
  The \<^verbatim>\<open>GZIP_1\<close> and \<^verbatim>\<open>GZIP_2\<close> tile codec of \<^verbatim>\<open>src/compression/gzip/mod.rs\<close>: the byte shuffle, the gzip
  member around the deflate data, the loop that feeds the deflate state, and the checks of a decode. The
  deflate and inflate states and the CRC are \<^verbatim>\<open>flate2\<close>'s, a parameter \<open>flate\<close>: \<open>fl_compress\<close> gives the state
  after a call, the bytes it appended, the input it took and whether the stream ended; \<open>fl_inflate\<close> a body's
  output in at most so many bytes, whether its stream ended, and the input it consumed.
\<close>

section \<open>The code\<close>

record gzip_codec =
  gz_level :: nat
  gz_shuffle :: nat

record 'd flate =
  fl_new :: "nat \<Rightarrow> 'd"
  fl_reset :: "'d \<Rightarrow> 'd"
  fl_compress :: "'d \<Rightarrow> bytes \<Rightarrow> ('d \<times> bytes \<times> nat \<times> bool) option"
  fl_inflate :: "bytes \<Rightarrow> nat \<Rightarrow> (bytes \<times> bool \<times> nat) option"
  fl_crc :: "bytes \<Rightarrow> u32"

text \<open>The deflate state that a scratch keeps, with the level it compresses at.\<close>

record 'd deflate_slot =
  ds_level :: nat
  ds_state :: 'd

definition MEMBER_OVERHEAD :: nat where "MEMBER_OVERHEAD = 10 + 8"

definition member_header :: "nat \<Rightarrow> bytes" where
  "member_header level =
     (let xfl = (if level \<ge> 9 then 2 else if level \<in> {0, 1} then 4 else 0)
      in [0x1f, 0x8b, 8, 0, 0, 0, 0, 0, xfl, 255])"

definition le32 :: "u32 \<Rightarrow> bytes" where "le32 w = rev (to_be32 w)"

definition from_le32 :: "bytes \<Rightarrow> u32" where "from_le32 bs = from_be32 (rev bs)"

definition from_le16 :: "bytes \<Rightarrow> u16" where "from_le16 bs = from_be16 (rev bs)"

definition shuffle_bytes :: "bytes \<Rightarrow> nat \<Rightarrow> bytes" where
  "shuffle_bytes raw width =
     (if width \<le> 1 then raw
      else let n = length raw div width
           in concat (map (\<lambda>p. map (\<lambda>i. raw ! (i * width + p)) [0..<n]) [0..<width]) @ replicate (length raw - width * n) 0)"

definition interleave :: "nat \<Rightarrow> bytes \<Rightarrow> bytes" where
  "interleave w planes =
     (let n = length planes div w
      in concat (map (\<lambda>i. map (\<lambda>p. planes ! (p * n + i)) [0..<w]) [0..<n]) @ replicate (length planes - w * n) 0)"

definition unshuffle_bytes :: "bytes \<Rightarrow> nat \<Rightarrow> bytes" where
  "unshuffle_bytes shuffled width = (if width \<in> {2, 4, 8} then interleave width shuffled else shuffled)"

text \<open>The loop that compresses until the stream ends; a refused call and a count past the input panic.\<close>

partial_function (option) deflate_loop ::
  "('d \<Rightarrow> bytes \<Rightarrow> ('d \<times> bytes \<times> nat \<times> bool) option) \<Rightarrow> 'd \<Rightarrow> bytes \<Rightarrow> bytes \<Rightarrow> (bytes \<times> 'd) run option" where
  "deflate_loop compress d input stream =
     (case compress d input of
        None \<Rightarrow> Some (Inl Panic)
      | Some (d', out, taken, ended) \<Rightarrow>
          (if length input < taken then Some (Inl Panic)
           else if ended then Some (Inr (stream @ out, d'))
           else deflate_loop compress d' (drop taken input) (stream @ out)))"

definition deflate_state :: "('d, 'e) flate_scheme \<Rightarrow> nat \<Rightarrow> 'd deflate_slot option \<Rightarrow> 'd" where
  "deflate_state fl level slot =
     (case slot of
        Some s \<Rightarrow> if ds_level s = level then fl_reset fl (ds_state s) else fl_new fl level
      | None \<Rightarrow> fl_new fl level)"

definition gzip_encode ::
  "'d flate \<Rightarrow> gzip_codec \<Rightarrow> bytes \<Rightarrow> 'd deflate_slot option \<Rightarrow> (bytes \<times> 'd deflate_slot) run option" where
  "gzip_encode fl codec input slot =
     (let raw = (if gz_shuffle codec \<le> 1 then input else shuffle_bytes input (gz_shuffle codec));
          d = deflate_state fl (gz_level codec) slot
      in map_option (\<lambda>r. bind r (\<lambda>(stream, d').
           Inr (stream @ le32 (fl_crc fl raw) @ le32 (of_nat (length raw)),
                \<lparr>ds_level = gz_level codec, ds_state = d'\<rparr>)))
         (deflate_loop (fl_compress fl) d raw (member_header (gz_level codec))))"

definition FHCRC :: u8 where "FHCRC = 0x02"
definition FEXTRA :: u8 where "FEXTRA = 0x04"
definition FNAME :: u8 where "FNAME = 0x08"
definition FCOMMENT :: u8 where "FCOMMENT = 0x10"
definition RESERVED :: u8 where "RESERVED = 0xE0"

definition header_defect :: fits_error where
  "header_defect = from_compressed_data_defect GzipHeader"

text \<open>\<^verbatim>\<open>stream.get(at..)\<close> and \<^verbatim>\<open>stream.get(at..at + n)\<close>.\<close>

definition get_from :: "bytes \<Rightarrow> nat \<Rightarrow> bytes option" where
  "get_from bs at = (if at \<le> length bs then Some (drop at bs) else None)"

definition get_n :: "bytes \<Rightarrow> nat \<Rightarrow> nat \<Rightarrow> bytes option" where
  "get_n bs at n = (if at + n \<le> length bs then Some (take n (drop at bs)) else None)"

definition skip_extra :: "bytes \<Rightarrow> u8 \<Rightarrow> nat \<Rightarrow> nat fits_result" where
  "skip_extra stream flags at =
     (if flags AND FEXTRA \<noteq> 0
      then bind (ok_or (get_n stream at 2) header_defect) (\<lambda>len. Inr (at + 2 + unat (from_le16 len)))
      else Inr at)"

definition position_zero :: "bytes \<Rightarrow> nat option" where
  "position_zero bs = (let n = length (takeWhile (\<lambda>b. b \<noteq> 0) bs) in if n < length bs then Some n else None)"

definition skip_text :: "bytes \<Rightarrow> u8 \<Rightarrow> u8 \<Rightarrow> nat \<Rightarrow> nat fits_result" where
  "skip_text stream flags field at =
     (if flags AND field \<noteq> 0
      then bind (ok_or (Option.bind (get_from stream at) position_zero) header_defect) (\<lambda>stop. Inr (at + stop + 1))
      else Inr at)"

definition skip_crc :: "(bytes \<Rightarrow> u32) \<Rightarrow> bytes \<Rightarrow> u8 \<Rightarrow> nat \<Rightarrow> nat fits_result" where
  "skip_crc crc stream flags at =
     (if flags AND FHCRC \<noteq> 0
      then bind (ok_or (get_n stream at 2) header_defect) (\<lambda>stored.
             if from_le16 stored \<noteq> ucast (crc (take at stream)) then Inl header_defect else Inr (at + 2))
      else Inr at)"

definition member_body :: "(bytes \<Rightarrow> u32) \<Rightarrow> bytes \<Rightarrow> bytes fits_result" where
  "member_body crc stream =
     (if length stream < 10 \<or> take 3 stream \<noteq> [0x1f, 0x8b, 8] then Inl header_defect
      else
        let flags = stream ! 3
        in if flags AND RESERVED \<noteq> 0 then Inl header_defect
           else bind (skip_extra stream flags 10) (\<lambda>at.
                bind (skip_text stream flags FNAME at) (\<lambda>at.
                bind (skip_text stream flags FCOMMENT at) (\<lambda>at.
                bind (skip_crc crc stream flags at) (\<lambda>at.
                  ok_or (get_from stream at) header_defect)))))"

definition room :: "nat \<Rightarrow> nat" where "room expected = min usize_max (expected + 1)"

text \<open>The output buffer, emptied, has the larger of the capacity it had and the room reserved.\<close>

definition gunzip_into :: "'d flate \<Rightarrow> (nat \<Rightarrow> bool) \<Rightarrow> bytes \<Rightarrow> nat \<Rightarrow> nat \<Rightarrow> bytes fits_result" where
  "gunzip_into fl grant stream expected capacity =
     bind (member_body (fl_crc fl) stream) (\<lambda>body.
     bind (if capacity < room expected then try_reserve_exact grant 1 ([] :: bytes) (room expected) else Inr ()) (\<lambda>_.
     bind (ok_or (fl_inflate fl body (max capacity (room expected))) (from_compressed_data_defect GzipStream))
       (\<lambda>(out, ended, consumed).
       if length out > expected then Inl (from_compressed_data_defect GzipOverrun)
       else if \<not> ended then Inl (from_compressed_data_defect GzipTruncated)
       else bind (ok_or (get_n body consumed 8) (from_compressed_data_defect GzipTruncated)) (\<lambda>trailer.
         if from_le32 (take 4 trailer) \<noteq> fl_crc fl out \<or> from_le32 (drop 4 trailer) \<noteq> of_nat (length out)
         then Inl (from_compressed_data_defect GzipChecksum)
         else if length out \<noteq> expected then Inl (mismatch Bytes expected (length out))
         else Inr out))))"

definition gzip_decode :: "'d flate \<Rightarrow> (nat \<Rightarrow> bool) \<Rightarrow> gzip_codec \<Rightarrow> bytes \<Rightarrow> nat \<Rightarrow> nat \<Rightarrow> bytes fits_result" where
  "gzip_decode fl grant codec bs expected capacity =
     (if gz_shuffle codec \<le> 1 then gunzip_into fl grant bs expected capacity
      else bind (gunzip_into fl grant bs expected capacity) (\<lambda>reordered.
             Inr (unshuffle_bytes reordered (gz_shuffle codec))))"

text \<open>The buffer room that decoding a tile takes.\<close>

definition INFLATE_STATE_BYTES :: nat where "INFLATE_STATE_BYTES = 65536"

record gzip_capacities =
  gc_bytes :: nat
  gc_reordered :: nat
  gc_inflate :: bool

definition capacities_max :: "gzip_capacities \<Rightarrow> gzip_capacities \<Rightarrow> gzip_capacities" where
  "capacities_max a b =
     \<lparr>gc_bytes = (if gc_bytes a > gc_bytes b then gc_bytes a else gc_bytes b),
      gc_reordered = (if gc_reordered a > gc_reordered b then gc_reordered a else gc_reordered b),
      gc_inflate = (gc_inflate a \<or> gc_inflate b)\<rparr>"

definition capacities_heap_bytes :: "gzip_capacities \<Rightarrow> nat" where
  "capacities_heap_bytes c = gc_bytes c + gc_reordered c + (if gc_inflate c then INFLATE_STATE_BYTES else 0)"

definition decode_capacities :: "gzip_codec \<Rightarrow> nat \<Rightarrow> gzip_capacities" where
  "decode_capacities codec expected =
     (let (bs, reordered) = (if gz_shuffle codec \<le> 1 then (room expected, 0) else (expected, room expected))
      in \<lparr>gc_bytes = bs, gc_reordered = reordered, gc_inflate = True\<rparr>)"

end
