(* ===== verification/Gzip_Correct.thy ===== *)
theory Gzip_Correct
  imports Gzip
begin

text \<open>
  A tile written by the gzip codec reads back: the shuffle and its inverse, the member's frame, and the deflate
  loop under the documented behaviour of \<^verbatim>\<open>flate2\<close>; and what a decode of arbitrary bytes can return.
\<close>

section \<open>The shuffle\<close>

lemma concat_map_nth:
  assumes "0 < w" and "k < n * w"
  shows "concat (map (\<lambda>i. map (f i) [0..<w]) [0..<n]) ! k = f (k div w) (k mod w)"
  using assms(2)
proof (induction n)
  case (Suc n)
  let ?c = "concat (map (\<lambda>i. map (f i) [0..<w]) [0..<n])"
  have len: "length ?c = n * w" by (simp add: length_concat o_def sum_list_triv)
  show ?case
  proof (cases "k < n * w")
    case True
    then show ?thesis using Suc.IH len by (simp add: nth_append)
  next
    case False
    then have "k = n * w + (k - n * w)" "k - n * w < w" using Suc.prems by auto
    then have "k div w = n" "k mod w = k - n * w"
      using assms(1) by (metis div_mult_self3 div_less add.right_neutral nat_neq_iff not_less0, metis mod_mult_self3 mod_less)
    then show ?thesis using False len \<open>k - n * w < w\<close> by (simp add: nth_append)
  qed
qed simp

lemma length_planes [simp]: "length (concat (map (\<lambda>i. map (f i) [0..<w]) [0..<n])) = n * w"
  by (simp add: length_concat o_def sum_list_triv)

lemma length_shuffle: "length (shuffle_bytes raw w) = length raw"
  by (auto simp: shuffle_bytes_def Let_def mult.commute)

lemma interleave_shuffle:
  assumes "1 < w" and "w dvd length raw"
  shows "interleave w (shuffle_bytes raw w) = raw"
proof (rule nth_equalityI)
  obtain n where n: "length raw = n * w" using assms(2) by (metis dvdE mult.commute)
  have w: "0 < w" using assms(1) by simp
  have sh: "shuffle_bytes raw w = concat (map (\<lambda>p. map (\<lambda>i. raw ! (i * w + p)) [0..<n]) [0..<w])"
    using assms(1) n by (simp add: shuffle_bytes_def)
  have len: "length (shuffle_bytes raw w) = n * w" using n by (simp add: length_shuffle)
  then have il: "interleave w (shuffle_bytes raw w)
      = concat (map (\<lambda>i. map (\<lambda>p. shuffle_bytes raw w ! (p * n + i)) [0..<w]) [0..<n])"
    using w by (simp add: interleave_def)
  then show "length (interleave w (shuffle_bytes raw w)) = length raw" using n by simp
  fix k assume "k < length (interleave w (shuffle_bytes raw w))"
  then have k: "k < n * w" using il by simp
  then have d: "k div w < n" "k mod w < w" using w by (simp_all add: less_mult_imp_div_less)
  have np: "0 < n" using d(1) by simp
  have "k mod w * n + k div w < Suc (k mod w) * n" using d(1) by simp
  also have "\<dots> \<le> w * n" using d(2) by (intro mult_le_mono1) simp
  finally have j: "k mod w * n + k div w < w * n" .
  have jd: "(k mod w * n + k div w) div n = k mod w" "(k mod w * n + k div w) mod n = k div w"
    using d(1) np by simp_all
  have "interleave w (shuffle_bytes raw w) ! k = shuffle_bytes raw w ! (k mod w * n + k div w)"
    unfolding il by (rule concat_map_nth [OF w k])
  also have "\<dots> = raw ! (k div w * w + k mod w)"
    unfolding sh using concat_map_nth [OF np j, of "\<lambda>p i. raw ! (i * w + p)"] unfolding jd .
  also have "\<dots> = raw ! k" by simp
  finally show "interleave w (shuffle_bytes raw w) ! k = raw ! k" .
qed

lemma unshuffle_shuffle:
  assumes "w \<in> {0, 1, 2, 4, 8}" and "w dvd length raw"
  shows "unshuffle_bytes (shuffle_bytes raw w) w = raw"
proof (cases "1 < w")
  case True
  then have "w \<in> {2, 4, 8}" using assms(1) by auto
  then show ?thesis using interleave_shuffle [OF True assms(2)] by (simp add: unshuffle_bytes_def)
qed (use assms in \<open>auto simp: unshuffle_bytes_def shuffle_bytes_def\<close>)

section \<open>The member\<close>

lemma le32_from [simp]: "from_le32 (le32 w) = w" "length (le32 w) = 4"
  by (simp_all add: from_le32_def le32_def)

lemma length_member_header [simp]: "length (member_header level) = 10"
  by (simp add: member_header_def Let_def)

lemma member_body_written: "member_body crc (member_header level @ rest) = Inr rest"
proof -
  let ?s = "member_header level @ rest"
  have "take 3 ?s = [0x1f, 0x8b, 8]" "?s ! 3 = 0"
    by (simp_all add: member_header_def Let_def numeral_eq_Suc)
  moreover have "get_from ?s 10 = Some rest" by (simp add: get_from_def)
  ultimately show ?thesis by (simp add: member_body_def Let_def skip_extra_def skip_text_def skip_crc_def)
qed

section \<open>The deflate loop\<close>

text \<open>The calls that compress an input to its stream's end.\<close>

inductive deflates :: "('d \<Rightarrow> bytes \<Rightarrow> ('d \<times> bytes \<times> nat \<times> bool) option) \<Rightarrow> 'd \<Rightarrow> bytes \<Rightarrow> bytes \<Rightarrow> 'd \<Rightarrow> bool"
  for compress where
  last_call: "compress d input = Some (d', out, taken, True) \<Longrightarrow> taken \<le> length input \<Longrightarrow> deflates compress d input out d'"
| next_call: "compress d input = Some (d1, out, taken, False) \<Longrightarrow> taken \<le> length input
    \<Longrightarrow> deflates compress d1 (drop taken input) rest d' \<Longrightarrow> deflates compress d input (out @ rest) d'"

lemma loop_deflates:
  "deflates compress d input data d' \<Longrightarrow> deflate_loop compress d input stream = Some (Inr (stream @ data, d'))"
proof (induction arbitrary: stream rule: deflates.induct)
  case (last_call d input d' out taken)
  then show ?case by (subst deflate_loop.simps) simp
next
  case (next_call d input d1 out taken rest d')
  then show ?case by (subst deflate_loop.simps) simp
qed

text \<open>What the documentation of \<^verbatim>\<open>flate2\<close> gives: a state new or reset compresses any input to an end, with calls
  that each make progress, and the data inflates to the input, whatever follows it, in a buffer with room past
  the output.\<close>

definition fresh_state :: "'d flate \<Rightarrow> 'd \<Rightarrow> bool" where
  "fresh_state fl d \<longleftrightarrow> (\<exists>level. d = fl_new fl level) \<or> (\<exists>d0. d = fl_reset fl d0)"

definition flate_compresses :: "'d flate \<Rightarrow> bool" where
  "flate_compresses fl \<longleftrightarrow> (\<forall>d input. fresh_state fl d \<longrightarrow> (\<exists>data d'. deflates (fl_compress fl) d input data d'))"

definition flate_inflates :: "'d flate \<Rightarrow> bool" where
  "flate_inflates fl \<longleftrightarrow> (\<forall>d input data d' rest cap. fresh_state fl d \<and> deflates (fl_compress fl) d input data d' \<and> length input < cap
     \<longrightarrow> fl_inflate fl (data @ rest) cap = Some (input, True, length data))"

lemma deflate_state_fresh: "fresh_state fl (deflate_state fl level slot)"
  by (auto simp: fresh_state_def deflate_state_def split: option.splits)

lemma gunzip_written:
  assumes fl: "flate_inflates fl" and d: "fresh_state fl d" "deflates (fl_compress fl) d raw data d'"
    and len: "length raw < usize_max" and grant: "grant (length raw + 1)"
  shows "gunzip_into fl grant (member_header level @ data @ le32 (fl_crc fl raw) @ le32 (of_nat (length raw))) (length raw) cap
    = Inr raw"
proof -
  let ?tail = "le32 (fl_crc fl raw) @ le32 (of_nat (length raw))"
  have r: "room (length raw) = length raw + 1" using len by (simp add: room_def)
  have a: "(if cap < room (length raw) then try_reserve_exact grant 1 ([] :: bytes) (room (length raw)) else Inr ()) = Inr ()"
    using grant len by (simp add: r try_reserve_exact_def try_reserve_def checked_add_def)
  have b: "fl_inflate fl (data @ ?tail) (max cap (room (length raw))) = Some (raw, True, length data)"
    using fl d unfolding flate_inflates_def by (simp add: r max_def)
  have c: "get_n (data @ ?tail) (length data) 8 = Some ?tail" by (simp add: get_n_def)
  have t: "take 4 ?tail = le32 (fl_crc fl raw)" "drop 4 ?tail = le32 (of_nat (length raw))" by simp_all
  show ?thesis
    unfolding gunzip_into_def member_body_written a bind_simps b ok_or_simps prod.case c t by simp
qed


text \<open>A codec that satisfies the laws: each call takes one byte and writes it after a mark, and the end is a mark.\<close>

definition byte_compress :: "unit \<Rightarrow> bytes \<Rightarrow> (unit \<times> bytes \<times> nat \<times> bool) option" where
  "byte_compress d input = Some (case input of [] \<Rightarrow> ((), [0], 0, True) | b # _ \<Rightarrow> ((), [1, b], 1, False))"

fun byte_inflate :: "bytes \<Rightarrow> bytes \<times> bool \<times> nat" where
  "byte_inflate (m # b # bs) =
     (if m = 0 then ([], True, 1) else let (out, ended, n) = byte_inflate bs in (b # out, ended, n + 2))"
| "byte_inflate [m] = ([], m = 0, 1)"
| "byte_inflate [] = ([], False, 0)"

definition byte_flate :: "unit flate" where
  "byte_flate = \<lparr>fl_new = \<lambda>_. (), fl_reset = \<lambda>_. (), fl_compress = byte_compress,
     fl_inflate = \<lambda>bs cap. (case byte_inflate bs of (out, ended, n) \<Rightarrow> Some (take cap out, ended, n)),
     fl_crc = \<lambda>bs. of_nat (length bs)\<rparr>"

lemma byte_deflates: "\<exists>data. deflates byte_compress () input data ()"
proof (induction input)
  case Nil
  have "deflates byte_compress () [] [0] ()" by (rule last_call) (simp_all add: byte_compress_def)
  then show ?case ..
next
  case (Cons b input)
  then obtain data where "deflates byte_compress () input data ()" ..
  then have "deflates byte_compress () (b # input) ([1, b] @ data) ()"
    by (intro next_call [where taken = 1]) (simp_all add: byte_compress_def)
  then show ?case ..
qed

lemma byte_inflates: "deflates byte_compress d input data d' \<Longrightarrow> byte_inflate (data @ rest) = (input, True, length data)"
proof (induction rule: deflates.induct)
  case (last_call d input d' out taken)
  then show ?case by (cases rest) (auto simp: byte_compress_def split: list.splits)
next
  case (next_call d input d1 out taken r d')
  then show ?case by (auto simp: byte_compress_def split: list.splits)
qed


section \<open>A decode of arbitrary bytes\<close>

lemma header_errors:
  "skip_extra stream flags at = Inl e \<Longrightarrow> e = header_defect"
  "skip_text stream flags field at = Inl e \<Longrightarrow> e = header_defect"
  "skip_crc crc stream flags at = Inl e \<Longrightarrow> e = header_defect"
  by (auto simp: skip_extra_def skip_text_def skip_crc_def bind_eq_Inl ok_or_def split: if_split_asm option.split_asm)

lemma member_body_error: "member_body crc stream = Inl e \<Longrightarrow> e = header_defect"
  using header_errors
  by (auto simp: member_body_def Let_def bind_eq_Inl ok_or_def split: if_split_asm option.split_asm)

lemma reserve_error:
  "(if c then try_reserve_exact grant 1 ([] :: bytes) (room expected) else Inr ()) = Inl e
    \<Longrightarrow> e = DataUnitTooLarge (allocation_bytes 1 (room expected))"
  by (auto simp: try_reserve_exact_def try_reserve_def checked_add_def room_def split: if_split_asm)

lemma gunzip_error:
  assumes "gunzip_into fl grant stream expected capacity = Inl e"
  shows "e \<in> from_compressed_data_defect ` {GzipHeader, GzipStream, GzipOverrun, GzipTruncated, GzipChecksum}
    \<or> (\<exists>got < expected. e = DataSizeMismatch Bytes expected got)
    \<or> e = DataUnitTooLarge (allocation_bytes 1 (room expected))"
proof (cases "member_body (fl_crc fl) stream")
  case (Inl e')
  then show ?thesis using assms member_body_error [OF Inl] by (simp add: gunzip_into_def header_defect_def)
next
  case (Inr body)
  show ?thesis
  proof (cases "if capacity < room expected then try_reserve_exact grant 1 ([] :: bytes) (room expected) else Inr ()")
    case (Inl e')
    then show ?thesis using assms \<open>member_body _ _ = _\<close> reserve_error [OF Inl] by (simp add: gunzip_into_def)
  next
    case (Inr u)
    note g = assms [unfolded gunzip_into_def \<open>member_body _ _ = _\<close> Inr bind_simps]
    show ?thesis
    proof (cases "fl_inflate fl body (max capacity (room expected))")
      case None
      then show ?thesis using g by simp
    next
      case (Some r)
      obtain out ended consumed where r: "r = (out, ended, consumed)" by (cases r)
      note g = g [unfolded Some r ok_or_simps bind_simps prod.case]
      show ?thesis
      proof (cases "length out \<le> expected \<and> ended \<and> get_n body consumed 8 \<noteq> None \<and> length out \<noteq> expected")
        case True
        then obtain trailer where "get_n body consumed 8 = Some trailer" by auto
        then show ?thesis using g True by (auto simp: mismatch_def split: if_split_asm)
      next
        case False
        then show ?thesis using g by (cases "get_n body consumed 8") (auto split: if_split_asm)
      qed
    qed
  qed
qed

text \<open>C38: Inflating any bytes to a declared size gives exactly so many bytes, which the deflate stream of a
  well-formed member ends with, and whose CRC and size are those of its trailer; or it gives the error of a
  malformed header, a broken, overlong or truncated stream or a wrong trailer, a size mismatch for a stream
  that is whole but shorter, or the allocator's refusal.\<close>

theorem gunzip_result:
  "case gunzip_into fl grant stream expected capacity of
     Inr out \<Rightarrow> length out = expected
       \<and> (\<exists>body consumed. member_body (fl_crc fl) stream = Inr body
            \<and> fl_inflate fl body (max capacity (room expected)) = Some (out, True, consumed)
            \<and> get_n body consumed 8 = Some (le32 (fl_crc fl out) @ le32 (of_nat (length out))))
   | Inl e \<Rightarrow> e \<in> from_compressed_data_defect ` {GzipHeader, GzipStream, GzipOverrun, GzipTruncated, GzipChecksum}
       \<or> (\<exists>got < expected. e = DataSizeMismatch Bytes expected got)
       \<or> e = DataUnitTooLarge (allocation_bytes 1 (room expected))"
proof (cases "gunzip_into fl grant stream expected capacity")
  case (Inl e)
  show ?thesis
    using Inl gunzip_error [OF Inl] by auto
next
  case (Inr out)
  have le: "from_le32 t = w \<Longrightarrow> length t = 4 \<Longrightarrow> t = le32 w" for t w
    by (auto simp: from_le32_def le32_def to_from_be)
  obtain body consumed trailer where b: "member_body (fl_crc fl) stream = Inr body"
    "fl_inflate fl body (max capacity (room expected)) = Some (out, True, consumed)"
    "get_n body consumed 8 = Some trailer" "length out = expected"
    "from_le32 (take 4 trailer) = fl_crc fl out" "from_le32 (drop 4 trailer) = of_nat (length out)"
    using Inr by (auto simp: gunzip_into_def bind_eq_Inr ok_or_eq_Inr split: if_split_asm prod.split_asm)
  have "length trailer = 8" using b(3) by (auto simp: get_n_def split: if_split_asm)
  then have "trailer = le32 (fl_crc fl out) @ le32 (of_nat (length out))"
    using le [OF b(5)] le [OF b(6)] append_take_drop_id [of 4 trailer] by simp
  then show ?thesis using Inr b by auto
qed

end
