(* ===== verification/Chain_Roundtrip.thy ===== *)
theory Chain_Roundtrip
  imports Hierarch_Roundtrip Header_Model
begin

text \<open>
  A long string written as a chain of \<^verbatim>\<open>CONTINUE\<close> records reads back as one record: the pieces are tokens of
  their substrings, each continuation parses to a \<^verbatim>\<open>Continue\<close>, and the parse of the header folds them.
\<close>

section \<open>Pieces\<close>

lemma keep_one_blank_iff: "keep_one_blank t = t \<longleftrightarrow> t = [] \<or> t = '' '' \<or> last t \<noteq> CHR '' ''"
proof (cases t rule: rev_cases)
  case Nil
  then show ?thesis by (simp add: keep_one_blank_def trim_end_char_def)
next
  case (snoc u c)
  show ?thesis
  proof (cases "c = CHR '' ''")
    case True
    have "length (trim_end_char (CHR '' '') u) \<le> length u"
      using length_dropWhile_le [of "\<lambda>x. x = CHR '' ''" "rev u"] by (simp add: trim_end_char_def)
    then have "length (trim_end_char (CHR '' '') (u @ [c])) < length (u @ [c])" using True by (simp add: trim_end_char_def)
    then have "trim_end_char (CHR '' '') (u @ [c]) \<noteq> u @ [c]" by (metis less_irrefl)
    moreover have "trim_end_char (CHR '' '') '' '' = []" by (simp add: trim_end_char_def)
    ultimately show ?thesis using snoc True by (cases "u = []") (auto simp: keep_one_blank_def Let_def)
  next
    case False
    then show ?thesis using snoc by (simp add: keep_one_blank_def trim_end_char_def)
  qed
qed

lemma keep_one_blank_suffix:
  assumes "keep_one_blank t = t" and "t = u @ s"
  shows "keep_one_blank s = s"
  using assms unfolding keep_one_blank_iff by (cases s) (auto simp: append_eq_Cons_conv Cons_eq_append_conv)

lemma concat_later_pieces: "concat (later_pieces s) = s"
proof (induction s rule: later_pieces.induct)
  case (1 s)
  then show ?case by (subst later_pieces.simps) simp
qed

lemma concat_pieces: "concat (pieces ls) = ls_text ls"
  by (simp add: pieces_def Let_def concat_later_pieces)

lemma pieces_suffix:
  assumes "ps \<noteq> []"
  shows "\<exists>u. concat ps = u @ last ps"
  using assms by (metis append_butlast_last_id concat.simps concat_append append_Nil2)

lemma unescape_escape: "unescape (escape t @ u) = map_option (\<lambda>s. t @ s) (unescape u)"
  by (induction t) (auto simp: option.map_comp o_def option.map_ident)

lemma escape_printable: "list_all is_printable t \<Longrightarrow> list_all is_printable (escape t)"
  by (induction t) auto

lemma printable_marks: "is_printable (CHR 0x27)" "is_printable (CHR ''&'')"
  by (simp_all add: is_printable_def code_of_def)

lemma amp_no_space: "\<not> is_whitespace (CHR ''&'')"
  by (simp add: is_whitespace_def code_of_def)

text \<open>The substring of a piece that is not the last, and of the last one.\<close>

lemma escape_snoc_amp: "escape (t @ ''&'') = escape t @ ''&''"
  by (induction t) auto

lemma piece_token:
  assumes "list_all is_printable t"
  shows "token_for (VText (t @ ''&'')) (quoted t [CHR ''&'', CHR 0x27])"
proof -
  let ?q = "CHR 0x27 # escape (t @ ''&'') @ blanks 0 @ [CHR 0x27]"
  have q: "quoted t [CHR ''&'', CHR 0x27] = ?q" by (simp add: quoted_def escape_snoc_amp)
  have "parse_value ?q = Inr (Some (VText (t @ ''&'')))"
    using unescape_escape [of "t @ ''&''" "[CHR 0x27]"]
    by (simp add: parse_value_def parse_string_def keep_one_blank_iff)
  moreover have "list_all is_printable ?q"
    using escape_printable [of "t @ ''&''"] assms printable_marks by simp
  moreover have "trim ?q = ?q" by (rule trim_id) simp_all
  ultimately show ?thesis unfolding q token_for_def using passes_string [of "t @ ''&''" 0] by blast
qed

lemma last_piece_token:
  assumes "list_all is_printable t" and "keep_one_blank t = t"
  shows "token_for (VText t) (quoted t [CHR 0x27])"
proof -
  let ?q = "CHR 0x27 # escape t @ blanks 0 @ [CHR 0x27]"
  have q: "quoted t [CHR 0x27] = ?q" by (simp add: quoted_def)
  have "parse_value ?q = Inr (Some (VText t))"
    using unescape_escape [of t "[CHR 0x27]"] assms(2) by (simp add: parse_value_def parse_string_def)
  moreover have "list_all is_printable ?q"
    using escape_printable [of t] assms printable_marks by simp
  moreover have "trim ?q = ?q" by (rule trim_id) simp_all
  ultimately show ?thesis unfolding q token_for_def using passes_string [of t 0] by blast
qed

lemma quoted_hd: "quoted t x = CHR 0x27 # escape t @ x"
  by (simp add: quoted_def)

section \<open>A continuation record\<close>

lemma token_parse_string:
  assumes "token_for (VText t) (CHR 0x27 # u)"
  shows "parse_string (CHR 0x27 # u) = Some t"
  using assms by (auto simp: token_for_def parse_value_def)

lemma parse_continue_line:
  assumes tok: "token_for (VText t) (CHR 0x27 # u)" and c: "comment_ok comment"
    and len: "length (''CONTINUE  '' @ (CHR 0x27 # u) @ comment_part comment) \<le> CARD_SIZE"
  shows "\<exists>x. card_parse (as_bytes (line (''CONTINUE  '' @ (CHR 0x27 # u) @ comment_part comment)))
    = Inr (ParsedContinue t comment x, [])"
proof -
  define p where "p = ''CONTINUE  '' @ (CHR 0x27 # u) @ comment_part comment"
  define t0 where "t0 = line p"
  define m where "m = CARD_SIZE - length p"
  have "list_all is_printable (CHR 0x27 # u)" using tok by (simp add: token_for_def)
  then have asc: "is_ascii t0"
    using comment_part_printable [OF c] is_ascii_printable [of "CHR 0x27 # u"] is_ascii_printable [of "comment_part comment"]
    by (simp add: t0_def p_def) (simp add: code_of_def)
  have t0: "t0 = ''CONTINUE  '' @ blanks 0 @ (CHR 0x27 # u) @ comment_part comment @ blanks m"
    by (simp add: t0_def p_def line_def m_def)
  have t8: "take 8 t0 = ''CONTINUE''" "slice 8 10 t0 = ''  ''"
    "drop 10 t0 = blanks 0 @ (CHR 0x27 # u) @ comment_part comment @ blanks m"
    by (simp_all add: t0 slice_def numeral_eq_Suc)
  have cm: "commentary_try_from (trim_end_char (CHR '' '') ''CONTINUE'') = Inr ''CONTINUE''" by code_simp
  have first: "list_all byte_ascii (take 8 (as_bytes t0))"
    using asc by (simp add: take_as_bytes byte_ascii_as_bytes is_ascii_take)
  have end_no: "\<not> is_end_record (as_bytes t0)"
    unfolding is_end_record_def take_as_bytes as_bytes_inject t8 by simp
  have "card_parse (as_bytes t0) = Inr (parse_continue (as_bytes t0))"
    using end_no first asc cm by (simp add: card_parse_def Let_def t8(1))
  moreover have "\<exists>x. parse_continue (as_bytes t0) = (ParsedContinue t comment x, [])"
    using asc split_field [OF tok c, of 0 m] token_parse_string [OF tok]
    unfolding parse_continue_def ascii_text_as_bytes [OF asc] slice_as_bytes t8(2,3) as_bytes_inject Let_def
    by (simp add: slice_as_bytes)
  ultimately show ?thesis unfolding t0_def p_def by auto
qed


section \<open>The chain\<close>

fun with_text :: "lead \<Rightarrow> string \<Rightarrow> string option \<Rightarrow> header_record" where
  "with_text (LeadKeyword k) t c = Valued k (VText t) c"
| "with_text (LeadHierarch n) t c = Hierarch n (VText t) c"
| "with_text (LeadCommentary n) t c = Commentary n (Some t)"

definition valued_lead_ok :: "lead \<Rightarrow> bool" where
  "valued_lead_ok ld = (case ld of
     LeadKeyword k \<Rightarrow> admits KeywordRule k \<and> validate_valued_keyword k = Inr ()
   | LeadHierarch n \<Rightarrow> hierarch_ok n
   | LeadCommentary _ \<Rightarrow> False)"

lemma with_text_keys:
  "valued_lead_ok ld \<Longrightarrow> record_keyword (with_text ld t c) = record_keyword (with_text ld t' c')"
  "valued_lead_ok ld \<Longrightarrow> record_hkey (with_text ld t c) = record_hkey (with_text ld t' c')"
  by (cases ld; simp add: valued_lead_ok_def record_hkey_def)+

lemma fold_with_text:
  "valued_lead_ok ld \<Longrightarrow> fold_continuation (rs @ [with_text ld (acc @ ''&'') c]) sub frag
    = Some (rs @ [with_text ld (acc @ sub) (join_comment c frag)])"
  by (cases ld) (auto simp: valued_lead_ok_def fold_continuation_def continue_text_def)

lemma push_record_records: "h_records (push_record h r) = h_records h @ [r]"
  by (simp add: push_record_def insert_at_def insert_nth_def)

lemma push_record_same_keys:
  assumes "record_keyword a = record_keyword b" and "record_hkey a = record_hkey b"
  shows "(push_record h a)\<lparr>h_records := h_records h @ [b]\<rparr> = push_record h b"
  using assms by (simp add: push_record_def insert_at_def insert_nth_def index_insert_def index_new_def)

lemma write_piece_line:
  assumes "buf_line b p" and "write_piece b (length p) piece l = Inr (b', pos)"
  shows "buf_line b' (p @ quoted piece (if l then [CHR 0x27] else [CHR ''&'', CHR 0x27]))
    \<and> pos = length (p @ quoted piece (if l then [CHR 0x27] else [CHR ''&'', CHR 0x27]))"
  using assms(2) buf_put_line [OF assms(1), of "quoted piece (if l then [CHR 0x27] else [CHR ''&'', CHR 0x27])"]
  by (auto simp: write_piece_def Let_def split: if_split_asm)

text \<open>One record of a chain as a line.\<close>

definition piece_text :: "string \<Rightarrow> bool \<Rightarrow> string option \<Rightarrow> string" where
  "piece_text piece last_one comment =
     quoted piece (if last_one then [CHR 0x27] else [CHR ''&'', CHR 0x27]) @ (if last_one then comment_part comment else [])"

lemma chain_record_line:
  assumes b: "buf_line b p" and w: "write_piece b (length p) piece l = Inr (b1, pos1)"
    and c: "(if l then attempt (write_comment_at b1 pos1 comment) else Inr (b1, pos1)) = Inr (b2, pos2)"
  shows "buf_line b2 (p @ piece_text piece l comment)"
proof -
  note w1 = write_piece_line [OF b w]
  show ?thesis
  proof (cases l)
    case True
    then have "write_comment_at b1 (length (p @ quoted piece [CHR 0x27])) comment = Inr (b2, pos2)"
      using c w1 by (simp add: attempt_eq_Inr)
    then have "buf_line b2 ((p @ quoted piece [CHR 0x27]) @ comment_part comment)"
      using write_comment_line [of b1 "p @ quoted piece [CHR 0x27]"] w1 True by simp
    then show ?thesis using True by (simp add: piece_text_def)
  qed (use c w1 in \<open>simp add: piece_text_def\<close>)
qed

lemma continue_start: "buf_line (buf_continuation ld) ''CONTINUE  ''"
proof -
  have "buf_line (buf_continuation ld) ''CONTINUE''"
    unfolding buf_continuation_def by (rule buf_named_line) (simp add: CARD_SIZE_def)
  from buf_line_blanks [OF this, of 2] show ?thesis by (simp add: CARD_SIZE_def numeral_2_eq_2)
qed

lemma first_start:
  assumes "valued_lead_ok ld" and "chain_first ld = Inr (b, pos)"
  obtains p where "buf_line b p" and "pos = length p"
    and "p = (case ld of LeadKeyword k \<Rightarrow> valued_lead k @ blanks 1 | LeadHierarch n \<Rightarrow> ''HIERARCH '' @ n @ blanks 1 @ ''= '' | _ \<Rightarrow> [])"
proof (cases ld)
  case (LeadKeyword k)
  then have k: "length k \<le> 8" using assms(1) keyword_length by (auto simp: valued_lead_ok_def)
  have "buf_line (buf_indicator (buf_new ld)) (valued_lead k)"
    unfolding valued_lead_def LeadKeyword buf_new.simps
    by (rule buf_indicator_line [OF buf_named_line]) (use k in \<open>simp_all add: CARD_SIZE_def\<close>)
  from buf_line_blanks [OF this, of 1] have "buf_line b (valued_lead k @ blanks 1)"
    using assms(2) LeadKeyword length_valued_lead [OF k] by (simp add: chain_first_def CARD_SIZE_def)
  moreover have "pos = length (valued_lead k @ blanks 1)"
    using assms(2) LeadKeyword length_valued_lead [OF k] by (simp add: chain_first_def)
  ultimately show ?thesis using that LeadKeyword by simp
next
  case (LeadHierarch n)
  obtain b1 p1 where w: "write_str_at (buf_new ld) 9 n = Inr (b1, p1)" "write_str_at b1 p1 '' = '' = Inr (b, pos)"
    using assms(2) LeadHierarch by (auto simp: chain_first_def bind_eq_Inr)
  have "buf_line (buf_new ld) ''HIERARCH''"
    unfolding LeadHierarch buf_new.simps by (rule buf_named_line) (simp add: CARD_SIZE_def)
  from buf_line_blanks [OF this, of 1] have l0: "buf_line (buf_new ld) ''HIERARCH ''" by (simp add: CARD_SIZE_def)
  have w1: "write_str_at (buf_new ld) (length ''HIERARCH '') n = Inr (b1, p1)" using w(1) by (simp add: numeral_eq_Suc)
  note l1 = write_str_line [OF l0 w1]
  have "buf_line b ((''HIERARCH '' @ n) @ '' = '') \<and> pos = length ((''HIERARCH '' @ n) @ '' = '')"
    using write_str_line [of b1 "''HIERARCH '' @ n" "'' = ''" b pos] l1 w(2) by simp
  then show ?thesis using that LeadHierarch by simp
next
  case (LeadCommentary n)
  then show ?thesis using assms(1) by (simp add: valued_lead_ok_def)
qed

section \<open>Parsing a chain\<close>

lemma parse_first_line:
  assumes ld: "valued_lead_ok ld" and tok: "token_for (VText t) tok" and c: "comment_ok comment"
    and p: "p = (case ld of LeadKeyword k \<Rightarrow> valued_lead k @ blanks 1 | LeadHierarch n \<Rightarrow> ''HIERARCH '' @ n @ blanks 1 @ ''= '' | _ \<Rightarrow> [])"
    and len: "length (p @ tok @ comment_part comment) \<le> CARD_SIZE"
  shows "card_parse (as_bytes (line (p @ tok @ comment_part comment))) = Inr (ParsedRecord (with_text ld t comment), [])"
proof (cases ld)
  case (LeadKeyword k)
  then have k: "admits KeywordRule k" "validate_valued_keyword k = Inr ()" using ld by (auto simp: valued_lead_ok_def)
  have p: "p @ tok @ comment_part comment = valued_lead k @ blanks (Suc 0) @ tok @ comment_part comment"
    using p LeadKeyword by simp
  have "list_all is_printable tok" using tok by (simp add: token_for_def)
  then have asc: "is_ascii (blanks (Suc 0) @ tok @ comment_part comment)"
    using comment_part_printable [OF c] is_ascii_printable is_ascii_blanks [of "Suc 0"] by (simp del: is_ascii_blanks)
  show ?thesis
    using card_parse_valued_start [OF k _ asc] parse_valued_field [OF k(1) tok c, of 0] len LeadKeyword
    unfolding p by simp
next
  case (LeadHierarch n)
  then have n: "hierarch_ok n" using ld by (simp add: valued_lead_ok_def)
  have p: "p @ tok @ comment_part comment = ''HIERARCH '' @ n @ blanks 1 @ ''= '' @ tok @ comment_part comment"
    using p LeadHierarch by simp
  show ?thesis using parse_hierarch_line [OF n tok c, of 1] len LeadHierarch unfolding p by simp
next
  case (LeadCommentary n)
  then show ?thesis using ld by (simp add: valued_lead_ok_def)
qed

text \<open>The continuation records, folded into the record the chain began.\<close>

definition with_records :: "header \<Rightarrow> header_record list \<Rightarrow> header" where
  "with_records h rs = h\<lparr>h_records := rs\<rparr>"

lemma parse_cards_continue:
  assumes "card_parse raw = Inr (ParsedContinue sub frag x, [])"
    and "fold_continuation rs sub frag = Some rs'"
  shows "parse_cards position (raw # later) (with_records h rs) = parse_cards (position + 1) later (with_records h rs')"
  using assms by (simp add: repairs_at_def with_records_def)

lemma as_chunks_card: "length raw = CARD_SIZE \<Longrightarrow> as_chunks CARD_SIZE (raw @ rest) = raw # as_chunks CARD_SIZE rest"
  by (subst as_chunks.simps) (simp add: CARD_SIZE_def)

lemma chain_later_parse:
  assumes "chain_records ld comment False ps = Inr raw" and "valued_lead_ok ld" and "comment_ok comment"
    and "list_all (list_all is_printable) ps" and "ps \<noteq> []" and "keep_one_blank (last ps) = last ps"
  shows "length raw = length ps * CARD_SIZE \<and>
    parse_cards position (as_chunks CARD_SIZE (raw @ rest)) (with_records h (rs @ [with_text ld (acc @ ''&'') None]))
    = parse_cards (position + length ps) (as_chunks CARD_SIZE rest) (with_records h (rs @ [with_text ld (acc @ concat ps) comment]))"
  using assms(1,4-6)
proof (induction ps arbitrary: raw position acc)
  case (Cons piece ps)
  obtain b1 pos1 b2 pos2 r where w: "write_piece (buf_continuation ld) 10 piece (ps = []) = Inr (b1, pos1)"
    "(if ps = [] then attempt (write_comment_at b1 pos1 comment) else Inr (b1, pos1)) = Inr (b2, pos2)"
    "chain_records ld comment False ps = Inr r" and raw: "raw = buf_bytes b2 @ r"
    using Cons.prems(1) by (auto simp: bind_eq_Inr)
  have w10: "write_piece (buf_continuation ld) (length ''CONTINUE  '') piece (ps = []) = Inr (b1, pos1)"
    using w(1) by (simp add: numeral_eq_Suc)
  define cm where "cm = (if ps = [] then comment else None)"
  have "buf_line b2 (''CONTINUE  '' @ piece_text piece (ps = []) comment)"
    by (rule chain_record_line [OF continue_start w10 w(2)])
  moreover have pt: "piece_text piece (ps = []) comment
      = quoted piece (if ps = [] then [CHR 0x27] else [CHR ''&'', CHR 0x27]) @ comment_part cm"
    by (simp add: piece_text_def cm_def comment_part_def)
  ultimately have "buf_line b2 (''CONTINUE  '' @ (CHR 0x27 # escape piece
        @ (if ps = [] then [CHR 0x27] else [CHR ''&'', CHR 0x27])) @ comment_part cm)"
    by (simp add: quoted_hd)
  note bl = buf_line_bytes [OF this, THEN conjunct1] and len = buf_line_bytes [OF this, THEN conjunct2]
  have c: "comment_ok cm" using assms(3) by (simp add: cm_def comment_ok_def)
  have pr: "list_all is_printable piece" using Cons.prems(2) by simp
  define sub where "sub = (if ps = [] then piece else piece @ ''&'')"
  have tok: "token_for (VText sub) (CHR 0x27 # escape piece @ (if ps = [] then [CHR 0x27] else [CHR ''&'', CHR 0x27]))"
    using piece_token [OF pr] last_piece_token [OF pr] Cons.prems(4)
    by (cases "ps = []") (simp_all add: sub_def quoted_hd)
  obtain x where x: "card_parse (buf_bytes b2) = Inr (ParsedContinue sub cm x, [])"
    using parse_continue_line [OF tok c len] unfolding bl by blast
  have l80: "length (buf_bytes b2) = CARD_SIZE" using length_line [OF len] by (simp add: bl)
  have step: "parse_cards position (as_chunks CARD_SIZE (raw @ rest)) (with_records h (rs @ [with_text ld (acc @ ''&'') None]))
      = parse_cards (position + 1) (as_chunks CARD_SIZE (r @ rest)) (with_records h (rs @ [with_text ld (acc @ sub) cm]))"
    unfolding raw append_assoc as_chunks_card [OF l80]
    by (rule parse_cards_continue [OF x]) (simp add: fold_with_text [OF assms(2)] join_comment_def split: option.splits)
  show ?case
  proof (cases "ps = []")
    case True
    then show ?thesis using step w(3) raw l80 by (simp add: sub_def cm_def)
  next
    case False
    have "length r = length ps * CARD_SIZE \<and>
      parse_cards (position + 1) (as_chunks CARD_SIZE (r @ rest)) (with_records h (rs @ [with_text ld ((acc @ piece) @ ''&'') None]))
      = parse_cards (position + 1 + length ps) (as_chunks CARD_SIZE rest)
          (with_records h (rs @ [with_text ld ((acc @ piece) @ concat ps) comment]))"
      using Cons.prems False by (intro Cons.IH [OF w(3)]) simp_all
    then show ?thesis using step raw l80 False by (simp add: sub_def cm_def)
  qed
qed simp

text \<open>The whole chain.\<close>

lemma push_with_records: "push_record h r = with_records (push_record h r) (h_records h @ [r])"
  by (simp add: with_records_def push_record_def insert_at_def insert_nth_def)

definition lead_text :: "lead \<Rightarrow> string" where
  "lead_text ld = (case ld of
     LeadKeyword k \<Rightarrow> valued_lead k @ blanks 1
   | LeadHierarch n \<Rightarrow> ''HIERARCH '' @ n @ blanks 1 @ ''= ''
   | LeadCommentary _ \<Rightarrow> [])"

definition piece_line :: "lead \<Rightarrow> string \<Rightarrow> string list \<Rightarrow> string option \<Rightarrow> string" where
  "piece_line ld piece later comment =
     lead_text ld @ quoted piece (if later = [] then [CHR 0x27] else [CHR ''&'', CHR 0x27])
       @ comment_part (if later = [] then comment else None)"

lemma chain_shape:
  assumes "chain_records ld comment True (piece # ps) = Inr raw" and ld: "valued_lead_ok ld"
  obtains r where "raw = as_bytes (line (piece_line ld piece ps comment)) @ r" and "chain_records ld comment False ps = Inr r"
    and "length (piece_line ld piece ps comment) \<le> CARD_SIZE"
proof -
  obtain b pos b1 pos1 b2 pos2 r where w: "chain_first ld = Inr (b, pos)" "write_piece b pos piece (ps = []) = Inr (b1, pos1)"
    "(if ps = [] then attempt (write_comment_at b1 pos1 comment) else Inr (b1, pos1)) = Inr (b2, pos2)"
    "chain_records ld comment False ps = Inr r" and raw: "raw = buf_bytes b2 @ r"
    using assms(1) by (auto simp: bind_eq_Inr attempt_eq_Inr)
  obtain p where p: "buf_line b p" "pos = length p" "p = lead_text ld"
    using first_start [OF ld w(1)] unfolding lead_text_def by (metis (no_types, lifting) lead.exhaust lead.simps(10-12))
  have "buf_line b2 (p @ piece_text piece (ps = []) comment)"
    by (rule chain_record_line [OF p(1) w(2) [unfolded p(2)] w(3)])
  moreover have "p @ piece_text piece (ps = []) comment = piece_line ld piece ps comment"
    by (simp add: piece_text_def piece_line_def p(3) comment_part_def)
  ultimately have "buf_line b2 (piece_line ld piece ps comment)" by simp
  note bl = buf_line_bytes [OF this, THEN conjunct1] buf_line_bytes [OF this, THEN conjunct2]
  show ?thesis using that [OF raw [unfolded bl(1)] w(4) bl(2)] .
qed

lemma chain_shape_parse:
  assumes len: "length (piece_line ld piece ps comment) \<le> CARD_SIZE" and r: "chain_records ld comment False ps = Inr r"
    and ld: "valued_lead_ok ld" and c: "comment_ok comment"
    and pr: "list_all (list_all is_printable) (piece # ps)" and lastk: "keep_one_blank (last (piece # ps)) = last (piece # ps)"
  shows "length (as_bytes (line (piece_line ld piece ps comment)) @ r) = (length ps + 1) * CARD_SIZE \<and>
    parse_cards position (as_chunks CARD_SIZE ((as_bytes (line (piece_line ld piece ps comment)) @ r) @ rest)) h
    = parse_cards (position + (length ps + 1)) (as_chunks CARD_SIZE rest) (push_record h (with_text ld (concat (piece # ps)) comment))"
proof -
  define cm where "cm = (if ps = [] then comment else None)"
  define tok where "tok = quoted piece (if ps = [] then [CHR 0x27] else [CHR ''&'', CHR 0x27])"
  define b where "b = as_bytes (line (piece_line ld piece ps comment))"
  have pl: "piece_line ld piece ps comment = lead_text ld @ tok @ comment_part cm"
    by (simp add: piece_line_def tok_def cm_def)
  have cmok: "comment_ok cm" using c by (simp add: cm_def comment_ok_def)
  define sub where "sub = (if ps = [] then piece else piece @ ''&'')"
  have pp: "list_all is_printable piece" using pr by simp
  have tok: "token_for (VText sub) tok"
    using piece_token [OF pp] last_piece_token [OF pp] lastk by (cases "ps = []") (simp_all add: sub_def tok_def)
  have lt: "lead_text ld = (case ld of LeadKeyword k \<Rightarrow> valued_lead k @ blanks 1 | LeadHierarch n \<Rightarrow> ''HIERARCH '' @ n @ blanks 1 @ ''= '' | _ \<Rightarrow> [])"
    by (simp add: lead_text_def)
  have card: "card_parse b = Inr (ParsedRecord (with_text ld sub cm), [])"
    unfolding b_def pl by (rule parse_first_line [OF ld tok cmok lt len [unfolded pl]])
  have l80: "length b = CARD_SIZE" using length_line [OF len] by (simp add: b_def)
  have step: "parse_cards position (as_chunks CARD_SIZE ((b @ r) @ rest)) h
      = parse_cards (position + 1) (as_chunks CARD_SIZE (r @ rest)) (push_record h (with_text ld sub cm))"
    unfolding append_assoc as_chunks_card [OF l80] by (simp add: card repairs_at_def)
  show ?thesis
  proof (cases "ps = []")
    case True
    then have "r = []" using r by simp
    then show ?thesis unfolding b_def [symmetric] using step l80 True by (simp add: cm_def sub_def)
  next
    case False
    define h1 where "h1 = push_record h (with_text ld sub cm)"
    have h1: "h1 = with_records h1 (h_records h @ [with_text ld (piece @ ''&'') None])"
      unfolding h1_def using push_with_records [of h "with_text ld sub cm"] False by (simp add: sub_def cm_def)
    have "length r = length ps * CARD_SIZE \<and>
      parse_cards (position + 1) (as_chunks CARD_SIZE (r @ rest)) (with_records h1 (h_records h @ [with_text ld (piece @ ''&'') None]))
      = parse_cards (position + 1 + length ps) (as_chunks CARD_SIZE rest)
          (with_records h1 (h_records h @ [with_text ld (piece @ concat ps) comment]))"
      using pr lastk False by (intro chain_later_parse [OF r ld c]) simp_all
    moreover have "with_records h1 (h_records h @ [with_text ld (piece @ concat ps) comment])
        = push_record h (with_text ld (piece @ concat ps) comment)"
      unfolding h1_def with_records_def
      by (subst push_record_same_keys) (auto intro: with_text_keys [OF ld])
    ultimately show ?thesis unfolding b_def [symmetric] using step l80 by (simp add: h1_def [symmetric] h1 [symmetric])
  qed
qed

lemma chain_parse:
  assumes "chain_render ls = Inr raw" and ld: "valued_lead_ok (ls_lead ls)" and c: "comment_ok (ls_comment ls)"
    and pr: "list_all is_printable (ls_text ls)" and keep: "keep_one_blank (ls_text ls) = ls_text ls"
  shows "\<exists>n. length raw = n * CARD_SIZE \<and>
    parse_cards position (as_chunks CARD_SIZE (raw @ rest)) h
    = parse_cards (position + n) (as_chunks CARD_SIZE rest) (push_record h (with_text (ls_lead ls) (ls_text ls) (ls_comment ls)))"
proof -
  obtain own where own: "chain_records (ls_lead ls) (ls_comment ls) True (pieces ls @ (if own then [[]] else [])) = Inr raw"
    using assms(1) by (auto simp: chain_render_def bind_eq_Inr attempt_eq_Inr)
  define all where "all = pieces ls @ (if own then [[]] else [])"
  obtain piece ps where all: "all = piece # ps" by (cases all) (auto simp: all_def pieces_def Let_def)
  have cat: "concat all = ls_text ls" by (simp add: all_def concat_pieces)
  have prs: "list_all (list_all is_printable) all"
    using pr unfolding cat [symmetric] by (induction all) auto
  have lastk: "keep_one_blank (last all) = last all"
    using pieces_suffix [of all] all cat keep keep_one_blank_suffix by (metis list.distinct(1))
  obtain r where r: "raw = as_bytes (line (piece_line (ls_lead ls) piece ps (ls_comment ls))) @ r"
    "chain_records (ls_lead ls) (ls_comment ls) False ps = Inr r"
    "length (piece_line (ls_lead ls) piece ps (ls_comment ls)) \<le> CARD_SIZE"
    using chain_shape [OF own [folded all_def, unfolded all] ld] .
  have "list_all (list_all is_printable) (piece # ps)" "keep_one_blank (last (piece # ps)) = last (piece # ps)"
    "concat (piece # ps) = ls_text ls"
    using prs lastk cat unfolding all .
  then show ?thesis
    using chain_shape_parse [OF r(3,2) ld c, of position rest h] unfolding r(1) by (intro exI [of _ "length ps + 1"]) simp
qed

end
