(* ===== verification/Header_Roundtrip.thy ===== *)
theory Header_Roundtrip
  imports Chain_Roundtrip Header_Index
begin

text \<open>
  A rendered header reads back: the records of every kind, each in its canonical form, the blank records
  before \<^verbatim>\<open>END\<close> and the fill after it.
\<close>

section \<open>One record\<close>

text \<open>The canonical form of a record: the names and values that a parse gives, and a commentary record that the
  code's own check accepts.\<close>

fun record_ok :: "header_record \<Rightarrow> bool" where
  "record_ok (Valued k v c) \<longleftrightarrow> admits KeywordRule k \<and> value_ok v \<and> comment_ok c"
| "record_ok (Hierarch n v c) \<longleftrightarrow> hierarch_ok n \<and> value_ok v \<and> comment_ok c"
| "record_ok (Commentary n t) \<longleftrightarrow> is_ascii n \<and> length n \<le> 8 \<and> card_validate (Commentary n t) = Inr ()"
| "record_ok (Malformed n raw d) \<longleftrightarrow> False"

text \<open>What a record's bytes do to a parse: after so many cards the record is pushed, without a repair.\<close>

definition parses_as :: "bytes \<Rightarrow> header_record \<Rightarrow> bool" where
  "parses_as raw r \<longleftrightarrow> (\<forall>position rest h. \<exists>n. length raw = n * CARD_SIZE \<and>
     parse_cards position (as_chunks CARD_SIZE (raw @ rest)) h
     = parse_cards (position + n) (as_chunks CARD_SIZE rest) (push_record h r))"

lemma card_parses_as:
  assumes "length raw = CARD_SIZE" and "card_parse raw = Inr (ParsedRecord r, [])"
  shows "parses_as raw r"
  unfolding parses_as_def using assms as_chunks_card [OF assms(1)] by (auto intro!: exI [of _ 1] simp: repairs_at_def)

lemma chain_parses_as:
  assumes "chain_render ls = Inr raw" and "valued_lead_ok (ls_lead ls)" and "comment_ok (ls_comment ls)"
    and "list_all is_printable (ls_text ls)" and "keep_one_blank (ls_text ls) = ls_text ls"
  shows "parses_as raw (with_text (ls_lead ls) (ls_text ls) (ls_comment ls))"
  unfolding parses_as_def using chain_parse [OF assms] by blast

lemma long_text_parts: "long_text ld t c = Some ls \<Longrightarrow> ls_lead ls = ld \<and> ls_text ls = t \<and> ls_comment ls = c"
  by (auto simp: long_text_def Let_def split: if_split_asm)

text \<open>A commentary record parses without a repair, as its bytes are ASCII.\<close>

lemma commentary_repairs:
  assumes "card_parse (as_bytes t) = Inr (ParsedRecord (Commentary n x), kinds)" and "is_ascii t"
  shows "kinds = []"
proof -
  have pc: "kinds = []" if "parse_commentary (as_bytes t) name = (ParsedRecord (Commentary n x), kinds)" for name
    using that assms(2) by (simp add: parse_commentary_def)
  have pcont: "kinds = []" if "parse_continue (as_bytes t) = (ParsedRecord (Commentary n x), kinds)"
    using that pc unfolding parse_continue_def malformed_def Let_def by (auto split: if_split_asm option.split_asm)
  have ph: False if "parse_hierarch raw at = Inr (ParsedRecord (Commentary n x), kinds)" for raw at
    using that unfolding parse_hierarch_def malformed_def Let_def
    by (auto simp: bind_eq_Inr split: if_split_asm option.split_asm sum.split_asm)
  have pv: False if "parse_valued raw at = Inr (ParsedRecord (Commentary n x), kinds)" for raw at
    using that unfolding parse_valued_def malformed_def Let_def
    by (auto simp: bind_eq_Inr split: if_split_asm option.split_asm sum.split_asm)
  show ?thesis
    using assms(1) pc pcont unfolding card_parse_def malformed_def Let_def
    by (auto split: if_split_asm option.split_asm sum.split_asm dest: ph pv)
qed

lemma commentary_line:
  assumes "is_ascii n" and "length n \<le> 8" and "render_one (Commentary n t) = Inr raw"
    and "validate_contents (Commentary n t) = Inr ()"
  obtains p where "raw = as_bytes (line p)" and "length p \<le> CARD_SIZE" and "is_ascii p"
proof -
  have l8: "buf_line (buf_new (LeadCommentary n)) n"
    unfolding buf_new.simps by (rule buf_named_line) (use assms(2) in \<open>simp add: CARD_SIZE_def\<close>)
  show ?thesis
  proof (cases t)
    case None
    then show ?thesis using that [of n] assms l8 by (simp add: buf_line_def)
  next
    case (Some x)
    let ?p = "n @ blanks (8 - length n)"
    obtain b pos where w: "write_str_at (buf_new (LeadCommentary n)) 8 x = Inr (b, pos)" "raw = buf_bytes b"
      using assms(3) Some by (auto simp: Let_def bind_eq_Inr attempt_eq_Inr)
    have l: "buf_line (buf_new (LeadCommentary n)) ?p" "length ?p = 8"
      using buf_line_blanks [OF l8, of "8 - length n"] assms(2) by (simp_all add: CARD_SIZE_def)
    have w8: "write_str_at (buf_new (LeadCommentary n)) (length ?p) x = Inr (b, pos)" using w(1) unfolding l(2) .
    have "list_all is_printable x"
      using assms(4) Some by (auto simp: validate_comment_def validate_ascii_def split: if_split_asm)
    then have "is_ascii (?p @ x)" using assms(1) is_ascii_printable by simp
    moreover have "buf_line b (?p @ x)" using write_str_line [OF l(1) w8] by simp
    ultimately show ?thesis using that [of "?p @ x"] w(2) by (simp add: buf_line_def)
  qed
qed

lemma record_parses_as:
  assumes ok: "record_ok r" and raw: "record_render r = Inr raw"
  shows "parses_as raw r"
proof -
  have valid: "validate_contents r = Inr ()" using raw by (auto simp: record_render_def bind_eq_Inr attempt_eq_Inr)
  show ?thesis
  proof (cases r)
    case (Valued k v c)
    show ?thesis
    proof (cases "continuation_chain r")
      case None
      then show ?thesis using valued_parses [of k v c raw] ok raw Valued by (intro card_parses_as) simp_all
    next
      case (Some ls)
      then obtain t where t: "v = VText t" using Valued by (cases v) auto
      note ls = long_text_parts [OF Some [unfolded Valued t continuation_chain.simps]]
      have "chain_render ls = Inr raw" using raw Some by (auto simp: record_render_def bind_eq_Inr)
      moreover have "valued_lead_ok (ls_lead ls)"
        using ok valid Valued ls by (auto simp: valued_lead_ok_def bind_eq_Inr)
      ultimately show ?thesis using chain_parses_as [of ls raw] ok ls Valued t by simp
    qed
  next
    case (Hierarch n v c)
    show ?thesis
    proof (cases "continuation_chain r")
      case None
      then show ?thesis using hierarch_parses [of n v c raw] ok raw Hierarch by (intro card_parses_as) simp_all
    next
      case (Some ls)
      then obtain t where t: "v = VText t" using Hierarch by (cases v) auto
      note ls = long_text_parts [OF Some [unfolded Hierarch t continuation_chain.simps]]
      have "chain_render ls = Inr raw" using raw Some by (auto simp: record_render_def bind_eq_Inr)
      moreover have "valued_lead_ok (ls_lead ls)" using ok Hierarch ls by (simp add: valued_lead_ok_def)
      ultimately show ?thesis using chain_parses_as [of ls raw] ok ls Hierarch t by simp
    qed
  next
    case (Commentary n t)
    have one: "render_one r = Inr raw" using raw Commentary by (auto simp: record_render_def bind_eq_Inr)
    obtain p where p: "raw = as_bytes (line p)" "length p \<le> CARD_SIZE" "is_ascii p"
      using commentary_line ok one valid unfolding Commentary record_ok.simps by metis
    obtain kinds where "card_parse raw = Inr (ParsedRecord r, kinds)"
      using ok one unfolding Commentary record_ok.simps card_validate_def
      by (auto simp: bind_eq_Inr attempt_eq_Inr split: if_split_asm simp del: render_one.simps)
    then show ?thesis
      using commentary_repairs [of "line p" n t kinds] p Commentary by (intro card_parses_as) simp_all
  qed (use ok in simp)
qed

section \<open>All records\<close>

lemma parse_pushes:
  assumes "list_all2 parses_as raws rs"
  shows "\<exists>n. length (concat raws) = n * CARD_SIZE \<and>
    parse_cards position (as_chunks CARD_SIZE (concat raws @ rest)) h
    = parse_cards (position + n) (as_chunks CARD_SIZE rest) (foldl push_record h rs)"
  using assms
proof (induction raws rs arbitrary: position h rule: list_all2_induct)
  case Nil
  then show ?case by (intro exI [of _ 0]) simp
next
  case (Cons raw raws r rs)
  obtain n where n: "length raw = n * CARD_SIZE"
    "parse_cards position (as_chunks CARD_SIZE (raw @ concat raws @ rest)) h
      = parse_cards (position + n) (as_chunks CARD_SIZE (concat raws @ rest)) (push_record h r)"
    using Cons.hyps unfolding parses_as_def by blast
  obtain m where m: "length (concat raws) = m * CARD_SIZE"
    "parse_cards (position + n) (as_chunks CARD_SIZE (concat raws @ rest)) (push_record h r)
      = parse_cards (position + n + m) (as_chunks CARD_SIZE rest) (foldl push_record (push_record h r) rs)"
    using Cons.IH by blast
  show ?case using n m by (intro exI [of _ "n + m"]) (simp add: add_mult_distrib add.assoc [symmetric])
qed

lemma blank_card_parses: "parses_as (replicate CARD_SIZE blank_byte) (Commentary [] None)"
proof (rule card_parses_as)
  show "card_parse (replicate CARD_SIZE blank_byte) = Inr (ParsedRecord (Commentary [] None), [])"
    by code_simp
qed simp

lemma end_record_parse: "card_parse end_record = Inr (ParsedEnd, [])" and length_end_record: "length end_record = CARD_SIZE"
  by code_simp+

lemma concat_blank_cards: "concat (replicate n (replicate CARD_SIZE blank_byte)) = replicate (n * CARD_SIZE) blank_byte"
  by (induction n) (simp_all add: replicate_add)

lemma foldl_push_records: "h_records (foldl push_record h rs) = h_records h @ rs"
  by (induction rs arbitrary: h) (simp_all add: push_record_records)

lemma foldl_push_inv: "header_inv h \<Longrightarrow> header_inv (foldl push_record h rs)"
  by (induction rs arbitrary: h) (simp_all add: inv_push_record)

lemma foldl_push_repairs: "h_repairs (foldl push_record h rs) = h_repairs h"
  by (induction rs arbitrary: h) (simp_all add: push_record_def insert_at_def)

lemma drop_blank_append: "drop_blank_records (rs @ replicate n (Commentary [] None)) = drop_blank_records rs"
proof -
  have "dropWhile (\<lambda>r. r = Commentary [] None) (replicate n (Commentary [] None) @ xs) = dropWhile (\<lambda>r. r = Commentary [] None) xs" for xs
    by (induction n) simp_all
  then show ?thesis by (simp add: drop_blank_records_def)
qed

text \<open>A header whose indexes are those of its records.\<close>

definition header_of :: "header_record list \<Rightarrow> header" where
  "header_of rs = \<lparr>h_records = rs, h_index = first_pos record_keyword rs, h_hindex = first_pos record_hkey rs, h_repairs = []\<rparr>"

lemma header_of_unique: "header_inv h \<Longrightarrow> h_repairs h = [] \<Longrightarrow> h = header_of (h_records h)"
  by (simp add: header_inv_def header_of_def)

lemma parse_unit:
  assumes "list_all2 parses_as raws rs"
  shows "header_parse (fill_unit (concat raws) spare) = Inr (header_of (drop_blank_records rs))"
proof -
  define fill where "fill = replicate (next_multiple (length (concat raws @ replicate (spare * CARD_SIZE) blank_byte @ end_record)) BLOCK_SIZE
    - length (concat raws @ replicate (spare * CARD_SIZE) blank_byte @ end_record)) blank_byte"
  have unit: "fill_unit (concat raws) spare
      = concat (raws @ replicate spare (replicate CARD_SIZE blank_byte)) @ end_record @ fill"
    by (simp add: fill_unit_def Let_def concat_blank_cards fill_def)
  have all: "list_all2 parses_as (raws @ replicate spare (replicate CARD_SIZE blank_byte)) (rs @ replicate spare (Commentary [] None))"
    using assms blank_card_parses by (intro list_all2_appendI) (simp_all add: list_all2_conv_all_nth)
  define h where "h = foldl push_record header_new (rs @ replicate spare (Commentary [] None))"
  have "header_inv h" unfolding h_def by (rule foldl_push_inv [OF inv_new])
  then have h: "h_records h = rs @ replicate spare (Commentary [] None)" "header_inv h" "h_repairs h = []"
    by (simp_all add: h_def foldl_push_records foldl_push_repairs del: foldl_append) (simp_all add: header_new_def)
  define h' where "h' = h\<lparr>h_records := drop_blank_records (h_records h)\<rparr>"
  have "header_inv h'" unfolding h'_def by (rule inv_drop_blank_records [OF h(2)])
  then have "h' = header_of (drop_blank_records rs)"
    using header_of_unique [of h'] h by (simp add: h'_def drop_blank_append)
  moreover obtain n where "header_parse (fill_unit (concat raws) spare)
      = parse_cards n (as_chunks CARD_SIZE (end_record @ fill)) h"
    unfolding header_parse_def unit h_def using parse_pushes [OF all] by (metis (no_types))
  moreover have "h\<lparr>h_repairs := [], h_records := rs'\<rparr> = h\<lparr>h_records := rs'\<rparr>" for rs'
    using h(3) by (cases h) simp
  ultimately show ?thesis
    using h by (simp add: as_chunks_card [OF length_end_record] end_record_parse repairs_at_def h'_def)
qed

section \<open>An unsigned render\<close>

lemma render_each_unsigned:
  "render_each Unsigned sums i rs st = Inr st'
    \<Longrightarrow> \<exists>raws. list_all2 (\<lambda>raw r. record_render r = Inr raw) raws rs \<and> fst st' = fst st @ concat raws"
proof (induction rs arbitrary: i st)
  case (Cons r rs)
  obtain raw where raw: "record_render r = Inr raw" and rest: "render_each Unsigned sums (i + 1) rs (fst st @ raw, snd st) = Inr st'"
    using Cons.prems by (cases "record_keyword r") (auto simp: bind_eq_Inr)
  from Cons.IH [OF rest] obtain raws where "list_all2 (\<lambda>raw r. record_render r = Inr raw) raws rs" "fst st' = (fst st @ raw) @ concat raws"
    by auto
  then show ?case using raw by (intro exI [of _ "raw # raws"]) simp
qed simp

lemma renders_parse:
  assumes "list_all2 (\<lambda>raw r. record_render r = Inr raw) raws rs" and "list_all record_ok rs"
  shows "list_all2 parses_as raws rs"
  using assms by (induction raws rs rule: list_all2_induct) (auto intro: record_parses_as)

lemma unsigned_roundtrip:
  assumes "header_inv h" and "h_repairs h = []" and "list_all record_ok (h_records h)"
    and "header_render h Unsigned space = Inr bs"
  shows "header_parse bs = Inr (h\<lparr>h_records := drop_blank_records (h_records h)\<rparr>)"
proof -
  obtain out at spare where out: "render_records h Unsigned = Inr (out, at)" "bs = fill_unit out spare"
    using assms(4) by (auto simp: header_render_def bind_eq_Inr Let_def sign_unit_def split: if_split_asm)
  then obtain st where "render_each Unsigned {h_index h ''DATASUM'', h_index h ''CHECKSUM''} 0 (h_records h) ([], None) = Inr st"
    "fst st = out" by (auto simp: render_records_def Let_def bind_eq_Inr)
  from render_each_unsigned [OF this(1)] this(2)
  obtain raws where raws: "list_all2 (\<lambda>raw r. record_render r = Inr raw) raws (h_records h)" "out = concat raws" by auto
  have "header_parse bs = Inr (header_of (drop_blank_records (h_records h)))"
    unfolding out(2) raws(2) by (rule parse_unit [OF renders_parse [OF raws(1) assms(3)]])
  moreover have "header_inv (h\<lparr>h_records := drop_blank_records (h_records h)\<rparr>)"
    by (rule inv_drop_blank_records [OF assms(1)])
  ultimately show ?thesis using header_of_unique [of "h\<lparr>h_records := drop_blank_records (h_records h)\<rparr>"] assms(2) by simp
qed

text \<open>A render of records that fit a buffer succeeds.\<close>

lemma header_render_fits:
  assumes "render_records h signing = Inr (out, at)" and "length out + spare * CARD_SIZE \<le> 2 ^ 62"
  shows "header_render h signing (Spare spare) = Inr (sign_unit signing at (fill_unit out spare))"
proof -
  let ?n = "length out div CARD_SIZE"
  have "?n * CARD_SIZE \<le> length out" by (rule div_times_less_eq_dividend)
  then have b: "(?n + spare + 1) * CARD_SIZE \<le> 2 ^ 62 + CARD_SIZE" using assms(2) unfolding add_mult_distrib by linarith
  then have "?n + spare + 1 \<le> 2 ^ 62 + CARD_SIZE" by (simp add: CARD_SIZE_def)
  then have c: "checked_header_len ?n spare = Some ((?n + spare + 1) * CARD_SIZE)"
    using b by (simp add: checked_header_len_def checked_add_def checked_mul_def usize_max_def CARD_SIZE_def)
  have "next_multiple ((?n + spare + 1) * CARD_SIZE) BLOCK_SIZE \<le> (?n + spare + 1) * CARD_SIZE + BLOCK_SIZE - 1"
    unfolding next_multiple_def by (rule div_times_less_eq_dividend)
  then have "int (next_multiple ((?n + spare + 1) * CARD_SIZE) BLOCK_SIZE) \<le> i64_max"
    using b by (simp add: BLOCK_SIZE_def CARD_SIZE_def i64_max_def)
  then show ?thesis by (simp add: header_render_def assms(1) spare_records_def c)
qed

text \<open>C5: A header whose records are all in canonical form, rendered without signing into any space, parses back
  to the header, its indexes included and without a repair, but for the blank records at its end, which are
  left out. A string longer than its record comes back whole from its \<^verbatim>\<open>CONTINUE\<close> records.\<close>

theorem header_roundtrip:
  assumes "header_inv h" and "h_repairs h = []" and "list_all record_ok (h_records h)"
    and "header_render h Unsigned space = Inr bs"
  shows "header_parse bs = Inr (h\<lparr>h_records := drop_blank_records (h_records h)\<rparr>)"
  using assms by (rule unsigned_roundtrip)

definition sample_header :: header where
  "sample_header = header_of
     [Valued ''SIMPLE'' (VLogical True) (Some ''standard''),
      Valued ''ORIGIN'' (VText (replicate 70 (CHR ''a'') @ [CHR 0x27, CHR ''b''])) (Some ''long''),
      Hierarch ''ESO DET NAME'' (VText ''CCD 1'') None, Commentary ''HISTORY'' (Some ''made''), Commentary [] None]"

lemma header_roundtrip_witness:
  "header_parse (projr (header_render sample_header Unsigned (Spare 2)))
    = Inr (sample_header\<lparr>h_records := drop_blank_records (h_records sample_header)\<rparr>)"
proof (rule header_roundtrip)
  show "header_inv sample_header" "h_repairs sample_header = []"
    by (simp_all add: sample_header_def header_inv_def header_of_def)
  show "list_all record_ok (h_records sample_header)"
    by code_simp
  have "case render_records sample_header Unsigned of Inr (out, _) \<Rightarrow> length out \<le> 1000 | Inl _ \<Rightarrow> False" by code_simp
  then obtain out at where "render_records sample_header Unsigned = Inr (out, at)" "length out \<le> 1000"
    by (auto split: sum.split_asm)
  then show "header_render sample_header Unsigned (Spare 2) = Inr (projr (header_render sample_header Unsigned (Spare 2)))"
    using header_render_fits [of sample_header Unsigned out at 2] by (simp add: CARD_SIZE_def)
qed

end
