(* ===== verification/Checksum_Report.thy ===== *)
theory Checksum_Report
  imports Header_Model
begin

text \<open>
  What a header declares of its \<^verbatim>\<open>DATASUM\<close> and \<^verbatim>\<open>CHECKSUM\<close> and the verdict on its unit: \<^verbatim>\<open>src/checksum/declared.rs\<close>
  and \<^verbatim>\<open>src/checksum/checksum_report.rs\<close>. The data sum that a report may need is a result it looks at only
  when a keyword needs it.
\<close>

datatype checksum_status = StatusAbsent | StatusUnknown | StatusValid | StatusInvalid

record checksum_report =
  cr_datasum :: checksum_status
  cr_checksum :: checksum_status

definition report_is_valid :: "checksum_report \<Rightarrow> bool" where
  "report_is_valid r = (cr_datasum r = StatusValid \<and> cr_checksum r = StatusValid)"

definition report_has_invalid :: "checksum_report \<Rightarrow> bool" where
  "report_has_invalid r = (cr_datasum r = StatusInvalid \<or> cr_checksum r = StatusInvalid)"

datatype sum_declaration = DeclAbsent | DeclUnknown | DeclInvalid | DeclPresent u32

record declared =
  de_datasum :: sum_declaration
  de_checksum :: sum_declaration

fun declaration_status :: "sum_declaration \<Rightarrow> bool \<Rightarrow> checksum_status" where
  "declaration_status DeclAbsent valid = StatusAbsent"
| "declaration_status DeclUnknown valid = StatusUnknown"
| "declaration_status DeclInvalid valid = StatusInvalid"
| "declaration_status (DeclPresent s) valid = (if valid then StatusValid else StatusInvalid)"

definition present_or_invalid :: "u32 option \<Rightarrow> sum_declaration" where
  "present_or_invalid found = (case found of Some s \<Rightarrow> DeclPresent s | None \<Rightarrow> DeclInvalid)"

text \<open>\<^verbatim>\<open>u32::try_from\<close> of an \<^verbatim>\<open>i64\<close>.\<close>

definition u32_from_i64 :: "int \<Rightarrow> u32 option" where
  "u32_from_i64 v = (if 0 \<le> v \<and> v \<le> int u32_max then Some (of_int v) else None)"

definition declaration_read :: "header \<Rightarrow> keyword \<Rightarrow> (string \<Rightarrow> u32 option) \<Rightarrow> sum_declaration run" where
  "declaration_read h keyword parse =
     (case header_get h (KeywordName keyword) of
        Inl Panic \<Rightarrow> Inl Panic
      | Inl (Err _) \<Rightarrow> Inr DeclInvalid
      | Inr None \<Rightarrow> Inr DeclAbsent
      | Inr (Some v) \<Rightarrow> Inr
          (case v of
             VText text \<Rightarrow> if trim text = [] then DeclUnknown else present_or_invalid (parse (trim text))
           | _ \<Rightarrow>
               if keyword = ''DATASUM''
               then present_or_invalid (case as_integer v of Inr (Some i) \<Rightarrow> u32_from_i64 i | _ \<Rightarrow> None)
               else DeclInvalid))"

definition parse_u32 :: "string \<Rightarrow> u32 option" where
  "parse_u32 text = map_option of_nat (parse_unsigned u32_max text)"

definition declared_read :: "header \<Rightarrow> declared run" where
  "declared_read h =
     bind (declaration_read h ''DATASUM'' parse_u32) (\<lambda>datasum.
     bind (declaration_read h ''CHECKSUM'' (\<lambda>_. Some 0)) (\<lambda>checksum.
       Inr \<lparr>de_datasum = datasum, de_checksum = checksum\<rparr>))"

definition has_checksum :: "declared \<Rightarrow> bool" where
  "has_checksum d = (de_checksum d \<noteq> DeclAbsent)"

definition declared_data_sum :: "declared \<Rightarrow> u32 option" where
  "declared_data_sum d = (case de_datasum d of DeclPresent s \<Rightarrow> Some s | _ \<Rightarrow> None)"

fun is_present :: "sum_declaration \<Rightarrow> bool" where
  "is_present (DeclPresent s) = True"
| "is_present _ = False"

definition checksum_verdict :: "declared \<Rightarrow> u32 \<Rightarrow> u32 fits_result \<Rightarrow> checksum_report fits_result" where
  "checksum_verdict d header_sum data_sum =
     bind (if is_present (de_datasum d) \<or> is_present (de_checksum d) then bind data_sum (\<lambda>s. Inr (Some s)) else Inr None) (\<lambda>found.
       Inr \<lparr>cr_datasum = declaration_status (de_datasum d) (declared_data_sum d = found),
            cr_checksum = declaration_status (de_checksum d)
              (case found of Some s \<Rightarrow> combine header_sum s = 0xFFFFFFFF | None \<Rightarrow> False)\<rparr>)"

end
