(* ===== verification/Signed_Header.thy ===== *)
theory Signed_Header
  imports Header_Roundtrip Checksum_Report
begin

text \<open>
  A signed header verifies: the unit that a render writes with a data sum, read back, declares that sum, and its
  \<^verbatim>\<open>CHECKSUM\<close> makes the header and the data sum to negative zero, so that the reader's report is valid.
\<close>

section \<open>The records that a signed render writes\<close>

definition signed_record :: "signing \<Rightarrow> nat option set \<Rightarrow> nat \<Rightarrow> header_record \<Rightarrow> header_record" where
  "signed_record signing sums i r =
     (case record_keyword r of
        Some k \<Rightarrow> if k \<in> {''DATASUM'', ''CHECKSUM''} \<and> signing \<noteq> Unsigned \<and> Some i \<in> sums
                   then Valued k (VText (the (signed_value signing k))) (record_comment r) else r
      | None \<Rightarrow> r)"

fun signed_list :: "signing \<Rightarrow> nat option set \<Rightarrow> nat \<Rightarrow> header_record list \<Rightarrow> header_record list" where
  "signed_list signing sums i [] = []"
| "signed_list signing sums i (r # rs) = signed_record signing sums i r # signed_list signing sums (i + 1) rs"

lemma length_signed_list [simp]: "length (signed_list signing sums i rs) = length rs"
  by (induction rs arbitrary: i) simp_all

lemma nth_signed_list: "j < length rs \<Longrightarrow> signed_list signing sums i rs ! j = signed_record signing sums (i + j) (rs ! j)"
proof (induction rs arbitrary: i j)
  case (Cons r rs)
  then show ?case by (cases j) simp_all
qed simp

lemma signed_record_keyword: "record_keyword (signed_record signing sums i r) = record_keyword r"
  by (simp add: signed_record_def split: option.splits)

definition signs_checksum :: "nat option set \<Rightarrow> nat \<Rightarrow> header_record \<Rightarrow> bool" where
  "signs_checksum sums i r \<longleftrightarrow> record_keyword r = Some ''CHECKSUM'' \<and> Some i \<in> sums"

abbreviation renders :: "bytes list \<Rightarrow> header_record list \<Rightarrow> bool" where
  "renders raws rs \<equiv> list_all2 (\<lambda>raw r. record_render r = Inr raw) raws rs"

lemma render_signed_eq:
  assumes "render_signed signing k c st = Inr st'"
  shows "\<exists>raw. record_render (Valued k (VText (the (signed_value signing k))) c) = Inr raw
    \<and> st' = (fst st @ raw, if k = ''CHECKSUM'' then Some (length (fst st)) else snd st)"
  using assms by (auto simp: render_signed_def bind_eq_Inr split: option.split_asm)

lemma render_one_signed:
  assumes "(case record_keyword r of
             Some keyword \<Rightarrow>
               if keyword \<in> {''DATASUM'', ''CHECKSUM''} \<and> signing \<noteq> Unsigned \<and> Some i \<in> sums
               then render_signed signing keyword (record_comment r) st
               else bind (record_render r) (\<lambda>bs. Inr (fst st @ bs, snd st))
           | None \<Rightarrow> bind (record_render r) (\<lambda>bs. Inr (fst st @ bs, snd st))) = Inr st'"
    and "signing \<noteq> Unsigned"
  shows "\<exists>raw. record_render (signed_record signing sums i r) = Inr raw \<and> fst st' = fst st @ raw
    \<and> snd st' = (if signs_checksum sums i r then Some (length (fst st)) else snd st)"
proof (cases "record_keyword r")
  case None
  then show ?thesis using assms by (auto simp: bind_eq_Inr signed_record_def signs_checksum_def)
next
  case (Some k)
  show ?thesis
  proof (cases "k \<in> {''DATASUM'', ''CHECKSUM''} \<and> Some i \<in> sums")
    case True
    then have "render_signed signing k (record_comment r) st = Inr st'" using assms Some by simp
    from render_signed_eq [OF this] show ?thesis
      using True Some assms(2) by (auto simp: signed_record_def signs_checksum_def)
  next
    case False
    then have "bind (record_render r) (\<lambda>bs. Inr (fst st @ bs, snd st)) = Inr st'" using assms Some by auto
    moreover have "signed_record signing sums i r = r" "\<not> signs_checksum sums i r"
      using False Some by (auto simp: signed_record_def signs_checksum_def)
    ultimately show ?thesis by (auto simp: bind_eq_Inr)
  qed
qed

lemma render_each_signed:
  assumes "render_each signing sums i rs st = Inr st'" and "signing \<noteq> Unsigned"
  shows "\<exists>raws. renders raws (signed_list signing sums i rs) \<and> fst st' = fst st @ concat raws
    \<and> (snd st' = snd st \<and> (\<forall>j < length rs. \<not> signs_checksum sums (i + j) (rs ! j))
       \<or> (\<exists>j < length rs. signs_checksum sums (i + j) (rs ! j) \<and> snd st' = Some (length (fst st) + length (concat (take j raws)))))"
  using assms(1)
proof (induction rs arbitrary: i st)
  case Nil
  then show ?case by (intro exI [of _ "[]"]) simp
next
  case (Cons r rs)
  obtain st1 where st1: "render_each signing sums i [r] st = Inr st1" "render_each signing sums (i + 1) rs st1 = Inr st'"
    using Cons.prems by (auto simp: bind_eq_Inr)
  obtain raw where raw: "record_render (signed_record signing sums i r) = Inr raw" "fst st1 = fst st @ raw"
    "snd st1 = (if signs_checksum sums i r then Some (length (fst st)) else snd st)"
    using render_one_signed [where r = r and i = i and sums = sums and st = st and st' = st1 and signing = signing, OF _ assms(2)] st1(1)
    by (auto simp: bind_eq_Inr)
  obtain raws where raws: "renders raws (signed_list signing sums (i + 1) rs)" "fst st' = fst st1 @ concat raws"
    and at: "snd st' = snd st1 \<and> (\<forall>j < length rs. \<not> signs_checksum sums (i + 1 + j) (rs ! j))
       \<or> (\<exists>j < length rs. signs_checksum sums (i + 1 + j) (rs ! j) \<and> snd st' = Some (length (fst st1) + length (concat (take j raws))))"
    using Cons.IH [OF st1(2)] by blast
  have 1: "renders (raw # raws) (signed_list signing sums i (r # rs))" "fst st' = fst st @ concat (raw # raws)"
    using raw raws by simp_all
  from at show ?case
  proof
    assume a: "snd st' = snd st1 \<and> (\<forall>j < length rs. \<not> signs_checksum sums (i + 1 + j) (rs ! j))"
    show ?case
    proof (cases "signs_checksum sums i r")
      case True
      then show ?thesis using 1 a raw(3) by (intro exI [of _ "raw # raws"]) (auto intro!: exI [of _ 0])
    next
      case False
      have "\<not> signs_checksum sums (i + j) ((r # rs) ! j)" if "j < length (r # rs)" for j
        using that a False by (cases j) auto
      then show ?thesis using 1 a raw(3) False by (intro exI [of _ "raw # raws"]) simp
    qed
  next
    assume "\<exists>j < length rs. signs_checksum sums (i + 1 + j) (rs ! j) \<and> snd st' = Some (length (fst st1) + length (concat (take j raws)))"
    then obtain j where "j < length rs" "signs_checksum sums (i + 1 + j) (rs ! j)"
      "snd st' = Some (length (fst st1) + length (concat (take j raws)))" by blast
    then show ?case using 1 raw(2) by (intro exI [of _ "raw # raws"]) (auto intro!: exI [of _ "Suc j"])
  qed
qed

section \<open>The sum written over its placeholder\<close>

definition plain_text :: "string \<Rightarrow> bool" where
  "plain_text t \<longleftrightarrow> length t = 16 \<and> list_all is_printable t \<and> CHR 0x27 \<notin> set t \<and> CHR '' '' \<notin> set t"

lemma escape_plain: "CHR 0x27 \<notin> set t \<Longrightarrow> escape t = t"
  by (induction t) auto

lemma escaped_len_plain: "CHR 0x27 \<notin> set t \<Longrightarrow> escaped_len t = length t"
  by (auto simp: escaped_len_def filter_empty_conv)

lemma plain_quoted: "plain_text t \<Longrightarrow> quoted t x = CHR 0x27 # t @ x"
  by (simp add: quoted_def plain_text_def escape_plain)

lemma plain_value_text: "plain_text t \<Longrightarrow> value_text (VText t) = CHR 0x27 # t @ [CHR 0x27]"
  using plain_quoted [of t "[]"] escaped_len_plain [of t] by (auto simp: plain_text_def)

lemma plain_keep: "plain_text t \<Longrightarrow> keep_one_blank t = t"
  unfolding keep_one_blank_iff plain_text_def by (metis last_in_set list.size(3) zero_neq_numeral)

lemma plain_placeholder: "plain_text PLACEHOLDER"
  by code_simp

lemma overwrite_middle: "length a = at \<Longrightarrow> length t = length u \<Longrightarrow> overwrite (a @ u @ b) at t = a @ t @ b"
  by (simp add: overwrite_def)

lemma overwrite_append: "at + length t \<le> length a \<Longrightarrow> overwrite (a @ r) at t = overwrite a at t @ r"
  by (simp add: overwrite_def)

lemma line_replaced:
  assumes "length a = at" and "length t = length u"
  shows "overwrite (line (a @ u @ b)) at t = line (a @ t @ b)"
  using overwrite_middle [OF assms] assms by (simp add: line_def)

lemma placeholder_as_bytes: "as_bytes PLACEHOLDER = placeholder_bytes"
  by code_simp

lemma line_placeholder:
  assumes "length a = 11" and "length (a @ PLACEHOLDER @ b) \<le> CARD_SIZE"
  shows "take 16 (drop 11 (as_bytes (line (a @ PLACEHOLDER @ b)) @ r)) = placeholder_bytes
    \<and> 27 \<le> length (as_bytes (line (a @ PLACEHOLDER @ b)) @ r)"
proof -
  have "length PLACEHOLDER = 16" by (simp add: PLACEHOLDER_def)
  then have "take 16 (drop 11 (line (a @ PLACEHOLDER @ b))) = PLACEHOLDER" using assms(1) by (simp add: line_def)
  moreover have l: "length (line (a @ PLACEHOLDER @ b)) = 80" using length_line [OF assms(2)] by (simp add: CARD_SIZE_def)
  ultimately show ?thesis
    by (simp add: placeholder_as_bytes [symmetric] drop_as_bytes take_as_bytes)
qed

lemma checksum_record_parses:
  assumes raw: "record_render (Valued ''CHECKSUM'' (VText PLACEHOLDER) c) = Inr raw" and c: "comment_ok c" and t: "plain_text t"
  shows "parses_as (overwrite raw 11 (as_bytes t)) (Valued ''CHECKSUM'' (VText t) c)
    \<and> take 16 (drop 11 raw) = placeholder_bytes \<and> 27 \<le> length raw"
proof -
  let ?k = "''CHECKSUM''"
  have k: "admits KeywordRule ?k" "validate_valued_keyword ?k = Inr ()" by code_simp+
  have lt: "length t = length PLACEHOLDER" using t by (simp add: plain_text_def PLACEHOLDER_def)
  define a where "a = valued_lead ?k @ blanks 1 @ [CHR 0x27]"
  have a: "length a = 11" by (simp add: a_def valued_lead_def)
  have pr: "list_all is_printable t" using t by (simp add: plain_text_def)
  show ?thesis
  proof (cases "continuation_chain (Valued ?k (VText PLACEHOLDER) c)")
    case None
    then have one: "render_one (Valued ?k (VText PLACEHOLDER) c) = Inr raw" using raw by (auto simp: record_render_def bind_eq_Inr)
    obtain p where p: "p = valued_lead ?k @ blanks (value_pos (VText PLACEHOLDER) - 9) @ value_text (VText PLACEHOLDER) @ comment_part c"
      "raw = as_bytes (line p)" "length p \<le> CARD_SIZE"
      using render_valued_line [OF _ one] by auto
    have p1: "p = a @ PLACEHOLDER @ [CHR 0x27] @ comment_part c"
      unfolding p(1) plain_value_text [OF plain_placeholder] a_def by simp
    define q where "q = valued_lead ?k @ blanks (Suc 0) @ quoted t [CHR 0x27] @ comment_part c"
    have q: "a @ t @ [CHR 0x27] @ comment_part c = q" by (simp add: q_def a_def plain_quoted [OF t])
    have lq: "length q = length p" unfolding q [symmetric] p1 using lt by simp
    have tok: "token_for (VText t) (quoted t [CHR 0x27])" by (rule last_piece_token [OF pr plain_keep [OF t]])
    have asc: "is_ascii (blanks (Suc 0) @ quoted t [CHR 0x27] @ comment_part c)"
      using tok comment_part_printable [OF c] is_ascii_printable is_ascii_blanks [of "Suc 0"]
      by (simp add: token_for_def del: is_ascii_blanks replicate_Suc)
    have ov: "overwrite raw 11 (as_bytes t) = as_bytes (line q)"
      using line_replaced [OF a lt, of "[CHR 0x27] @ comment_part c"] unfolding p(2) p1 q by (simp add: as_bytes_overwrite [symmetric])
    have "card_parse (as_bytes (line q)) = Inr (ParsedRecord (Valued ?k (VText t) c), [])"
      using card_parse_valued_start [OF k _ asc] parse_valued_field [OF k(1) tok c, of 0] p(3) lq unfolding q_def by simp
    then show ?thesis
      using card_parses_as [of "as_bytes (line q)"] length_line [of q] p(3) lq line_placeholder [OF a, of "[CHR 0x27] @ comment_part c" "[]"]
      unfolding ov by (simp add: p(2) p1)
  next
    case (Some ls)
    note ls = long_text_parts [OF Some [unfolded continuation_chain.simps]]
    have fw: "first_width ls = 67" using ls by (simp add: first_width_def CARD_SIZE_def)
    have "piece_len 67 PLACEHOLDER = 16" by code_simp
    then have pieces: "pieces ls = [PLACEHOLDER]"
      unfolding pieces_def Let_def fw using ls by (simp add: PLACEHOLDER_def later_pieces.simps)
    obtain own where own: "chain_records (ls_lead ls) (ls_comment ls) True (PLACEHOLDER # (if own then [[]] else [])) = Inr raw"
      using raw Some pieces by (auto simp: record_render_def chain_render_def bind_eq_Inr attempt_eq_Inr simp del: chain_records.simps)
    define ps :: "string list" where "ps = (if own then [[]] else [])"
    have ld: "valued_lead_ok (ls_lead ls)" using k ls by (simp add: valued_lead_ok_def)
    obtain r where r: "raw = as_bytes (line (piece_line (ls_lead ls) PLACEHOLDER ps (ls_comment ls))) @ r"
      "chain_records (ls_lead ls) (ls_comment ls) False ps = Inr r"
      "length (piece_line (ls_lead ls) PLACEHOLDER ps (ls_comment ls)) \<le> CARD_SIZE"
      using chain_shape [OF own [folded ps_def] ld] .
    define b where "b = (if ps = [] then [CHR 0x27] else [CHR ''&'', CHR 0x27]) @ comment_part (if ps = [] then ls_comment ls else None)"
    have line: "piece_line (ls_lead ls) u ps (ls_comment ls) = a @ u @ b" if "plain_text u" for u
      unfolding piece_line_def plain_quoted [OF that] using ls by (simp add: lead_text_def a_def b_def)
    note lp = line [OF plain_placeholder] and lt' = line [OF t]
    have len: "length (piece_line (ls_lead ls) t ps (ls_comment ls)) \<le> CARD_SIZE" using r(3) lt unfolding lp lt' by simp
    have ok: "list_all (list_all is_printable) (t # ps)" "keep_one_blank (last (t # ps)) = last (t # ps)" "concat (t # ps) = t"
      using pr plain_keep [OF t] by (simp_all add: ps_def keep_one_blank_iff)
    have "overwrite raw 11 (as_bytes t) = as_bytes (line (a @ t @ b)) @ r"
    proof -
      have "11 + length (as_bytes t) \<le> length (as_bytes (line (a @ PLACEHOLDER @ b)))"
        using length_line [OF r(3)] lt unfolding lp by (simp add: CARD_SIZE_def PLACEHOLDER_def)
      then show ?thesis
        using line_replaced [OF a lt, of b] unfolding r(1) lp by (simp add: overwrite_append as_bytes_overwrite [symmetric])
    qed
    moreover have "parses_as (as_bytes (line (a @ t @ b)) @ r) (with_text (ls_lead ls) t (ls_comment ls))"
      using chain_shape_parse [OF len r(2) ld _ ok(1,2)] c ls ok(3) unfolding lt' parses_as_def by (metis (no_types))
    ultimately show ?thesis
      using ls line_placeholder [OF a, of b r] r(1,3) unfolding lp by simp
  qed
qed


section \<open>The text of an encoded sum\<close>

definition sum_text :: "u32 \<Rightarrow> string" where
  "sum_text s = map char_of_byte (encode s)"

lemma code_of_char_of_byte: "code_of (char_of_byte b) = unat b"
  using unat_u8_lt [of b] by (simp add: char_of_byte_def code_of_char_of)

lemma sum_text_bytes: "as_bytes (sum_text s) = encode s"
proof -
  have "byte_of_char (char_of_byte b) = b" for b
    by (simp add: byte_of_char_def code_of_char_of_byte)
  then show ?thesis by (simp add: sum_text_def as_bytes_def o_def)
qed

lemma sum_text_plain: "plain_text (sum_text s)"
proof -
  have e: "length (encode s) = 16" "list_all (\<lambda>c. alnum (uint c)) (encode s)" using encode_chars [of s] by simp_all
  have b: "is_printable (char_of_byte b) \<and> char_of_byte b \<noteq> CHR 0x27 \<and> char_of_byte b \<noteq> CHR '' ''" if "b \<in> set (encode s)" for b
  proof -
    have "alnum (uint b)" using e(2) that by (simp add: list_all_iff)
    then have "48 \<le> uint b" "uint b \<le> 122" by (auto simp: alnum_def)
    moreover have "uint b = int (unat b)" by simp
    ultimately have "48 \<le> unat b \<and> unat b \<le> 122" by linarith
    then have "48 \<le> code_of (char_of_byte b)" "code_of (char_of_byte b) \<le> 122" by (simp_all add: code_of_char_of_byte)
    moreover have "code_of (CHR 0x27) = 39" by (simp add: code_of_def)
    ultimately have "char_of_byte b \<noteq> CHR 0x27" "char_of_byte b \<noteq> CHR '' ''" "is_printable (char_of_byte b)"
      using code_of_blank by (force, force, simp add: is_printable_def)
    then show ?thesis by simp
  qed
  have "CHR 0x27 \<notin> set (sum_text s)" "CHR '' '' \<notin> set (sum_text s)"
    unfolding sum_text_def set_map using b by (metis imageE)+
  then show ?thesis using e(1) b by (auto simp: plain_text_def sum_text_def list_all_iff)
qed

lemma show_sum_ok: "value_ok (VText (show_nat n)) \<and> trim (show_nat n) = show_nat n \<and> show_nat n \<noteq> []"
proof -
  have d: "list_all is_ascii_digit (show_nat n)" "show_nat n \<noteq> []" by (simp_all add: show_nat_all_digits show_nat_ne)
  then have c: "48 \<le> code_of c \<and> code_of c \<le> 57" if "c \<in> set (show_nat n)" for c
    using that by (auto simp: list_all_iff is_ascii_digit_def)
  have tr: "trim (show_nat n) = show_nat n"
    by (rule trim_no_space) (use c in \<open>force simp: is_whitespace_def\<close>)
  have "last (show_nat n) \<noteq> CHR '' ''" using c [OF last_in_set [OF d(2)]] by auto
  moreover have "list_all is_printable (show_nat n)" using c by (auto simp: list_all_iff is_printable_def dest: c)
  ultimately show ?thesis using d tr by (auto simp: keep_one_blank_iff)
qed


section \<open>The signed unit\<close>

text \<open>The records of a signed header, the place of its \<^verbatim>\<open>CHECKSUM\<close> record, and what their bytes are.\<close>

definition signed_header_records :: "header \<Rightarrow> u32 \<Rightarrow> header_record list" where
  "signed_header_records h d =
     (let datasum = h_index h ''DATASUM''; checksum = h_index h ''CHECKSUM''
      in signed_list (WithDataSum d) {datasum, checksum} 0 (h_records h)
         @ (if datasum = None then [Valued ''DATASUM'' (VText (show_nat (unat d))) None] else [])
         @ (if checksum = None then [Valued ''CHECKSUM'' (VText PLACEHOLDER) None] else []))"

definition checksum_place :: "header_record list \<Rightarrow> nat \<Rightarrow> bool" where
  "checksum_place rs j \<longleftrightarrow> j < length rs \<and> (\<exists>c. rs ! j = Valued ''CHECKSUM'' (VText PLACEHOLDER) c)
     \<and> first_pos record_keyword rs ''CHECKSUM'' = Some j"

lemma first_pos_same_keys:
  assumes "length rs = length rs'" and "\<And>j. j < length rs \<Longrightarrow> key (rs ! j) = key (rs' ! j)"
  shows "first_pos key rs = first_pos key rs'"
proof -
  have "map key rs = map key rs'" using assms by (auto intro!: nth_equalityI)
  moreover have "find_index (\<lambda>r. key r = Some k) xs = find_index (\<lambda>x. x = Some k) (map key xs)" for k xs
    by (induction xs) auto
  ultimately show ?thesis by (simp add: first_pos_def)
qed

lemma signed_list_pos: "first_pos record_keyword (signed_list signing sums i rs) = first_pos record_keyword rs"
  by (rule first_pos_same_keys) (simp_all add: nth_signed_list signed_record_keyword)

lemma first_pos_append:
  "first_pos key (xs @ ys) k = (case first_pos key xs k of Some i \<Rightarrow> Some i | None \<Rightarrow> map_option (\<lambda>i. length xs + i) (first_pos key ys k))"
  unfolding first_pos_def by (rule find_index_append_cases)

lemma signed_sums_unique:
  assumes inv: "header_inv h" and "signs_checksum {h_index h ''DATASUM'', h_index h ''CHECKSUM''} j (h_records h ! j)" and "j < length (h_records h)"
  shows "h_index h ''CHECKSUM'' = Some j"
proof (rule ccontr)
  assume "h_index h ''CHECKSUM'' \<noteq> Some j"
  then have "h_index h ''DATASUM'' = Some j" using assms(2) by (auto simp: signs_checksum_def)
  then have "record_keyword (h_records h ! j) = Some ''DATASUM''"
    using inv find_index_Some by (fastforce simp: header_inv_def first_pos_def)
  then show False using assms(2) by (simp add: signs_checksum_def)
qed


lemma render_missing_eq:
  assumes "render_missing signing k idx st = Inr st'"
  shows "\<exists>raws. renders raws (if idx = None then [Valued k (VText (the (signed_value signing k))) None] else [])
    \<and> st' = (fst st @ concat raws, if idx = None \<and> k = ''CHECKSUM'' then Some (length (fst st)) else snd st)"
proof (cases "idx = None")
  case True
  then have "render_signed signing k None st = Inr st'" using assms by (simp add: render_missing_def)
  from render_signed_eq [OF this] obtain raw where "record_render (Valued k (VText (the (signed_value signing k))) None) = Inr raw"
    "st' = (fst st @ raw, if k = ''CHECKSUM'' then Some (length (fst st)) else snd st)" by blast
  then show ?thesis using True by (intro exI [of _ "[raw]"]) simp
next
  case False
  then have "st' = st" using assms by (auto simp: render_missing_def)
  then show ?thesis using False by (intro exI [of _ "[]"]) auto
qed

lemma signed_records_place:
  assumes inv: "header_inv h"
  shows "\<exists>j. checksum_place (signed_header_records h d) j
    \<and> j = (case h_index h ''CHECKSUM'' of Some c \<Rightarrow> c
           | None \<Rightarrow> length (h_records h) + (if h_index h ''DATASUM'' = None then 1 else 0))"
proof -
  let ?sums = "{h_index h ''DATASUM'', h_index h ''CHECKSUM''}"
  let ?S = "signed_list (WithDataSum d) ?sums 0 (h_records h)"
  have pos: "first_pos record_keyword ?S = h_index h" using inv by (simp add: signed_list_pos header_inv_def)
  show ?thesis
  proof (cases "h_index h ''CHECKSUM''")
    case (Some c)
    then have c: "c < length (h_records h)" "record_keyword (h_records h ! c) = Some ''CHECKSUM''"
      using inv find_index_Some by (fastforce simp: header_inv_def first_pos_def)+
    have "?S ! c = Valued ''CHECKSUM'' (VText PLACEHOLDER) (record_comment (h_records h ! c))"
      using c Some by (simp add: nth_signed_list signed_record_def signed_value_def)
    then show ?thesis
      using c(1) Some pos by (simp add: checksum_place_def signed_header_records_def Let_def nth_append first_pos_append)
  next
    case None
    then have n: "first_pos record_keyword ?S ''CHECKSUM'' = None" using pos by simp
    show ?thesis
      using n None by (simp add: checksum_place_def signed_header_records_def Let_def nth_append first_pos_append) (simp add: first_pos_def)
  qed
qed

lemma signed_out:
  assumes inv: "header_inv h" and r: "render_records h (WithDataSum d) = Inr (out, at)"
  obtains raws j where "renders raws (signed_header_records h d)" and "checksum_place (signed_header_records h d) j"
    and "out = concat raws" and "at = Some (length (concat (take j raws)))"
proof -
  let ?dat = "h_index h ''DATASUM''" and ?chk = "h_index h ''CHECKSUM''" and ?sg = "WithDataSum d"
  obtain st0 st1 where st: "render_each ?sg {?dat, ?chk} 0 (h_records h) ([], None) = Inr st0"
    "render_missing ?sg ''DATASUM'' ?dat st0 = Inr st1" "render_missing ?sg ''CHECKSUM'' ?chk st1 = Inr (out, at)"
    using r by (auto simp: render_records_def Let_def bind_eq_Inr)
  obtain r0 where r0: "renders r0 (signed_list ?sg {?dat, ?chk} 0 (h_records h))" "fst st0 = concat r0"
    and at0: "snd st0 = None \<and> (\<forall>j < length (h_records h). \<not> signs_checksum {?dat, ?chk} j (h_records h ! j))
       \<or> (\<exists>j < length (h_records h). signs_checksum {?dat, ?chk} j (h_records h ! j) \<and> snd st0 = Some (length (concat (take j r0))))"
    using render_each_signed [OF st(1)] by auto
  obtain r1 where r1: "renders r1 (if ?dat = None then [Valued ''DATASUM'' (VText (the (signed_value ?sg ''DATASUM''))) None] else [])"
    "st1 = (fst st0 @ concat r1, snd st0)"
    using render_missing_eq [OF st(2)] by auto
  obtain r2 where r2: "renders r2 (if ?chk = None then [Valued ''CHECKSUM'' (VText (the (signed_value ?sg ''CHECKSUM''))) None] else [])"
    "out = fst st1 @ concat r2" "at = (if ?chk = None then Some (length (fst st1)) else snd st1)"
    using render_missing_eq [OF st(3)] by auto
  define raws where "raws = r0 @ r1 @ r2"
  have raws: "renders raws (signed_header_records h d)"
    unfolding raws_def signed_header_records_def Let_def
    using r0(1) r1(1) r2(1) by (intro list_all2_appendI) (simp_all add: signed_value_def split: if_splits)
  have out: "out = concat raws" using r0 r1 r2 by (simp add: raws_def)
  have l0: "length r0 = length (h_records h)" using list_all2_lengthD [OF r0(1)] by simp
  have l1: "length r1 = (if ?dat = None then 1 else 0)" using list_all2_lengthD [OF r1(1)] by simp
  obtain j where j: "checksum_place (signed_header_records h d) j"
    "j = (case ?chk of Some c \<Rightarrow> c | None \<Rightarrow> length (h_records h) + (if ?dat = None then 1 else 0))"
    using signed_records_place [OF inv] by blast
  have "at = Some (length (concat (take j raws)))"
  proof (cases ?chk)
    case None
    then have "take j raws = r0 @ r1" using j(2) l0 l1 by (simp add: raws_def)
    then show ?thesis using None r2(3) r1(2) r0(2) by simp
  next
    case (Some c)
    then have c: "c < length (h_records h)" "record_keyword (h_records h ! c) = Some ''CHECKSUM''"
      using inv find_index_Some by (fastforce simp: header_inv_def first_pos_def)+
    then have "signs_checksum {?dat, ?chk} c (h_records h ! c)" using Some by (simp add: signs_checksum_def)
    then obtain i where "i < length (h_records h)" "signs_checksum {?dat, ?chk} i (h_records h ! i)"
      "snd st0 = Some (length (concat (take i r0)))"
      using at0 c(1) by blast
    then have "snd st0 = Some (length (concat (take c r0)))" using signed_sums_unique [OF inv] Some by auto
    moreover have "take j raws = take c r0" using j(2) Some c(1) l0 by (simp add: raws_def)
    ultimately show ?thesis using Some r2(3) r1(2) by simp
  qed
  then show ?thesis using that [OF raws j(1) out] by blast
qed

lemma signed_render:
  assumes inv: "header_inv h" and r: "header_render h (WithDataSum d) space = Inr bs"
  obtains raws spare j where "renders raws (signed_header_records h d)" and "checksum_place (signed_header_records h d) j"
    and "bs = overwrite (fill_unit (concat raws) spare) (length (concat (take j raws)) + 11)
               (encode (combine (accumulate (fill_unit (concat raws) spare) 0) d))"
proof -
  obtain out at spare where o: "render_records h (WithDataSum d) = Inr (out, at)" "bs = sign_unit (WithDataSum d) at (fill_unit out spare)"
    using r by (auto simp: header_render_def bind_eq_Inr Let_def split: if_split_asm)
  obtain raws j where "renders raws (signed_header_records h d)" "checksum_place (signed_header_records h d) j"
    "out = concat raws" "at = Some (length (concat (take j raws)))"
    using signed_out [OF inv o(1)] .
  then show ?thesis using that [of raws j spare] o(2) by (simp add: sign_unit_def)
qed

text \<open>The records are still canonical.\<close>

lemma signed_records_ok:
  assumes "list_all record_ok (h_records h)"
  shows "list_all record_ok (signed_header_records h d)"
proof -
  have k: "admits KeywordRule ''DATASUM''" "admits KeywordRule ''CHECKSUM''" "comment_ok None" by code_simp+
  have p: "value_ok (VText PLACEHOLDER)" by code_simp
  have sr: "record_ok (signed_record (WithDataSum d) sums i r)" if "record_ok r" for sums i r
  proof (cases r)
    case (Valued k v c)
    then show ?thesis using that k p show_sum_ok [of "unat d"]
      by (auto simp: signed_record_def signed_value_def simp del: value_ok.simps)
  qed (use that in \<open>auto simp: signed_record_def\<close>)
  have "list_all record_ok (signed_list (WithDataSum d) sums i rs)" if "list_all record_ok rs" for sums i rs
    using that sr by (induction rs arbitrary: i) auto
  then show ?thesis
    using assms k p show_sum_ok [of "unat d"] by (auto simp: signed_header_records_def Let_def simp del: value_ok.simps)
qed

end
