(* ===== verification/Record_Opens.thy ===== *)
theory Record_Opens
  imports Signed_Header
begin

text \<open>
  The bytes that a rendered record opens with are its keyword's, by which a scan knows a header unit.
\<close>

text \<open>The bytes of a valued record open with its keyword.\<close>

definition opens_as :: "bytes \<Rightarrow> header_record \<Rightarrow> bool" where
  "opens_as raw r \<longleftrightarrow> (\<forall>k v c. r = Valued k v c \<longrightarrow> length k \<le> 8 \<and> take 8 raw = as_bytes (k @ blanks (8 - length k)))"

lemma line_opens:
  assumes "length k \<le> 8" and "length (valued_lead k @ t) \<le> CARD_SIZE"
  shows "take 8 (as_bytes (line (valued_lead k @ t)) @ r) = as_bytes (k @ blanks (8 - length k))"
proof -
  have "take 8 (line (valued_lead k @ t)) = k @ blanks (8 - length k)" using assms(1) by (simp add: line_def valued_lead_def)
  moreover have "8 \<le> length (line (valued_lead k @ t))" using length_line [OF assms(2)] by (simp add: CARD_SIZE_def)
  ultimately show ?thesis by (simp add: take_as_bytes)
qed

lemma record_opens:
  assumes "record_ok r" and "record_render r = Inr raw"
  shows "opens_as raw r"
proof (cases r)
  case (Valued k v c)
  have valid: "validate_valued_keyword k = Inr ()" using assms(2) Valued by (auto simp: record_render_def bind_eq_Inr attempt_eq_Inr)
  have k: "admits KeywordRule k" using assms(1) Valued by simp
  then have l8: "length k \<le> 8" by (simp add: admits_def split: if_split_asm)
  have "take 8 raw = as_bytes (k @ blanks (8 - length k))"
  proof (cases "continuation_chain r")
    case None
    then have "render_one (Valued k v c) = Inr raw" using assms(2) Valued by (auto simp: record_render_def bind_eq_Inr)
    from render_valued_line [OF l8 this] show ?thesis using line_opens [OF l8, of _ "[]"] by force
  next
    case (Some ls)
    then obtain t where t: "v = VText t" using Valued by (cases v) auto
    note ls = long_text_parts [OF Some [unfolded Valued t continuation_chain.simps]]
    obtain own where own: "chain_records (ls_lead ls) (ls_comment ls) True (pieces ls @ (if own then [[]] else [])) = Inr raw"
      using assms(2) Some by (auto simp: record_render_def chain_render_def bind_eq_Inr attempt_eq_Inr simp del: chain_records.simps)
    obtain piece ps where all: "pieces ls @ (if own then [[]] else []) = piece # ps"
      by (cases "pieces ls @ (if own then [[]] else [])") (auto simp: pieces_def Let_def)
    have ld: "valued_lead_ok (ls_lead ls)" using ls k valid by (simp add: valued_lead_ok_def)
    obtain x where "raw = as_bytes (line (piece_line (ls_lead ls) piece ps (ls_comment ls))) @ x"
      "length (piece_line (ls_lead ls) piece ps (ls_comment ls)) \<le> CARD_SIZE"
      using chain_shape [OF own [unfolded all] ld] by metis
    then show ?thesis using ls line_opens [OF l8] by (simp add: piece_line_def lead_text_def)
  qed
  then show ?thesis using Valued l8 by (simp add: opens_as_def)
qed (simp_all add: opens_as_def)

lemma renders_open:
  assumes "renders raws rs" and "list_all record_ok rs"
  shows "list_all2 opens_as raws rs"
  using assms by (induction raws rs rule: list_all2_induct) (auto intro: record_opens)

text \<open>A record whose later bytes are overwritten opens as before.\<close>

lemma opens_overwritten:
  assumes "opens_as raw (Valued k v c)" and "8 \<le> at" and "at \<le> length raw"
  shows "opens_as (overwrite raw at t) (Valued k w c)"
  using assms by (simp add: opens_as_def overwrite_def min_absorb1)

end
