(* ===== verification/Signed_Report.thy ===== *)
theory Signed_Report
  imports Record_Opens
begin

text \<open>
  What the reader makes of a signed header: the records read back with the sum in place of its placeholder, and
  the reader's report of the two sums is valid.
\<close>

section \<open>The first record of a keyword\<close>

definition text_place :: "header_record list \<Rightarrow> keyword \<Rightarrow> string \<Rightarrow> nat \<Rightarrow> bool" where
  "text_place rs k v j \<longleftrightarrow> j < length rs \<and> (\<exists>c. rs ! j = Valued k (VText v) c) \<and> first_pos record_keyword rs k = Some j"

lemma drop_blank_prefix: "\<exists>m. rs = drop_blank_records rs @ replicate m (Commentary [] None)"
proof -
  let ?b = "\<lambda>r. r = Commentary [] None"
  have "\<forall>r \<in> set (takeWhile ?b (rev rs)). r = Commentary [] None" using set_takeWhileD by fastforce
  then have "takeWhile ?b (rev rs) = replicate (length (takeWhile ?b (rev rs))) (Commentary [] None)"
    by (rule replicate_length_same [symmetric])
  moreover have "rs = drop_blank_records rs @ rev (takeWhile ?b (rev rs))"
    unfolding drop_blank_records_def rev_append [symmetric] takeWhile_dropWhile_id by simp
  ultimately show ?thesis by (metis rev_replicate)
qed

lemma first_pos_lt: "first_pos key rs k = Some j \<Longrightarrow> j < length rs"
  using find_index_Some by (fastforce simp: first_pos_def)

lemma text_place_drop_blank:
  assumes "text_place rs k v j" and "k \<noteq> []"
  shows "text_place (drop_blank_records rs) k v j"
proof -
  obtain m where m: "rs = drop_blank_records rs @ replicate m (Commentary [] None)" using drop_blank_prefix by blast
  have "first_pos record_keyword (replicate m (Commentary [] None)) k = None"
    using assms(2) by (induction m) (auto simp: first_pos_def)
  then have p: "first_pos record_keyword rs k = first_pos record_keyword (drop_blank_records rs) k"
    using first_pos_append [of record_keyword "drop_blank_records rs" "replicate m (Commentary [] None)" k] m
    by (auto split: option.splits)
  then have "j < length (drop_blank_records rs)" using assms(1) first_pos_lt [of record_keyword "drop_blank_records rs" k j] by (simp add: text_place_def)
  moreover from this have "rs ! j = drop_blank_records rs ! j" using m by (metis nth_append)
  ultimately show ?thesis using assms(1) p by (simp add: text_place_def)
qed

lemma text_place_update:
  assumes "text_place rs k v j" and "record_keyword r = record_keyword (rs ! i)"
  shows "i \<noteq> j \<Longrightarrow> text_place (rs[i := r]) k v j" and "r = Valued k (VText u) c \<Longrightarrow> i = j \<Longrightarrow> text_place (rs[i := r]) k u j"
proof -
  have "first_pos record_keyword (rs[i := r]) = first_pos record_keyword rs"
  proof (rule first_pos_same_keys)
    show "record_keyword (rs[i := r] ! n) = record_keyword (rs ! n)" if "n < length (rs[i := r])" for n
      using assms(2) that by (cases "i = n") simp_all
  qed simp
  then show "i \<noteq> j \<Longrightarrow> text_place (rs[i := r]) k v j" "r = Valued k (VText u) c \<Longrightarrow> i = j \<Longrightarrow> text_place (rs[i := r]) k u j"
    using assms(1) by (auto simp: text_place_def)
qed

lemma text_place_get:
  assumes "text_place rs k v j"
  shows "header_get (header_of rs) (KeywordName k) = Inr (Some (VText v))"
  using assms by (auto simp: text_place_def header_get_def header_value_def header_of_def record_at_def)

lemma sum_text_trim: "plain_text t \<Longrightarrow> trim t = t \<and> t \<noteq> []"
proof
  assume p: "plain_text t"
  have "\<not> is_whitespace c" if c: "c \<in> set t" for c
  proof -
    have "code_of c \<noteq> 32" using p c code_of_inject [of c "CHR '' ''"] code_of_blank by (auto simp: plain_text_def simp del: code_of_inject)
    then show ?thesis using p c by (auto simp: plain_text_def list_all_iff is_printable_def is_whitespace_def)
  qed
  then show "trim t = t" by (rule trim_no_space)
  show "t \<noteq> []" using p by (auto simp: plain_text_def)
qed

lemma sums_declared:
  assumes "text_place rs ''DATASUM'' (show_nat (unat d)) i" and "text_place rs ''CHECKSUM'' t j" and "plain_text t"
  shows "declared_read (header_of rs) = Inr \<lparr>de_datasum = DeclPresent d, de_checksum = DeclPresent 0\<rparr>"
proof -
  have "parse_u32 (show_nat (unat d)) = Some d"
    using parse_show_nat [of "unat d" u32_max] unat_u32_le [of d] by (simp add: parse_u32_def)
  then have "declaration_read (header_of rs) ''DATASUM'' parse_u32 = Inr (DeclPresent d)"
    using text_place_get [OF assms(1)] show_sum_ok [of "unat d"] by (simp add: declaration_read_def present_or_invalid_def)
  moreover have "declaration_read (header_of rs) ''CHECKSUM'' (\<lambda>_. Some 0) = Inr (DeclPresent 0)"
    using text_place_get [OF assms(2)] sum_text_trim [OF assms(3)] by (simp add: declaration_read_def present_or_invalid_def)
  ultimately show ?thesis by (simp add: declared_read_def)
qed

lemma datasum_text_place:
  assumes inv: "header_inv h"
  shows "\<exists>i. text_place (signed_header_records h d) ''DATASUM'' (show_nat (unat d)) i"
proof -
  let ?sums = "{h_index h ''DATASUM'', h_index h ''CHECKSUM''}"
  let ?S = "signed_list (WithDataSum d) ?sums 0 (h_records h)"
  have pos: "first_pos record_keyword ?S = h_index h" using inv by (simp add: signed_list_pos header_inv_def)
  show ?thesis
  proof (cases "h_index h ''DATASUM''")
    case (Some i)
    then have i: "i < length (h_records h)" "record_keyword (h_records h ! i) = Some ''DATASUM''"
      using inv find_index_Some by (fastforce simp: header_inv_def first_pos_def)+
    have "?S ! i = Valued ''DATASUM'' (VText (show_nat (unat d))) (record_comment (h_records h ! i))"
      using i Some by (simp add: nth_signed_list signed_record_def signed_value_def)
    then show ?thesis
      using i(1) Some pos by (auto simp: text_place_def signed_header_records_def Let_def nth_append first_pos_append intro!: exI [of _ i])
  next
    case None
    then show ?thesis
      using pos by (intro exI [of _ "length (h_records h)"])
        (simp add: text_place_def signed_header_records_def Let_def nth_append first_pos_append, simp add: first_pos_def)
  qed
qed

section \<open>The signed unit\<close>

lemma length_to_be32: "length (to_be32 d) = 4"
  using length_to_be32_list [of d] by auto

lemma fill_unit_tail: "\<exists>tail. \<forall>out. length out = n \<longrightarrow> fill_unit out spare = out @ tail"
  by (intro exI [of _ "drop n (fill_unit (replicate n 0) spare)"]) (simp add: fill_unit_def Let_def)

lemma fill_unit_words:
  assumes "4 dvd length out"
  shows "4 dvd length (fill_unit out spare)"
proof -
  let ?n = "length (out @ replicate (spare * CARD_SIZE) blank_byte @ end_record)"
  have "4 dvd ?n" using assms by (simp add: length_end_record CARD_SIZE_def)
  moreover have "4 dvd next_multiple ?n BLOCK_SIZE" unfolding next_multiple_def BLOCK_SIZE_def by (rule dvd_mult) simp
  ultimately have "4 dvd ?n + (next_multiple ?n BLOCK_SIZE - ?n)" by (simp add: dvd_diff_nat dvd_add)
  then show ?thesis by (simp add: fill_unit_def Let_def add.assoc)
qed

lemma concat_update:
  assumes "j < length xs"
  shows "concat (xs[j := y]) = concat (take j xs) @ y @ concat (drop (Suc j) xs)"
  using assms by (simp add: upd_conv_take_nth_drop)

lemma concat_split: "j < length xs \<Longrightarrow> concat xs = concat (take j xs) @ xs ! j @ concat (drop (Suc j) xs)"
  using concat_update [of j xs "xs ! j"] by simp

lemma parses_as_len: "parses_as raw r \<Longrightarrow> 4 dvd length raw"
proof -
  assume "parses_as raw r"
  then obtain n where "length raw = n * 80" unfolding parses_as_def CARD_SIZE_def by blast
  then show ?thesis by simp
qed

lemma parses_len: "list_all2 parses_as raws rs \<Longrightarrow> 4 dvd length (concat raws)"
  by (induction raws rs rule: list_all2_induct) (auto dest: parses_as_len)

lemma parses_update: "list_all2 parses_as raws rs \<Longrightarrow> parses_as raw r \<Longrightarrow> list_all2 parses_as (raws[j := raw]) (rs[j := r])"
  by (rule list_all2_update_cong)

lemma overwrite_length: "at + length t \<le> length a \<Longrightarrow> length (overwrite a at t) = length a"
  by (simp add: overwrite_def)

text \<open>The unit of a signed render: what its records read back as, and that it sums, with the data, to negative zero.\<close>

definition signed_records_of :: "header \<Rightarrow> u32 \<Rightarrow> header_record list \<Rightarrow> bool" where
  "signed_records_of h d rs \<longleftrightarrow> (\<exists>i j s c. rs = (signed_header_records h d)[j := Valued ''CHECKSUM'' (VText (sum_text s)) c]
     \<and> checksum_place (signed_header_records h d) j
     \<and> text_place rs ''DATASUM'' (show_nat (unat d)) i \<and> text_place rs ''CHECKSUM'' (sum_text s) j)"

lemma signed_unit:
  assumes inv: "header_inv h" and ok: "list_all record_ok (h_records h)" and r: "header_render h (WithDataSum d) space = Inr bs"
  obtains raws rs spare where "bs = fill_unit (concat raws) spare" and "list_all2 parses_as raws rs" and "list_all2 opens_as raws rs"
    and "signed_records_of h d rs" and "combine (accumulate bs 0) d = 0xFFFFFFFF"
proof -
  let ?R = "signed_header_records h d"
  obtain raws spare j where raws: "renders raws ?R" "checksum_place ?R j"
    and bs: "bs = overwrite (fill_unit (concat raws) spare) (length (concat (take j raws)) + 11)
               (encode (combine (accumulate (fill_unit (concat raws) spare) 0) d))"
    using signed_render [OF inv r] .
  define s where "s = combine (accumulate (fill_unit (concat raws) spare) 0) d"
  define raw where "raw = raws ! j"
  define raw' where "raw' = overwrite raw 11 (encode s)"
  have rok: "list_all record_ok ?R" by (rule signed_records_ok [OF ok])
  have j: "j < length raws" "j < length ?R" using raws list_all2_lengthD [OF raws(1)] by (simp_all add: checksum_place_def)
  obtain c where c: "?R ! j = Valued ''CHECKSUM'' (VText PLACEHOLDER) c" using raws(2) by (auto simp: checksum_place_def)
  have "record_render (Valued ''CHECKSUM'' (VText PLACEHOLDER) c) = Inr raw"
    using list_all2_nthD [OF raws(1) j(1)] c by (simp add: raw_def)
  moreover have "comment_ok c" using rok j(2) c by (metis list_all_length record_ok.simps(1))
  ultimately have chk: "parses_as raw' (Valued ''CHECKSUM'' (VText (sum_text s)) c)" "take 16 (drop 11 raw) = placeholder_bytes" "27 \<le> length raw"
    using checksum_record_parses [OF _ _ sum_text_plain [of s]] unfolding raw'_def sum_text_bytes by blast+
  have l16: "length (encode s) = 16" "length placeholder_bytes = 16" by (simp_all add: encode_length placeholder_bytes_def PLACEHOLDER_def)
  have raw: "raw = take 11 raw @ placeholder_bytes @ drop 27 raw"
    using chk(2) append_take_drop_id [of 11 raw] append_take_drop_id [of 16 "drop 11 raw"] by simp
  have raw': "raw' = take 11 raw @ encode s @ drop 27 raw" using l16 by (simp add: raw'_def overwrite_def)
  have all: "list_all2 parses_as raws ?R" by (rule renders_parse [OF raws(1) rok])
  define raws' where "raws' = raws[j := raw']"
  define R' where "R' = ?R[j := Valued ''CHECKSUM'' (VText (sum_text s)) c]"
  have all': "list_all2 parses_as raws' R'" unfolding raws'_def R'_def 
    by (rule parses_update [OF all chk(1)])
  define pre where "pre = concat (take j raws) @ take 11 raw"
  have len: "length (concat raws') = length (concat raws)"
    using concat_split [OF j(1)] concat_update [OF j(1), of raw'] chk(3) l16 raw' by (simp add: raws'_def raw_def)
  obtain tail where tail: "\<And>out. length out = length (concat raws) \<Longrightarrow> fill_unit out spare = out @ tail" using fill_unit_tail by blast
  define post where "post = drop 27 raw @ concat (drop (Suc j) raws) @ tail"
  have unit: "fill_unit (concat raws) spare = pre @ placeholder_bytes @ post"
    using tail [of "concat raws"] concat_split [OF j(1)] raw by (simp add: pre_def post_def raw_def)
  have unit': "fill_unit (concat raws') spare = pre @ encode s @ post"
    using tail [OF len] concat_update [OF j(1), of raw'] raw' by (simp add: pre_def post_def raws'_def)
  have lp: "length pre = length (concat (take j raws)) + 11" using chk(3) by (simp add: pre_def)
  have bs': "bs = fill_unit (concat raws') spare"
    unfolding bs unit' s_def [symmetric] unfolding unit lp [symmetric] using l16 by (simp add: overwrite_middle)
  have four: "4 dvd length (concat raws)" "4 dvd length (concat (take j raws))"
    using parses_len [OF all] parses_len [OF list_all2_takeI [OF all]] by blast+
  obtain i where i: "text_place ?R ''DATASUM'' (show_nat (unat d)) i" using datasum_text_place [OF inv] by blast
  have pj: "text_place ?R ''CHECKSUM'' PLACEHOLDER j" using raws(2) by (simp add: checksum_place_def text_place_def)
  have "j \<noteq> i" using i pj by (auto simp: text_place_def)
  then have places: "text_place R' ''DATASUM'' (show_nat (unat d)) i" "text_place R' ''CHECKSUM'' (sum_text s) j"
    unfolding R'_def using text_place_update(1) [OF i] text_place_update(2) [OF pj] c by simp_all
  have "signed_records_of h d R'" unfolding signed_records_of_def using R'_def raws(2) places by blast
  moreover have "combine (accumulate bs 0) d = 0xFFFFFFFF"
  proof -
    have at: "length pre mod 4 = 3" using four(2) unfolding lp by presburger
    have "4 dvd length (pre @ placeholder_bytes @ post)" using fill_unit_words [OF four(1), of spare] unfolding unit .
    then have w: "4 dvd length (pre @ placeholder_bytes @ post @ to_be32 d)" "4 dvd length (pre @ encode s @ post)"
      using l16 length_to_be32 [of d] by (simp, presburger, simp)
    have "s = accumulate (pre @ placeholder_bytes @ post @ to_be32 d) 0"
      using accumulate_append [OF \<open>4 dvd length (pre @ placeholder_bytes @ post)\<close>, of "to_be32 d" 0]
      by (simp add: s_def unit accumulate_one length_to_be32)
    then have "accumulate (pre @ encode s @ post @ to_be32 d) 0 = 0xFFFFFFFF"
      using encoded_unit_sum [of pre "post @ to_be32 d" s] w(1) at by simp
    then show ?thesis
      using accumulate_append [OF w(2), of "to_be32 d" 0]
      by (simp add: bs' unit' accumulate_one length_to_be32)
  qed
  moreover have "list_all2 opens_as raws' R'"
  proof -
    have o: "list_all2 opens_as raws ?R" by (rule renders_open [OF raws(1) rok])
    then have "opens_as raw (Valued ''CHECKSUM'' (VText PLACEHOLDER) c)" using list_all2_nthD [OF o j(1)] c by (simp add: raw_def)
    then show ?thesis
      unfolding raws'_def R'_def raw'_def by (intro list_all2_update_cong [OF o] opens_overwritten) (use chk(3) in simp_all)
  qed
  ultimately show thesis using that [OF bs' all'] by blast
qed

lemma signed_declares:
  assumes "signed_records_of h d rs"
  shows "declared_read (header_of (drop_blank_records rs)) = Inr \<lparr>de_datasum = DeclPresent d, de_checksum = DeclPresent 0\<rparr>"
proof -
  obtain i j s where p: "text_place rs ''DATASUM'' (show_nat (unat d)) i" "text_place rs ''CHECKSUM'' (sum_text s) j"
    using assms by (auto simp: signed_records_of_def)
  show ?thesis by (rule sums_declared [OF text_place_drop_blank [OF p(1)] text_place_drop_blank [OF p(2)] sum_text_plain]) simp_all
qed

lemma signed_report:
  assumes "header_inv h" and "list_all record_ok (h_records h)" and "header_render h (WithDataSum d) space = Inr bs"
  shows "\<exists>h'. header_parse bs = Inr h' \<and> declared_read h' = Inr \<lparr>de_datasum = DeclPresent d, de_checksum = DeclPresent 0\<rparr>
    \<and> combine (accumulate bs 0) d = 0xFFFFFFFF"
  using signed_unit [OF assms] parse_unit signed_declares by metis


definition unsigned_sample :: header where
  "unsigned_sample = header_of [Valued ''SIMPLE'' (VLogical True) None, Valued ''CHECKSUM'' (VText ''stale'') (Some ''sum'')]"


end
