(* ===== verification/Reserved_Keywords.thy ===== *)
theory Reserved_Keywords
  imports Header_Names_Correct
begin

text \<open>
  The keywords that the format owns: \<^verbatim>\<open>src/reserved_keywords.rs\<close>. The merge of a template into a writer's header
  leaves them out, and table compression moves them between a table and its container.
\<close>

definition STRUCTURE :: "keyword list" where
  "STRUCTURE =
     [''SIMPLE'', ''XTENSION'', ''BITPIX'', ''NAXIS'', ''PCOUNT'', ''GCOUNT'', ''EXTEND'', ''GROUPS'', ''BLOCKED'',
      ''BSCALE'', ''BZERO'', ''BLANK'', ''CHECKSUM'', ''DATASUM'', ''THEAP'', ''TFIELDS'']"

definition STRUCTURE_INDEXED :: "keyword list" where
  "STRUCTURE_INDEXED =
     [''NAXIS'', ''TFORM'', ''TTYPE'', ''TUNIT'', ''TDIM'', ''TSCAL'', ''TZERO'', ''TNULL'', ''TBCOL'']"

definition IMAGE_COMPRESSION :: "keyword list" where
  "IMAGE_COMPRESSION =
     [''ZIMAGE'', ''ZCMPTYPE'', ''ZBITPIX'', ''ZNAXIS'', ''ZQUANTIZ'', ''ZDITHER0'', ''ZBLANK'', ''ZMASKCMP'', ''ZSIMPLE'',
      ''ZTENSION'', ''ZEXTEND'', ''ZBLOCKED'', ''ZGCOUNT'', ''ZHEAPPTR'']"

definition IMAGE_COMPRESSION_INDEXED :: "keyword list" where
  "IMAGE_COMPRESSION_INDEXED = [''ZNAXIS'', ''ZTILE'', ''ZNAME'', ''ZVAL'']"

definition TABLE_COMPRESSION :: "keyword list" where
  "TABLE_COMPRESSION = [''ZTABLE'', ''ZTILELEN'', ''ZNAXIS1'', ''ZNAXIS2'', ''ZPCOUNT'']"

definition TABLE_COMPRESSION_INDEXED :: "keyword list" where
  "TABLE_COMPRESSION_INDEXED = [''ZFORM'', ''ZCTYP'']"

definition TABLE_PRESERVED :: "(keyword \<times> keyword) list" where
  "TABLE_PRESERVED = [(''THEAP'', ''ZTHEAP''), (''CHECKSUM'', ''ZHECKSUM''), (''DATASUM'', ''ZDATASUM'')]"

definition is_generated :: "keyword \<Rightarrow> bool" where
  "is_generated keyword =
     (let indexed = (\<lambda>root. index_after keyword root \<noteq> None)
      in List.member STRUCTURE keyword
         \<or> List.member IMAGE_COMPRESSION keyword
         \<or> List.member TABLE_COMPRESSION keyword
         \<or> list_ex (\<lambda>(_, container). container = keyword) TABLE_PRESERVED
         \<or> list_ex indexed STRUCTURE_INDEXED
         \<or> list_ex indexed IMAGE_COMPRESSION_INDEXED
         \<or> list_ex indexed TABLE_COMPRESSION_INDEXED)"

definition is_table_compression :: "keyword \<Rightarrow> nat \<Rightarrow> bool" where
  "is_table_compression keyword columns =
     (List.member TABLE_COMPRESSION keyword
      \<or> list_ex (\<lambda>root. case index_after keyword root of Some column \<Rightarrow> 1 \<le> column \<and> column \<le> columns | None \<Rightarrow> False)
          TABLE_COMPRESSION_INDEXED)"

section \<open>What the generated keywords hold\<close>

text \<open>The keywords that a data unit's size and kind are read from are all generated, so no template sets them.\<close>

lemma structure_generated:
  "list_all is_generated
     [''SIMPLE'', ''XTENSION'', ''BITPIX'', ''NAXIS'', ''PCOUNT'', ''GCOUNT'', ''EXTEND'', ''GROUPS'', ''ZIMAGE'', ''ZTABLE'',
      ''CHECKSUM'', ''DATASUM'', ''ZBITPIX'', ''ZNAXIS'']"
  by code_simp

lemma index_generated:
  assumes "root \<in> set STRUCTURE_INDEXED" and "index_after k root = Some n"
  shows "is_generated k"
  using assms by (auto simp: is_generated_def Let_def list_ex_iff)

lemma axis_generated:
  assumes "keyword_indexed ''NAXIS'' n = Inr k" and "0 < n" and "n \<le> usize_max"
  shows "is_generated k"
proof (rule index_generated)
  have "k = ''NAXIS'' @ show_nat n"
    using assms(1) by (simp add: keyword_indexed_def keyword_from_format_eq split: if_split_asm)
  then show "index_after k ''NAXIS'' = Some n" using assms(2,3) index_after_iff [of k "''NAXIS''" n] by simp
qed (simp add: STRUCTURE_INDEXED_def)

lemma table_compression_generated: "is_table_compression keyword columns \<Longrightarrow> is_generated keyword"
  by (auto simp: is_table_compression_def is_generated_def Let_def list_ex_iff split: option.split_asm)

end
