(* ===== verification/Hdu_Kind.thy ===== *)
theory Hdu_Kind
  imports Header_Model Reserved_Keywords
begin

text \<open>
  The kind of an HDU and the size of its data unit, from its header alone: \<^verbatim>\<open>src/hdu/hdu_kind/mod.rs\<close>; and the
  structural records that a written header opens with: \<^verbatim>\<open>src/hdu/prologue.rs\<close>.
\<close>

section \<open>The kind\<close>

datatype hdu_position = PrimaryPos | ExtensionPos

definition of_index :: "nat \<Rightarrow> hdu_position" where
  "of_index index = (if index = 0 then PrimaryPos else ExtensionPos)"

definition missing_keyword :: "keyword \<Rightarrow> failure" where
  "missing_keyword keyword = Err (MissingKeyword (KeywordName keyword))"

definition validate_random_groups_axes :: "nat list \<Rightarrow> unit run" where
  "validate_random_groups_axes axes =
     (case axes of
        [] \<Rightarrow> Inl (Err (InvalidKeywordValue ''NAXIS'' Structure))
      | first # _ \<Rightarrow>
          if first \<noteq> 0
          then bind (attempt (keyword_indexed ''NAXIS'' 1)) (\<lambda>k. Inl (Err (InvalidKeywordValue k Structure)))
          else Inr ())"

definition kind_from_header :: "header \<Rightarrow> hdu_position \<Rightarrow> hdu_kind run" where
  "kind_from_header h position =
     (if position = PrimaryPos
      then bind (get_logical h (KeywordName ''SIMPLE'')) (\<lambda>simple.
           bind (ok_or simple (missing_keyword ''SIMPLE'')) (\<lambda>_.
           bind (get_logical h (KeywordName ''GROUPS'')) (\<lambda>groups.
             if groups = Some True
             then bind (header_axes h) (\<lambda>axes. bind (validate_random_groups_axes axes) (\<lambda>_. Inr RandomGroups))
             else Inr Primary)))
      else bind (get_text h (KeywordName ''XTENSION'')) (\<lambda>text.
           bind (ok_or text (missing_keyword ''XTENSION'')) (\<lambda>xtension.
             if xtension = ''IMAGE'' then Inr ImageExt
             else if xtension = ''TABLE'' then Inr AsciiTable
             else if xtension = ''BINTABLE''
             then bind (get_logical h (KeywordName ''ZIMAGE'')) (\<lambda>zimage.
                  if zimage = Some True then Inr CompressedImage
                  else bind (get_logical h (KeywordName ''ZTABLE'')) (\<lambda>ztable.
                  if ztable = Some True then Inr CompressedTable else Inr BinTable))
             else Inr OtherExt)))"

section \<open>The size of the data unit\<close>

definition axis_product :: "nat list \<Rightarrow> nat \<Rightarrow> nat run" where
  "axis_product axes vacant =
     (if List.member axes 0 then Inr 0
      else if axes = [] then Inr vacant
      else ok_or (checked_product u64_max 1 axes) (Err DataUnitOverflow))"

record group_counts =
  gr_pcount :: nat
  gr_gcount :: nat

text \<open>One of the two required counts; \<^verbatim>\<open>cast_unsigned\<close> of a count that is not negative is the count.\<close>

definition required_count :: "header \<Rightarrow> keyword \<Rightarrow> nat run" where
  "required_count h keyword =
     bind (get_integer h (KeywordName keyword)) (\<lambda>v.
     bind (ok_or v (missing_keyword keyword)) (\<lambda>count.
       if count < 0 then Inl (Err (InvalidKeywordValue keyword RangeDefect)) else Inr (nat count)))"

definition required_group_counts :: "header \<Rightarrow> group_counts run" where
  "required_group_counts h =
     bind (required_count h ''PCOUNT'') (\<lambda>pcount.
     bind (required_count h ''GCOUNT'') (\<lambda>gcount.
       Inr \<lparr>gr_pcount = pcount, gr_gcount = gcount\<rparr>))"

definition grouped_data_bytes :: "nat \<Rightarrow> nat \<Rightarrow> header \<Rightarrow> nat run" where
  "grouped_data_bytes elem array_elements h =
     bind (required_group_counts h) (\<lambda>counts.
     bind (ok_or (checked_add u64_max (gr_pcount counts) array_elements) (Err DataUnitOverflow)) (\<lambda>group_size.
       ok_or (Option.bind (checked_mul u64_max elem (gr_gcount counts)) (\<lambda>bytes. checked_mul u64_max bytes group_size))
         (Err DataUnitOverflow)))"

definition data_bytes :: "hdu_kind \<Rightarrow> header \<Rightarrow> nat run" where
  "data_bytes kind h =
     bind (header_bitpix h) (\<lambda>bitpix.
     bind (header_axes h) (\<lambda>axes.
     let elem = bitpix_elem_size bitpix
     in bind (case kind of
                Primary \<Rightarrow> bind (axis_product axes 0) (\<lambda>n. ok_or (checked_mul u64_max elem n) (Err DataUnitOverflow))
              | RandomGroups \<Rightarrow>
                  (case axes of
                     [] \<Rightarrow> Inl Panic
                   | _ # array_axes \<Rightarrow> bind (axis_product array_axes 1) (\<lambda>n. grouped_data_bytes elem n h))
              | _ \<Rightarrow> bind (axis_product axes 0) (\<lambda>n. grouped_data_bytes elem n h))
       (\<lambda>data_bytes. bind (ok_or (padded_len data_bytes) (Err DataUnitOverflow)) (\<lambda>_. Inr data_bytes))))"

section \<open>The prologue of a written header\<close>

datatype xtension = XImage | XTable | XBinTable

datatype header_opening = OpenPrimary | OpenExtension xtension

record prologue =
  pr_opening :: header_opening
  pr_bitpix :: bitpix
  pr_axes :: "nat list"
  pr_pcount :: nat

definition set_commented :: "header \<Rightarrow> keyword \<Rightarrow> hvalue \<Rightarrow> string \<Rightarrow> header run" where
  "set_commented h keyword v comment =
     bind (set_internal h (KeywordName keyword) v) (\<lambda>h. set_comment_internal h (KeywordName keyword) comment)"

fun xtension_name :: "xtension \<Rightarrow> string" where
  "xtension_name XImage = ''IMAGE''"
| "xtension_name XTable = ''TABLE''"
| "xtension_name XBinTable = ''BINTABLE''"

fun xtension_comment :: "xtension \<Rightarrow> string" where
  "xtension_comment XImage = ''image extension''"
| "xtension_comment XTable = ''ASCII table extension''"
| "xtension_comment XBinTable = ''binary table extension''"

definition prologue_open :: "header_opening \<Rightarrow> header \<Rightarrow> header run" where
  "prologue_open head h =
     (case head of
        OpenPrimary \<Rightarrow> set_commented h ''SIMPLE'' (VLogical True) ''file conforms to FITS standard''
      | OpenExtension kind \<Rightarrow> set_commented h ''XTENSION'' (value_from_text (xtension_name kind)) (xtension_comment kind))"

text \<open>The axis records, from the axis number on.\<close>

fun prologue_axes :: "nat \<Rightarrow> nat list \<Rightarrow> header \<Rightarrow> header run" where
  "prologue_axes n [] h = Inr h"
| "prologue_axes n (len # lens) h =
     bind (attempt (keyword_indexed ''NAXIS'' n)) (\<lambda>keyword.
     bind (attempt (fits_i64 len)) (\<lambda>v.
     bind (set_internal h (KeywordName keyword) (VInteger (IntI64 v))) (prologue_axes (n + 1) lens)))"

definition prologue_close :: "header_opening \<Rightarrow> nat \<Rightarrow> header \<Rightarrow> header run" where
  "prologue_close head pcount h =
     (case head of
        OpenPrimary \<Rightarrow>
          if pcount \<noteq> 0 then Inl Panic else set_commented h ''EXTEND'' (VLogical True) ''extensions may follow''
      | OpenExtension _ \<Rightarrow>
          bind (attempt (fits_i64 pcount)) (\<lambda>v.
          bind (set_internal h (KeywordName ''PCOUNT'') (VInteger (IntI64 v))) (\<lambda>h.
            set_internal h (KeywordName ''GCOUNT'') (VInteger (IntI64 1)))))"

definition prologue_header :: "prologue \<Rightarrow> header run" where
  "prologue_header p =
     (if length (pr_axes p) > 999 then Inl (Err (InvalidKeywordValue ''NAXIS'' RangeDefect))
      else bind (prologue_open (pr_opening p) header_new) (\<lambda>h.
           bind (set_commented h ''BITPIX'' (VInteger (IntI64 (bitpix_code (pr_bitpix p)))) ''number of bits per data value'') (\<lambda>h.
           bind (attempt (fits_i64 (length (pr_axes p)))) (\<lambda>naxis.
           bind (set_commented h ''NAXIS'' (VInteger (IntI64 naxis)) ''number of data axes'') (\<lambda>h.
           bind (prologue_axes 1 (pr_axes p) h) (prologue_close (pr_opening p) (pr_pcount p)))))))"

end
