(* ===== verification/Byte_Source.thy ===== *)
theory Byte_Source
  imports Blocks
begin

text \<open>
  The byte sources that header and data units are fetched from: \<^verbatim>\<open>src/reader/source.rs\<close>. A stream's reader is any
  \<^verbatim>\<open>Read + Seek\<close>: its operations are the record \<open>seek_ops\<close>, a parameter, with what the standard library documents of
  them as the locale \<open>seek_reader\<close>. The contract that both sources keep is the locale \<open>byte_source\<close>.
\<close>

section \<open>A range of a source\<close>

definition check_range :: "nat \<Rightarrow> nat \<Rightarrow> nat \<Rightarrow> unit fits_result" where
  "check_range offset len extent =
     (case checked_add u64_max offset len of
        None \<Rightarrow> Inl UnexpectedEof
      | Some end_at \<Rightarrow> if end_at > extent then Inl UnexpectedEof else Inr ())"

lemma check_range_ok: "check_range offset len extent = Inr () \<longleftrightarrow> offset + len \<le> extent \<and> offset + len \<le> u64_max"
  by (auto simp: check_range_def checked_add_def)

lemma check_range_err: "check_range offset len extent = Inl e \<Longrightarrow> e = UnexpectedEof"
  by (auto simp: check_range_def checked_add_def split: if_split_asm)

section \<open>The resident source\<close>

type_synonym slice_source = bytes

definition slice_size :: "slice_source \<Rightarrow> nat" where "slice_size s = length s"

definition slice_range :: "slice_source \<Rightarrow> nat \<Rightarrow> nat \<Rightarrow> bytes fits_result" where
  "slice_range s offset len =
     bind (check_range offset len (length s)) (\<lambda>_. Inr (take len (drop offset s)))"

definition slice_slice :: "nat \<Rightarrow> nat \<Rightarrow> slice_source \<Rightarrow> bytes run \<times> slice_source" where
  "slice_slice offset len s = (attempt (slice_range s offset len), s)"

definition slice_read_append :: "(nat \<Rightarrow> bool) \<Rightarrow> nat \<Rightarrow> nat \<Rightarrow> bytes \<Rightarrow> slice_source \<Rightarrow> bytes run \<times> slice_source" where
  "slice_read_append grant offset len out s =
     (attempt (bind (slice_range s offset len) (\<lambda>bs. bind (try_reserve grant 1 out len) (\<lambda>_. Inr (out @ bs)))), s)"

text \<open>A read into a buffer gives the buffer's bytes.\<close>

definition slice_read_into :: "nat \<Rightarrow> nat \<Rightarrow> slice_source \<Rightarrow> bytes run \<times> slice_source" where
  "slice_read_into offset len s = (attempt (slice_range s offset len), s)"

definition slice_resident :: "slice_source \<Rightarrow> bytes option" where "slice_resident s = Some s"

section \<open>The streaming source\<close>

text \<open>
  The reader's operations: each gives the reader after it, and \<open>None\<close> or \<open>False\<close> when it fails. \<open>so_seek_end\<close> gives the
  position it moved to; \<open>so_read_up_to\<close> is \<^verbatim>\<open>take(len).read_to_end\<close>, the bytes read; \<open>so_read_exact\<close> fails when there are
  fewer bytes than it is to fill.
\<close>

record 'r seek_ops =
  so_seek_end :: "'r \<Rightarrow> nat option \<times> 'r"
  so_seek_start :: "nat \<Rightarrow> 'r \<Rightarrow> bool \<times> 'r"
  so_seek_relative :: "int \<Rightarrow> 'r \<Rightarrow> bool \<times> 'r"
  so_read_up_to :: "nat \<Rightarrow> 'r \<Rightarrow> bytes option \<times> 'r"
  so_read_exact :: "nat \<Rightarrow> 'r \<Rightarrow> bytes option \<times> 'r"

record 'r stream_source =
  ss_inner :: 'r
  ss_len :: nat
  ss_position :: "nat option"

definition stream_new :: "'r seek_ops \<Rightarrow> 'r \<Rightarrow> 'r stream_source fits_result" where
  "stream_new ops inner =
     (case so_seek_end ops inner of
        (None, _) \<Rightarrow> Inl Io
      | (Some len, inner) \<Rightarrow> Inr \<lparr>ss_inner = inner, ss_len = len, ss_position = Some len\<rparr>)"

definition stream_size :: "'r stream_source \<Rightarrow> nat" where "stream_size s = ss_len s"

text \<open>The hop between two offsets inside a file fits an \<^verbatim>\<open>i64\<close>, which the code \<^verbatim>\<open>expect\<close>s.\<close>

definition seek_to :: "'r seek_ops \<Rightarrow> nat \<Rightarrow> 'r stream_source \<Rightarrow> unit run \<times> 'r stream_source" where
  "seek_to ops offset s =
     (case ss_position s of
        Some position \<Rightarrow>
          if position = offset then (Inr (), s)
          else let s = s\<lparr>ss_position := None\<rparr>; hop = int offset - int position
               in if hop < i64_min \<or> i64_max < hop then (Inl Panic, s)
                  else (case so_seek_relative ops hop (ss_inner s) of
                          (ok, inner) \<Rightarrow> (if ok then Inr () else Inl (Err Io), s\<lparr>ss_inner := inner\<rparr>))
      | None \<Rightarrow>
          (case so_seek_start ops offset (ss_inner s) of
             (ok, inner) \<Rightarrow> (if ok then Inr () else Inl (Err Io), s\<lparr>ss_inner := inner\<rparr>)))"

definition read_at :: "'r seek_ops \<Rightarrow> (nat \<Rightarrow> bool) \<Rightarrow> nat \<Rightarrow> nat \<Rightarrow> bytes \<Rightarrow> 'r stream_source \<Rightarrow> bytes run \<times> 'r stream_source" where
  "read_at ops grant offset len out s =
     (case attempt (check_range offset len (ss_len s)) of
        Inl e \<Rightarrow> (Inl e, s)
      | Inr _ \<Rightarrow>
          (case seek_to ops offset s of
             (Inl e, s) \<Rightarrow> (Inl e, s)
           | (Inr _, s) \<Rightarrow>
               (case attempt (try_reserve grant 1 out len) of
                  Inl e \<Rightarrow> (Inl e, s)
                | Inr _ \<Rightarrow>
                    (case so_read_up_to ops len (ss_inner s) of
                       (None, inner) \<Rightarrow> (Inl (Err Io), s\<lparr>ss_inner := inner, ss_position := None\<rparr>)
                     | (Some bs, inner) \<Rightarrow>
                         (if length bs \<noteq> len then Inl (Err UnexpectedEof) else Inr (out @ bs),
                          s\<lparr>ss_inner := inner, ss_position := Some (offset + length bs)\<rparr>)))))"

definition stream_slice ::
  "'r seek_ops \<Rightarrow> (nat \<Rightarrow> bool) \<Rightarrow> nat \<Rightarrow> nat \<Rightarrow> nat \<Rightarrow> 'r stream_source \<Rightarrow> bytes run \<times> 'r stream_source" where
  "stream_slice ops grant capacity offset len s =
     (case attempt (bind (check_range offset len (ss_len s)) (\<lambda>_. try_grow_to grant 1 ([] :: bytes) capacity len)) of
        Inl e \<Rightarrow> (Inl e, s)
      | Inr _ \<Rightarrow> read_at ops grant offset len [] s)"

definition stream_read_append ::
  "'r seek_ops \<Rightarrow> (nat \<Rightarrow> bool) \<Rightarrow> nat \<Rightarrow> nat \<Rightarrow> bytes \<Rightarrow> 'r stream_source \<Rightarrow> bytes run \<times> 'r stream_source" where
  "stream_read_append ops grant offset len out s = read_at ops grant offset len out s"

definition stream_read_into :: "'r seek_ops \<Rightarrow> nat \<Rightarrow> nat \<Rightarrow> 'r stream_source \<Rightarrow> bytes run \<times> 'r stream_source" where
  "stream_read_into ops offset len s =
     (case attempt (check_range offset len (ss_len s)) of
        Inl e \<Rightarrow> (Inl e, s)
      | Inr _ \<Rightarrow>
          (case seek_to ops offset s of
             (Inl e, s) \<Rightarrow> (Inl e, s)
           | (Inr _, s) \<Rightarrow>
               (case so_read_exact ops len (ss_inner s) of
                  (None, inner) \<Rightarrow> (Inl (Err Io), s\<lparr>ss_inner := inner, ss_position := None\<rparr>)
                | (Some bs, inner) \<Rightarrow> (Inr bs, s\<lparr>ss_inner := inner, ss_position := Some (offset + len)\<rparr>))))"

definition stream_resident :: "'r stream_source \<Rightarrow> bytes option" where "stream_resident s = None"

section \<open>What a source promises\<close>

text \<open>
  A source has bytes that no read changes; a read that succeeds appends exactly the range it was asked for. A
  \<open>steady_source\<close> refuses only a range past its end.
\<close>

locale byte_source =
  fixes bytes_of :: "'s \<Rightarrow> bytes"
    and valid :: "'s \<Rightarrow> bool"
    and size_of :: "'s \<Rightarrow> nat"
    and read :: "nat \<Rightarrow> nat \<Rightarrow> bytes \<Rightarrow> 's \<Rightarrow> bytes run \<times> 's"
  assumes size_bytes: "valid s \<Longrightarrow> size_of s = length (bytes_of s)"
    and read_range: "valid s \<Longrightarrow> read offset len out s = (Inr got, s') \<Longrightarrow>
      offset + len \<le> length (bytes_of s) \<and> got = out @ take len (drop offset (bytes_of s))"
    and read_keeps: "valid s \<Longrightarrow> read offset len out s = (r, s') \<Longrightarrow> valid s' \<and> bytes_of s' = bytes_of s"
begin

lemma read_size: "valid s \<Longrightarrow> read offset len out s = (r, s') \<Longrightarrow> size_of s' = size_of s"
  using read_keeps size_bytes by metis

lemma read_length: "valid s \<Longrightarrow> read offset len out s = (Inr got, s') \<Longrightarrow> length got = length out + len"
  using read_range by fastforce

end

locale steady_source = byte_source +
  assumes read_inside: "valid s \<Longrightarrow> offset + len \<le> length (bytes_of s) \<Longrightarrow> length out + len \<le> length (bytes_of s) \<Longrightarrow>
      \<exists>s'. read offset len out s = (Inr (out @ take len (drop offset (bytes_of s))), s')"

section \<open>What a reader promises\<close>

locale seek_reader =
  fixes ops :: "'r seek_ops"
    and contents :: "'r \<Rightarrow> bytes"
    and position :: "'r \<Rightarrow> nat"
  assumes seek_end: "so_seek_end ops r = (end_at, r') \<Longrightarrow>
      contents r' = contents r \<and> (case end_at of None \<Rightarrow> True | Some n \<Rightarrow> n = length (contents r) \<and> position r' = n)"
    and seek_start: "so_seek_start ops n r = (done_ok, r') \<Longrightarrow> contents r' = contents r \<and> (done_ok \<longrightarrow> position r' = n)"
    and seek_relative: "so_seek_relative ops hop r = (done_ok, r') \<Longrightarrow>
      contents r' = contents r \<and> (done_ok \<longrightarrow> int (position r') = int (position r) + hop)"
    and read_up_to: "so_read_up_to ops n r = (res, r') \<Longrightarrow> contents r' = contents r \<and>
      (case res of None \<Rightarrow> True | Some bs \<Rightarrow> bs = take n (drop (position r) (contents r)) \<and> position r' = position r + length bs)"
    and read_exact: "so_read_exact ops n r = (res, r') \<Longrightarrow> contents r' = contents r \<and>
      (case res of None \<Rightarrow> True
       | Some bs \<Rightarrow> bs = take n (drop (position r) (contents r)) \<and> length bs = n \<and> position r' = position r + n)"
begin

definition stream_valid :: "'r stream_source \<Rightarrow> bool" where
  "stream_valid s \<longleftrightarrow> ss_len s = length (contents (ss_inner s))
     \<and> (case ss_position s of None \<Rightarrow> True | Some p \<Rightarrow> position (ss_inner s) = p)"

definition stream_bytes :: "'r stream_source \<Rightarrow> bytes" where
  "stream_bytes s = contents (ss_inner s)"

lemma stream_new_valid: "stream_new ops r = Inr s \<Longrightarrow> stream_valid s \<and> stream_bytes s = contents r"
  using seek_end [of r] by (cases "so_seek_end ops r")
    (auto simp: stream_new_def stream_valid_def stream_bytes_def split: option.split_asm)

lemma seek_to_keeps:
  assumes "stream_valid s" and "seek_to ops offset s = (res, s')"
  shows "stream_valid s' \<and> stream_bytes s' = stream_bytes s \<and> ss_len s' = ss_len s
    \<and> (res = Inr () \<longrightarrow> position (ss_inner s') = offset)"
proof (cases "ss_position s")
  case None
  obtain ok r where "so_seek_start ops offset (ss_inner s) = (ok, r)" by (meson surj_pair)
  then show ?thesis using assms None seek_start [of offset "ss_inner s" ok r]
    by (auto simp: seek_to_def stream_valid_def stream_bytes_def split: if_split_asm)
next
  case (Some p)
  obtain ok r where "so_seek_relative ops (int offset - int p) (ss_inner s) = (ok, r)" by (meson surj_pair)
  then show ?thesis using assms Some seek_relative [of "int offset - int p" "ss_inner s" ok r]
    by (auto simp: seek_to_def Let_def stream_valid_def stream_bytes_def split: if_split_asm)
qed

lemma read_at_keeps:
  assumes "stream_valid s" and "read_at ops grant offset len out s = (res, s')"
  shows "stream_valid s' \<and> stream_bytes s' = stream_bytes s \<and> ss_len s' = ss_len s
    \<and> (\<forall>got. res = Inr got \<longrightarrow> offset + len \<le> length (stream_bytes s) \<and> got = out @ take len (drop offset (stream_bytes s)))"
proof (cases "attempt (check_range offset len (ss_len s))")
  case (Inl e)
  then show ?thesis using assms by (auto simp: read_at_def)
next
  case (Inr u)
  obtain res1 s1 where s1: "seek_to ops offset s = (res1, s1)" by (meson surj_pair)
  note k = seek_to_keeps [OF assms(1) s1]
  show ?thesis
  proof (cases res1)
    case (Inl e)
    then show ?thesis using assms Inr s1 k by (auto simp: read_at_def)
  next
    case [simp]: (Inr u1)
    obtain got r where r: "so_read_up_to ops len (ss_inner s1) = (got, r)" by (meson surj_pair)
    have c: "offset + len \<le> ss_len s" using \<open>attempt (check_range offset len (ss_len s)) = Inr u\<close>
      by (simp add: attempt_eq_Inr check_range_ok)
    then show ?thesis
      using assms(2) k r read_up_to [OF r] \<open>attempt (check_range offset len (ss_len s)) = Inr u\<close> s1
      by (auto simp: read_at_def stream_valid_def stream_bytes_def split: sum.split_asm option.split_asm if_split_asm)
  qed
qed

end

text \<open>A stream over any such reader is a source.\<close>

sublocale seek_reader \<subseteq> stream: byte_source stream_bytes stream_valid stream_size "stream_read_append ops grant" for grant
proof
  fix s :: "'r stream_source" and offset len out got s' r
  show "stream_valid s \<Longrightarrow> stream_size s = length (stream_bytes s)"
    by (simp add: stream_valid_def stream_size_def stream_bytes_def)
  show "stream_valid s \<Longrightarrow> stream_read_append ops grant offset len out s = (Inr got, s') \<Longrightarrow>
    offset + len \<le> length (stream_bytes s) \<and> got = out @ take len (drop offset (stream_bytes s))"
    using read_at_keeps by (simp add: stream_read_append_def)
  show "stream_valid s \<Longrightarrow> stream_read_append ops grant offset len out s = (r, s') \<Longrightarrow>
    stream_valid s' \<and> stream_bytes s' = stream_bytes s"
    using read_at_keeps by (simp add: stream_read_append_def)
qed

section \<open>The resident source keeps the contract\<close>

text \<open>The resident bytes that any 64-bit address space holds.\<close>

definition resident_valid :: "slice_source \<Rightarrow> bool" where
  "resident_valid s \<longleftrightarrow> length s \<le> u64_max"

interpretation resident: byte_source "\<lambda>s. s" resident_valid slice_size "slice_read_append grant" for grant
  by unfold_locales
    (auto simp: slice_size_def slice_read_append_def slice_range_def attempt_eq_Inr bind_eq_Inr check_range_ok)

interpretation steady: steady_source "\<lambda>s. s" resident_valid slice_size "slice_read_append (\<lambda>n. n \<le> u64_max)"
  by unfold_locales
    (auto simp: slice_read_append_def slice_range_def attempt_eq_Inr bind_eq_Inr check_range_ok resident_valid_def
      try_reserve_def checked_add_def usize_max_def u64_max_def)

section \<open>A cursor over bytes\<close>

text \<open>\<^verbatim>\<open>std::io::Cursor\<close> over bytes in memory, which no operation fails on but a seek before the start and an exact
  read past the end.\<close>

record cursor =
  cu_bytes :: bytes
  cu_position :: nat

definition cursor_ops :: "cursor seek_ops" where
  "cursor_ops = \<lparr>
     so_seek_end = (\<lambda>c. (Some (length (cu_bytes c)), c\<lparr>cu_position := length (cu_bytes c)\<rparr>)),
     so_seek_start = (\<lambda>n c. (True, c\<lparr>cu_position := n\<rparr>)),
     so_seek_relative = (\<lambda>hop c. if int (cu_position c) + hop < 0 then (False, c)
                                 else (True, c\<lparr>cu_position := nat (int (cu_position c) + hop)\<rparr>)),
     so_read_up_to = (\<lambda>n c. let bs = take n (drop (cu_position c) (cu_bytes c))
                            in (Some bs, c\<lparr>cu_position := cu_position c + length bs\<rparr>)),
     so_read_exact = (\<lambda>n c. let bs = take n (drop (cu_position c) (cu_bytes c))
                            in if length bs < n then (None, c\<lparr>cu_position := length (cu_bytes c)\<rparr>)
                               else (Some bs, c\<lparr>cu_position := cu_position c + n\<rparr>))\<rparr>"

interpretation cursor: seek_reader cursor_ops cu_bytes cu_position
  by unfold_locales (auto simp: cursor_ops_def Let_def split: if_split_asm)

end
