(* ===== verification/Hdu_Scan.thy ===== *)
theory Hdu_Scan
  imports Hdu_Kind Byte_Source
begin

text \<open>
  The HDU list that a scan of a file's headers finds: \<^verbatim>\<open>src/hdu/mod.rs\<close>, \<^verbatim>\<open>src/hdu/hdus/mod.rs\<close> and
  \<^verbatim>\<open>src/hdu/hdu_selector.rs\<close>. A source is its size and its read, as in \<open>byte_source\<close>. The two loops are
  \<open>partial_function\<close>s: \<open>None\<close> is a scan that does not end. The geometry and the schemas that an HDU keeps beside its
  header, which nothing here reads, are left out of its record.
\<close>

section \<open>An HDU\<close>

record hdu =
  hd_index :: nat
  hd_header :: header
  hd_kind :: hdu_kind
  hd_header_sum :: u32
  hd_header_offset :: nat
  hd_data_offset :: nat
  hd_header_blocks :: nat
  hd_data_bytes :: nat
  hd_padded :: nat

record header_unit =
  hu_bytes :: bytes
  hu_sum :: u32
  hu_offset :: nat

definition hdu_parse :: "nat \<Rightarrow> header_unit \<Rightarrow> hdu run" where
  "hdu_parse index unit =
     bind (header_parse (hu_bytes unit)) (\<lambda>h.
     bind (kind_from_header h (of_index index)) (\<lambda>kind.
     bind (data_bytes kind h) (\<lambda>data_bytes.
       case padded_len data_bytes of
         None \<Rightarrow> Inl Panic
       | Some padded \<Rightarrow>
           Inr \<lparr>hd_index = index, hd_header = h, hd_kind = kind, hd_header_sum = hu_sum unit,
                hd_header_offset = hu_offset unit, hd_data_offset = hu_offset unit + length (hu_bytes unit),
                hd_header_blocks = length (hu_bytes unit) div BLOCK_SIZE, hd_data_bytes = data_bytes, hd_padded = padded\<rparr>)))"

text \<open>A rank that does not read is no image's.\<close>

definition is_image :: "hdu \<Rightarrow> bool" where
  "is_image hdu =
     (let positive = (\<lambda>rank. case rank of Inr (Some rank) \<Rightarrow> 0 < rank | _ \<Rightarrow> False)
      in case hd_kind hdu of
           Primary \<Rightarrow> positive (get_integer (hd_header hdu) (KeywordName ''NAXIS''))
         | ImageExt \<Rightarrow> positive (get_integer (hd_header hdu) (KeywordName ''NAXIS''))
         | CompressedImage \<Rightarrow> positive (get_integer (hd_header hdu) (KeywordName ''ZNAXIS''))
         | _ \<Rightarrow> False)"

section \<open>The scan\<close>

datatype next_header = NextFound bytes u32 | NextEnd | NextTrailing

record 's scan =
  sc_source :: 's
  sc_offset :: nat

type_synonym 's read_append = "nat \<Rightarrow> nat \<Rightarrow> bytes \<Rightarrow> 's \<Rightarrow> bytes run \<times> 's"

definition block_has_end :: "bytes \<Rightarrow> bool" where
  "block_has_end block = list_ex is_end_record (filter (\<lambda>card. length card = CARD_SIZE) (as_chunks CARD_SIZE block))"

text \<open>What the first block of a unit decides before it is taken: \<open>None\<close> when it opens a header.\<close>

definition first_block :: "hdu_position \<Rightarrow> bytes \<Rightarrow> next_header run option" where
  "first_block position block =
     (let keyword = take 8 block
      in if position = PrimaryPos \<and> keyword \<noteq> as_bytes ''SIMPLE  '' then Some (Inl (missing_keyword ''SIMPLE''))
         else if position = ExtensionPos \<and> keyword \<noteq> as_bytes ''XTENSION'' then Some (Inr NextTrailing)
         else None)"

partial_function (option) read_header ::
  "'s read_append \<Rightarrow> nat \<Rightarrow> hdu_position \<Rightarrow> bytes \<Rightarrow> u32 \<Rightarrow> 's scan \<Rightarrow> (next_header run \<times> 's scan) option" where
  "read_header read extent position bytes unit_sum sc =
     (if extent < sc_offset sc then Some (Inl Panic, sc)
      else if extent = sc_offset sc
      then Some (if bytes = [] then Inr NextEnd else Inl (Err UnexpectedEof), sc)
      else if extent - sc_offset sc < BLOCK_SIZE
      then Some (if bytes = [] then Inr NextTrailing else Inl (Err UnexpectedEof), sc)
      else (case read (sc_offset sc) BLOCK_SIZE bytes (sc_source sc) of
              (Inl e, s) \<Rightarrow> Some (Inl e, sc\<lparr>sc_source := s\<rparr>)
            | (Inr grown, s) \<Rightarrow>
                let sc = sc\<lparr>sc_source := s\<rparr>; block = drop (length bytes) grown
                in case (if bytes = [] then first_block position block else None) of
                     Some result \<Rightarrow> Some (result, sc)
                   | None \<Rightarrow>
                       let sc = sc\<lparr>sc_offset := sc_offset sc + BLOCK_SIZE\<rparr>; unit_sum = accumulate block unit_sum
                       in if block_has_end block then Some (Inr (NextFound grown unit_sum), sc)
                          else read_header read extent position grown unit_sum sc))"

definition next_header :: "('s \<Rightarrow> nat) \<Rightarrow> 's read_append \<Rightarrow> hdu_position \<Rightarrow> 's scan \<Rightarrow> (next_header run \<times> 's scan) option" where
  "next_header size_of read position sc = read_header read (size_of (sc_source sc)) position [] 0 sc"

text \<open>The HDU that a header unit opens, and the scan moved past its data unit.\<close>

definition take_unit :: "('s \<Rightarrow> nat) \<Rightarrow> nat \<Rightarrow> next_header run \<Rightarrow> 's scan \<Rightarrow> hdu option run \<times> 's scan" where
  "take_unit size_of index found sc =
     (case found of
        Inr (NextFound bytes unit_sum) \<Rightarrow>
          (case hdu_parse index \<lparr>hu_bytes = bytes, hu_sum = unit_sum, hu_offset = sc_offset sc - length bytes\<rparr> of
             Inl e \<Rightarrow> (Inl e, sc)
           | Inr hdu \<Rightarrow>
               (case checked_add u64_max (hd_data_offset hdu) (hd_padded hdu) of
                  None \<Rightarrow> (Inl (Err DataUnitOverflow), sc)
                | Some next \<Rightarrow> (Inr (Some hdu), sc\<lparr>sc_offset := min next (size_of (sc_source sc))\<rparr>)))
      | Inr _ \<Rightarrow> (Inr None, sc)
      | Inl e \<Rightarrow> (Inl e, sc))"

definition next_hdu :: "('s \<Rightarrow> nat) \<Rightarrow> 's read_append \<Rightarrow> nat \<Rightarrow> 's scan \<Rightarrow> (hdu option run \<times> 's scan) option" where
  "next_hdu size_of read index sc =
     map_option (\<lambda>(found, sc). take_unit size_of index found sc) (next_header size_of read (of_index index) sc)"

record hdus =
  hs_list :: "hdu list"
  hs_defect :: "fits_error option"

partial_function (option) scan_loop ::
  "('s \<Rightarrow> nat) \<Rightarrow> 's read_append \<Rightarrow> hdu list \<Rightarrow> 's scan \<Rightarrow> (hdus run \<times> 's) option" where
  "scan_loop size_of read found sc =
     Option.bind (next_hdu size_of read (length found) sc) (\<lambda>(result, sc).
       case result of
         Inr (Some hdu) \<Rightarrow> scan_loop size_of read (found @ [hdu]) sc
       | Inr None \<Rightarrow>
           Some (if found = [] then Inl (Err UnexpectedEof) else Inr \<lparr>hs_list = found, hs_defect = None\<rparr>, sc_source sc)
       | Inl Panic \<Rightarrow> Some (Inl Panic, sc_source sc)
       | Inl (Err e) \<Rightarrow>
           Some (if e = Io \<or> found = [] then Inl (Err e) else Inr \<lparr>hs_list = found, hs_defect = Some e\<rparr>, sc_source sc))"

definition hdus_scan :: "('s \<Rightarrow> nat) \<Rightarrow> 's read_append \<Rightarrow> 's \<Rightarrow> (hdus run \<times> 's) option" where
  "hdus_scan size_of read source = scan_loop size_of read [] \<lparr>sc_source = source, sc_offset = 0\<rparr>"

section \<open>Selection\<close>

datatype hdu_selector =
    SelIndex nat
  | SelExtension string "int option" "int option"

definition extname :: "hdu \<Rightarrow> string option run" where
  "extname hdu = get_text (hd_header hdu) (KeywordName ''EXTNAME'')"

definition extver :: "hdu \<Rightarrow> int run" where
  "extver hdu = bind (get_integer (hd_header hdu) (KeywordName ''EXTVER'')) (\<lambda>v. Inr (case v of Some v \<Rightarrow> v | None \<Rightarrow> 1))"

definition extlevel :: "hdu \<Rightarrow> int run" where
  "extlevel hdu = bind (get_integer (hd_header hdu) (KeywordName ''EXTLEVEL'')) (\<lambda>v. Inr (case v of Some v \<Rightarrow> v | None \<Rightarrow> 1))"

text \<open>A field that the selector gives must be the one asked for; it is read only then.\<close>

definition field_matches :: "int option \<Rightarrow> int run \<Rightarrow> bool run" where
  "field_matches wanted own =
     (case wanted of None \<Rightarrow> Inr True | Some v \<Rightarrow> bind own (\<lambda>own. Inr (own = v)))"

definition hdu_matches :: "hdu \<Rightarrow> hdu_selector \<Rightarrow> bool run" where
  "hdu_matches hdu selector =
     (case selector of
        SelIndex index \<Rightarrow> Inr (index = hd_index hdu)
      | SelExtension name version level \<Rightarrow>
          (case (case extname hdu of
                   Inl Panic \<Rightarrow> Inl Panic
                 | Inr (Some own) \<Rightarrow> Inr (Some own)
                 | Inr None \<Rightarrow> Inr (if hd_index hdu = 0 then Some ''PRIMARY'' else None)
                 | Inl (Err _) \<Rightarrow> Inr None) of
             Inl e \<Rightarrow> Inl e
           | Inr None \<Rightarrow> Inr False
           | Inr (Some own) \<Rightarrow>
               if \<not> eq_ignore_case own name then Inr False
               else bind (field_matches version (extver hdu)) (\<lambda>same.
                      if same then field_matches level (extlevel hdu) else Inr False)))"

fun find_hdu :: "hdu list \<Rightarrow> hdu_selector \<Rightarrow> hdu option run" where
  "find_hdu [] selector = Inr None"
| "find_hdu (hdu # rest) selector =
     bind (hdu_matches hdu selector) (\<lambda>found. if found then Inr (Some hdu) else find_hdu rest selector)"

definition hdus_select :: "hdus \<Rightarrow> hdu_selector \<Rightarrow> hdu run" where
  "hdus_select hs selector =
     (case selector of
        SelIndex index \<Rightarrow>
          if index < length (hs_list hs) then Inr (hs_list hs ! index)
          else (case hs_defect hs of
                  Some e \<Rightarrow> if index = length (hs_list hs) then Inl (Err (DefectiveHdu index e))
                            else Inl (Err (IndexOutOfBounds IxHdu index (length (hs_list hs))))
                | None \<Rightarrow> Inl (Err (IndexOutOfBounds IxHdu index (length (hs_list hs)))))
      | SelExtension name version level \<Rightarrow>
          bind (find_hdu (hs_list hs) selector) (\<lambda>found.
            ok_or found (Err (HduNotFound name version level))))"

definition hdus_images :: "hdus \<Rightarrow> hdu list" where
  "hdus_images hs = filter is_image (hs_list hs)"

definition hdus_last :: "hdus \<Rightarrow> hdu run" where
  "hdus_last hs = (if hs_list hs = [] then Inl Panic else Inr (last (hs_list hs)))"

definition hdus_replace :: "hdus \<Rightarrow> hdu \<Rightarrow> hdus run" where
  "hdus_replace hs hdu =
     (if hd_index hdu < length (hs_list hs) then Inr (hs\<lparr>hs_list := (hs_list hs)[hd_index hdu := hdu]\<rparr>) else Inl Panic)"

end
