(* ===== verification/Hdu_Scan_Correct.thy ===== *)
theory Hdu_Scan_Correct
  imports Hdu_Scan
begin

text \<open>
  What a scan finds, proved once for every source that keeps the \<open>byte_source\<close> contract: the scan ends, the HDUs
  stand one after the other on the block grid, and each is what its own bytes parse to.
\<close>

section \<open>The layout of a scanned file\<close>

definition unit_bytes :: "bytes \<Rightarrow> nat \<Rightarrow> nat \<Rightarrow> bytes" where
  "unit_bytes file offset blocks = take (blocks * BLOCK_SIZE) (drop offset file)"

definition hdu_end :: "hdu \<Rightarrow> nat" where
  "hdu_end u = hd_data_offset u + hd_padded u"

definition hdu_at :: "bytes \<Rightarrow> hdu \<Rightarrow> bool" where
  "hdu_at file u \<longleftrightarrow>
     (let unit = unit_bytes file (hd_header_offset u) (hd_header_blocks u)
      in 0 < hd_header_blocks u \<and> hd_data_offset u = hd_header_offset u + hd_header_blocks u * BLOCK_SIZE
         \<and> hd_data_offset u \<le> length file \<and> hdu_end u \<le> u64_max
         \<and> hdu_parse (hd_index u) \<lparr>hu_bytes = unit, hu_sum = accumulate unit 0, hu_offset = hd_header_offset u\<rparr> = Inr u)"

definition scan_layout :: "bytes \<Rightarrow> hdu list \<Rightarrow> bool" where
  "scan_layout file us \<longleftrightarrow> (\<forall>i < length us. hd_index (us ! i) = i \<and> hdu_at file (us ! i)
     \<and> hd_header_offset (us ! i) = (if i = 0 then 0 else hdu_end (us ! (i - 1))))"

definition list_end :: "hdu list \<Rightarrow> nat" where
  "list_end us = (if us = [] then 0 else hdu_end (last us))"

lemma layout_snoc:
  "scan_layout file (us @ [u]) \<longleftrightarrow> scan_layout file us \<and> hd_index u = length us \<and> hdu_at file u \<and> hd_header_offset u = list_end us"
proof
  assume l: "scan_layout file (us @ [u])"
  then have "scan_layout file us"
    unfolding scan_layout_def
  proof (intro allI impI)
    fix i assume i: "i < length us"
    then have n: "(us @ [u]) ! i = us ! i" "(us @ [u]) ! (i - 1) = us ! (i - 1)" by (simp_all add: nth_append)
    show "hd_index (us ! i) = i \<and> hdu_at file (us ! i) \<and> hd_header_offset (us ! i) = (if i = 0 then 0 else hdu_end (us ! (i - 1)))"
      using l [unfolded scan_layout_def, rule_format, of i] i unfolding n by simp
  qed
  moreover have "hd_index u = length us \<and> hdu_at file u \<and> hd_header_offset u = list_end us"
    using l [unfolded scan_layout_def, rule_format, of "length us"]
    by (auto simp: list_end_def nth_append last_conv_nth)
  ultimately show "scan_layout file us \<and> hd_index u = length us \<and> hdu_at file u \<and> hd_header_offset u = list_end us" by simp
next
  assume "scan_layout file us \<and> hd_index u = length us \<and> hdu_at file u \<and> hd_header_offset u = list_end us"
  then show "scan_layout file (us @ [u])"
    unfolding scan_layout_def by (auto simp: nth_append less_Suc_eq list_end_def last_conv_nth)
qed

lemma layout_Nil [simp]: "scan_layout file []"
  by (simp add: scan_layout_def)

section \<open>A header unit\<close>

lemma unit_bytes_Suc:
  "unit_bytes file offset (Suc n) = take BLOCK_SIZE (drop offset file) @ unit_bytes file (offset + BLOCK_SIZE) n"
  by (simp add: unit_bytes_def take_add add.commute)

lemma hdu_parse_fields:
  assumes "hdu_parse index unit = Inr u"
  shows "hd_index u = index" "hd_header_sum u = hu_sum unit" "hd_header_offset u = hu_offset unit"
    "hd_data_offset u = hu_offset unit + length (hu_bytes unit)" "hd_header_blocks u = length (hu_bytes unit) div BLOCK_SIZE"
    "header_parse (hu_bytes unit) = Inr (hd_header u)" "kind_from_header (hd_header u) (of_index index) = Inr (hd_kind u)"
    "data_bytes (hd_kind u) (hd_header u) = Inr (hd_data_bytes u)" "padded_len (hd_data_bytes u) = Some (hd_padded u)"
  using assms by (auto simp: hdu_parse_def bind_eq_Inr split: option.split_asm)

context byte_source
begin

text \<open>Where a read of a header unit ends: past whole blocks, never past the source.\<close>

definition header_read :: "nat \<Rightarrow> bytes \<Rightarrow> u32 \<Rightarrow> 's scan \<Rightarrow> next_header run \<times> 's scan \<Rightarrow> bool" where
  "header_read extent bytes unit_sum sc out \<longleftrightarrow>
     (let file = bytes_of (sc_source sc); sc' = snd out
      in valid (sc_source sc') \<and> bytes_of (sc_source sc') = file
         \<and> (case fst out of
              Inr (NextFound got t) \<Rightarrow>
                \<exists>n > 0. sc_offset sc' = sc_offset sc + n * BLOCK_SIZE \<and> sc_offset sc' \<le> extent
                  \<and> got = bytes @ unit_bytes file (sc_offset sc) n \<and> t = accumulate (unit_bytes file (sc_offset sc) n) unit_sum
            | _ \<Rightarrow> True))"

text \<open>One block read: the unit ends with it, or goes on after it.\<close>

lemma header_read_block:
  assumes "valid s" "bytes_of s = bytes_of (sc_source sc)" and "sc_offset sc + BLOCK_SIZE \<le> extent"
    and "block = unit_bytes (bytes_of (sc_source sc)) (sc_offset sc) 1"
  shows "header_read extent bytes unit_sum sc
    (Inr (NextFound (bytes @ block) (accumulate block unit_sum)), sc\<lparr>sc_source := s, sc_offset := sc_offset sc + BLOCK_SIZE\<rparr>)"
  unfolding header_read_def Let_def assms(4) using assms(1-3) by (simp, intro exI [of _ "1::nat"]) simp

lemma header_read_more:
  assumes "valid s" "bytes_of s = bytes_of (sc_source sc)" and "4 dvd length block"
    and "block = unit_bytes (bytes_of (sc_source sc)) (sc_offset sc) 1"
    and out: "header_read extent (bytes @ block) (accumulate block unit_sum) (sc\<lparr>sc_source := s, sc_offset := sc_offset sc + BLOCK_SIZE\<rparr>) out"
  shows "header_read extent bytes unit_sum sc out"
proof -
  let ?f = "bytes_of (sc_source sc)"
  have more: "\<exists>n > 0. o' = sc_offset sc + n * BLOCK_SIZE \<and> o' \<le> extent
      \<and> got = bytes @ unit_bytes ?f (sc_offset sc) n \<and> t = accumulate (unit_bytes ?f (sc_offset sc) n) unit_sum"
    if "0 < m" "o' = sc_offset sc + BLOCK_SIZE + m * BLOCK_SIZE" "o' \<le> extent"
      "got = (bytes @ block) @ unit_bytes ?f (sc_offset sc + BLOCK_SIZE) m"
      "t = accumulate (unit_bytes ?f (sc_offset sc + BLOCK_SIZE) m) (accumulate block unit_sum)" for m o' got t
  proof -
    have "unit_bytes ?f (sc_offset sc) (Suc m) = block @ unit_bytes ?f (sc_offset sc + BLOCK_SIZE) m"
      unfolding assms(4) by (simp add: unit_bytes_Suc) (simp add: unit_bytes_def)
    then show ?thesis using that accumulate_append [OF assms(3)] by (intro exI [of _ "Suc m"]) simp
  qed
  show ?thesis
    using out assms(2) more unfolding header_read_def Let_def by (auto split: sum.split next_header.split)
qed

lemma header_read_none: "valid (sc_source sc') \<Longrightarrow> bytes_of (sc_source sc') = bytes_of (sc_source sc) \<Longrightarrow>
    (\<And>got t. res \<noteq> Inr (NextFound got t)) \<Longrightarrow> header_read extent bytes unit_sum sc (res, sc')"
  by (auto simp: header_read_def split: sum.split next_header.split)

lemma read_header_step:
  assumes "valid (sc_source sc)" and "sc_offset sc + BLOCK_SIZE \<le> extent" and "extent = length (bytes_of (sc_source sc))"
  shows "(\<exists>out. read_header read extent position bytes unit_sum sc = Some out \<and> header_read extent bytes unit_sum sc out)
    \<or> (\<exists>block s. valid s \<and> bytes_of s = bytes_of (sc_source sc) \<and> block = unit_bytes (bytes_of (sc_source sc)) (sc_offset sc) 1
        \<and> read_header read extent position bytes unit_sum sc
          = read_header read extent position (bytes @ block) (accumulate block unit_sum) (sc\<lparr>sc_source := s, sc_offset := sc_offset sc + BLOCK_SIZE\<rparr>))"
proof -
  let ?off = "sc_offset sc"
  obtain r s where r: "read ?off BLOCK_SIZE bytes (sc_source sc) = (r, s)" by (meson surj_pair)
  note keeps = read_keeps [OF assms(1) r]
  have e: "extent \<noteq> ?off" "\<not> extent < ?off" "\<not> extent - ?off < BLOCK_SIZE" using assms(2) by (auto simp: BLOCK_SIZE_def)
  note step = read_header.simps [of read extent position bytes unit_sum sc]
  show ?thesis
  proof (cases r)
    case (Inl err)
    then have "read_header read extent position bytes unit_sum sc = Some (Inl err, sc\<lparr>sc_source := s\<rparr>)"
      using e r by (simp add: step)
    then show ?thesis using keeps header_read_none [of "sc\<lparr>sc_source := s\<rparr>" sc "Inl err"] by auto
  next
    case (Inr grown)
    define block where "block = unit_bytes (bytes_of (sc_source sc)) ?off 1"
    have g: "grown = bytes @ block"
      using read_range [OF assms(1) r [unfolded Inr]] by (simp add: block_def unit_bytes_def)
    show ?thesis
    proof (cases "if bytes = [] then first_block position block else None")
      case (Some res)
      then have "read_header read extent position bytes unit_sum sc = Some (res, sc\<lparr>sc_source := s\<rparr>)"
        using e r Inr g by (simp add: step Let_def)
      moreover have "\<And>got t. res \<noteq> Inr (NextFound got t)" using Some by (auto simp: first_block_def Let_def split: if_split_asm)
      ultimately show ?thesis using keeps header_read_none [of "sc\<lparr>sc_source := s\<rparr>" sc res] by auto
    next
      case None
      let ?sc = "sc\<lparr>sc_source := s, sc_offset := ?off + BLOCK_SIZE\<rparr>"
      have "read_header read extent position bytes unit_sum sc
        = (if block_has_end block then Some (Inr (NextFound grown (accumulate block unit_sum)), ?sc)
           else read_header read extent position grown (accumulate block unit_sum) ?sc)"
        using e r Inr g None by (simp add: step Let_def)
      then show ?thesis
        using keeps g header_read_block [of s sc extent block] assms(2) block_def by (cases "block_has_end block") auto
    qed
  qed
qed

lemma read_header_ends:
  assumes "valid (sc_source sc)" and "extent = length (bytes_of (sc_source sc))"
  shows "\<exists>out. read_header read extent position bytes unit_sum sc = Some out \<and> header_read extent bytes unit_sum sc out"
  using assms
proof (induction "extent - sc_offset sc" arbitrary: sc bytes unit_sum rule: less_induct)
  case less
  show ?case
  proof (cases "sc_offset sc + BLOCK_SIZE \<le> extent")
    case False
    then have "\<exists>e. read_header read extent position bytes unit_sum sc = Some (e, sc) \<and> (\<forall>got t. e \<noteq> Inr (NextFound got t))"
      by (subst read_header.simps) (auto simp: BLOCK_SIZE_def)
    then show ?thesis using less.prems header_read_none [of sc sc] by blast
  next
    case True
    from read_header_step [OF less.prems(1) True less.prems(2), of position bytes unit_sum]
    show ?thesis
    proof (elim disjE exE conjE)
      fix block s assume s: "valid s" "bytes_of s = bytes_of (sc_source sc)" "block = unit_bytes (bytes_of (sc_source sc)) (sc_offset sc) 1"
        and eq: "read_header read extent position bytes unit_sum sc
          = read_header read extent position (bytes @ block) (accumulate block unit_sum) (sc\<lparr>sc_source := s, sc_offset := sc_offset sc + BLOCK_SIZE\<rparr>)"
      let ?sc = "sc\<lparr>sc_source := s, sc_offset := sc_offset sc + BLOCK_SIZE\<rparr>"
      have "extent - sc_offset ?sc < extent - sc_offset sc" using True by (simp add: BLOCK_SIZE_def)
      from less.hyps [OF this, of "bytes @ block" "accumulate block unit_sum"] s less.prems(2)
      obtain out where out: "read_header read extent position (bytes @ block) (accumulate block unit_sum) ?sc = Some out"
        "header_read extent (bytes @ block) (accumulate block unit_sum) ?sc out" by auto
      have "length block = BLOCK_SIZE" using True less.prems(2) by (simp add: s(3) unit_bytes_def)
      then have "4 dvd length block" by (simp add: BLOCK_SIZE_def)
      then show ?thesis using eq out header_read_more [OF s(1,2) _ s(3)] by auto
    qed blast
  qed
qed

section \<open>The HDU list\<close>

lemma next_hdu_ends:
  assumes v: "valid (sc_source sc)"
  shows "\<exists>res sc'. next_hdu size_of read index sc = Some (res, sc') \<and> valid (sc_source sc')
    \<and> bytes_of (sc_source sc') = bytes_of (sc_source sc)
    \<and> (\<forall>u. res = Inr (Some u) \<longrightarrow> hd_index u = index \<and> hdu_at (bytes_of (sc_source sc)) u \<and> hd_header_offset u = sc_offset sc
         \<and> sc_offset sc' = min (hdu_end u) (length (bytes_of (sc_source sc))) \<and> sc_offset sc < sc_offset sc')"
proof -
  let ?file = "bytes_of (sc_source sc)"
  obtain res sc1 where r: "next_header size_of read (of_index index) sc = Some (res, sc1)"
    and h: "header_read (length ?file) [] 0 sc (res, sc1)"
    using read_header_ends [OF v, of "length ?file" "of_index index" "[]" 0] size_bytes [OF v] by (auto simp: next_header_def)
  have keeps: "valid (sc_source sc1)" "bytes_of (sc_source sc1) = ?file" using h by (auto simp: header_read_def Let_def)
  have t: "valid (sc_source (snd (take_unit size_of index res sc1))) \<and> bytes_of (sc_source (snd (take_unit size_of index res sc1))) = ?file"
    using keeps by (auto simp: take_unit_def split: sum.split next_header.split option.split)
  have "hd_index u = index \<and> hdu_at ?file u \<and> hd_header_offset u = sc_offset sc
      \<and> sc_offset (snd (take_unit size_of index res sc1)) = min (hdu_end u) (length ?file)
      \<and> sc_offset sc < sc_offset (snd (take_unit size_of index res sc1))"
    if u: "fst (take_unit size_of index res sc1) = Inr (Some u)" for u
  proof -
    obtain got t where got: "res = Inr (NextFound got t)"
      using u by (auto simp: take_unit_def split: sum.split_asm next_header.split_asm)
    obtain n where n: "0 < n" "sc_offset sc1 = sc_offset sc + n * BLOCK_SIZE" "sc_offset sc1 \<le> length ?file"
      "got = unit_bytes ?file (sc_offset sc) n" "t = accumulate got 0"
      using h got by (auto simp: header_read_def Let_def)
    have l: "length got = n * BLOCK_SIZE" using n(2,3) by (simp add: n(4) unit_bytes_def)
    have p: "hdu_parse index \<lparr>hu_bytes = got, hu_sum = t, hu_offset = sc_offset sc\<rparr> = Inr u"
      and e: "hdu_end u \<le> u64_max"
      using u got l n(2) by (auto simp: take_unit_def checked_simps hdu_end_def split: sum.split_asm option.split_asm)
    have o: "sc_offset (snd (take_unit size_of index res sc1)) = min (hdu_end u) (length ?file)"
      using p e got l n(2) size_bytes [OF keeps(1)] keeps(2) by (simp add: take_unit_def checked_add_def hdu_end_def)
    note f = hdu_parse_fields [OF p]
    have b: "hd_header_blocks u = n" using f(5) l by (simp add: BLOCK_SIZE_def)
    have d: "hd_data_offset u = sc_offset sc1" using f(4) l n(2) by simp
    have "hdu_at ?file u"
      unfolding hdu_at_def Let_def using f b d n e p l by simp
    moreover have "sc_offset sc < min (hdu_end u) (length ?file)"
      using d n by (simp add: hdu_end_def BLOCK_SIZE_def)
    ultimately show ?thesis using f o by simp
  qed
  then show ?thesis using r t by (cases "take_unit size_of index res sc1") (auto simp: next_hdu_def)
qed

lemma scan_loop_ends:
  assumes "valid (sc_source sc)" and "scan_layout (bytes_of (sc_source sc)) found"
    and "sc_offset sc = min (list_end found) (length (bytes_of (sc_source sc)))"
  shows "\<exists>res s'. scan_loop size_of read found sc = Some (res, s')
    \<and> (\<forall>hs. res = Inr hs \<longrightarrow> scan_layout (bytes_of (sc_source sc)) (hs_list hs) \<and> hs_list hs \<noteq> [])"
  using assms
proof (induction "length (bytes_of (sc_source sc)) - sc_offset sc" arbitrary: sc found rule: less_induct)
  case less
  let ?file = "bytes_of (sc_source sc)"
  obtain res sc1 where r: "next_hdu size_of read (length found) sc = Some (res, sc1)" "valid (sc_source sc1)"
    "bytes_of (sc_source sc1) = ?file"
    and u: "\<And>u. res = Inr (Some u) \<Longrightarrow> hd_index u = length found \<and> hdu_at ?file u \<and> hd_header_offset u = sc_offset sc
         \<and> sc_offset sc1 = min (hdu_end u) (length ?file) \<and> sc_offset sc < sc_offset sc1"
    using next_hdu_ends [OF less.prems(1), of "length found"] by blast
  show ?case
  proof (cases "\<exists>u. res = Inr (Some u)")
    case False
    then show ?thesis
      using r less.prems(2) by (subst scan_loop.simps) (auto split: sum.split option.split failure.split)
  next
    case True
    then obtain u where res: "res = Inr (Some u)" ..
    note u = u [OF res]
    have "sc_offset sc < length ?file" using u by auto
    then have "sc_offset sc = list_end found" using less.prems(3) by simp
    then have lay: "scan_layout ?file (found @ [u])" using u less.prems(2) by (simp add: layout_snoc)
    have "length ?file - sc_offset sc1 < length ?file - sc_offset sc" using u \<open>sc_offset sc < length ?file\<close> by linarith
    with less.hyps [of sc1 "found @ [u]"] r u lay
    obtain out where "scan_loop size_of read (found @ [u]) sc1 = Some out"
      "\<forall>hs. fst out = Inr hs \<longrightarrow> scan_layout ?file (hs_list hs) \<and> hs_list hs \<noteq> []"
      by (auto simp: list_end_def)
    moreover have "scan_loop size_of read found sc = scan_loop size_of read (found @ [u]) sc1"
      using r(1) res by (subst scan_loop.simps) simp
    ultimately show ?thesis by (cases out) auto
  qed
qed

lemma scan_ends:
  assumes "valid s"
  shows "\<exists>res s'. hdus_scan size_of read s = Some (res, s')
    \<and> (\<forall>hs. res = Inr hs \<longrightarrow> scan_layout (bytes_of s) (hs_list hs) \<and> hs_list hs \<noteq> [])"
  using scan_loop_ends [of "\<lparr>sc_source = s, sc_offset = 0\<rparr>" "[]"] assms by (simp add: hdus_scan_def list_end_def)

end

end
