(* ===== verification/Image_View.thy ===== *)
theory Image_View
  imports Endian Header_Model
begin

text \<open>
  Image samples, their count and their scaling: \<^verbatim>\<open>src/image_model/mod.rs\<close>, \<^verbatim>\<open>src/image_model/view.rs\<close> and
  \<^verbatim>\<open>src/image_model/scaling.rs\<close>. A sample is its bits; the physical plane, which is floating-point arithmetic, is left
  out.
\<close>

section \<open>Shapes\<close>

definition shape_product :: "nat list \<Rightarrow> nat run" where
  "shape_product shape =
     (if shape = [] \<or> List.member shape 0 then Inr 0
      else ok_or (checked_product usize_max 1 shape) (Err DataUnitOverflow))"

definition check_sample_count :: "nat list \<Rightarrow> nat \<Rightarrow> nat run" where
  "check_sample_count shape samples =
     bind (shape_product shape) (\<lambda>expected.
       if samples \<noteq> expected then Inl (Err (mismatch Samples expected samples)) else Inr expected)"

text \<open>A half-open range for each axis, within the axis.\<close>

type_synonym range = "nat \<times> nat"

fun check_ranges :: "nat \<Rightarrow> range list \<Rightarrow> nat list \<Rightarrow> unit fits_result" where
  "check_ranges axis ((lo, hi) # ranges) (len # shape) =
     (if lo > hi \<or> hi > len then Inl (ImageRegionOutOfBounds axis lo hi len) else check_ranges (axis + 1) ranges shape)"
| "check_ranges axis _ _ = Inr ()"

definition check_image_region :: "range list \<Rightarrow> nat list \<Rightarrow> unit fits_result" where
  "check_image_region ranges shape =
     (if length ranges \<noteq> length shape then Inl (RankMismatch ImageRegion (length shape) (length ranges))
      else check_ranges 0 ranges shape)"

definition validate_image_region :: "range list \<Rightarrow> nat list \<Rightarrow> nat list fits_result" where
  "validate_image_region ranges shape =
     bind (check_image_region ranges shape) (\<lambda>_. Inr (map (\<lambda>(lo, hi). hi - lo) ranges))"

lemma check_ranges_ok:
  "length ranges = length shape \<Longrightarrow>
    check_ranges axis ranges shape = Inr () \<longleftrightarrow> list_all2 (\<lambda>(lo, hi) len. lo \<le> hi \<and> hi \<le> len) ranges shape"
  by (induction axis ranges shape rule: check_ranges.induct) auto

section \<open>The sign-bit offsets\<close>

definition flip_i8 :: "u8 \<Rightarrow> u8" where "flip_i8 stored = stored XOR 0x80"
definition flip_u16 :: "u16 \<Rightarrow> u16" where "flip_u16 stored = stored XOR 0x8000"
definition flip_u32 :: "u32 \<Rightarrow> u32" where "flip_u32 stored = stored XOR 0x80000000"
definition flip_u64 :: "u64 \<Rightarrow> u64" where "flip_u64 stored = stored XOR 0x8000000000000000"

section \<open>Views\<close>

datatype view =
    VU8 "u8 list"
  | VI16 "u16 list"
  | VI32 "u32 list"
  | VI64 "u64 list"
  | VF32 "u32 list"
  | VF64 "u64 list"

fun view_bitpix :: "view \<Rightarrow> bitpix" where
  "view_bitpix (VU8 _) = U8"
| "view_bitpix (VI16 _) = I16"
| "view_bitpix (VI32 _) = I32"
| "view_bitpix (VI64 _) = I64"
| "view_bitpix (VF32 _) = F32"
| "view_bitpix (VF64 _) = F64"

fun view_len :: "view \<Rightarrow> nat" where
  "view_len (VU8 v) = length v"
| "view_len (VI16 v) = length v"
| "view_len (VI32 v) = length v"
| "view_len (VI64 v) = length v"
| "view_len (VF32 v) = length v"
| "view_len (VF64 v) = length v"

text \<open>The samples of a range inside the view.\<close>

definition sub_list :: "nat \<Rightarrow> nat \<Rightarrow> 'a list \<Rightarrow> 'a list" where
  "sub_list lo hi xs = take (hi - lo) (drop lo xs)"

fun view_part :: "nat \<Rightarrow> nat \<Rightarrow> view \<Rightarrow> view" where
  "view_part lo hi (VU8 v) = VU8 (sub_list lo hi v)"
| "view_part lo hi (VI16 v) = VI16 (sub_list lo hi v)"
| "view_part lo hi (VI32 v) = VI32 (sub_list lo hi v)"
| "view_part lo hi (VI64 v) = VI64 (sub_list lo hi v)"
| "view_part lo hi (VF32 v) = VF32 (sub_list lo hi v)"
| "view_part lo hi (VF64 v) = VF64 (sub_list lo hi v)"

definition view_slice :: "nat \<Rightarrow> nat \<Rightarrow> view \<Rightarrow> view run" where
  "view_slice lo hi v = (if lo \<le> hi \<and> hi \<le> view_len v then Inr (view_part lo hi v) else Inl Panic)"

fun encode_into :: "view \<Rightarrow> bytes \<Rightarrow> bytes" where
  "encode_into (VU8 v) out = out @ v"
| "encode_into (VI16 v) out = extend_be 2 out v to_be16"
| "encode_into (VI32 v) out = extend_be 4 out v to_be32"
| "encode_into (VI64 v) out = extend_be 8 out v to_be64"
| "encode_into (VF32 v) out = extend_be 4 out v to_be32"
| "encode_into (VF64 v) out = extend_be 8 out v to_be64"

text \<open>The bytes of a view's data unit.\<close>

definition view_bytes :: "view \<Rightarrow> bytes" where "view_bytes v = encode_into v []"

section \<open>Scaling\<close>

record scaling =
  sc_bscale :: f64
  sc_bzero :: f64
  sc_blank :: "int option"

definition f64_one :: f64 where "f64_one = 0x3FF0000000000000"

text \<open>\<^verbatim>\<open>bzero == 0.0\<close>, which both zeros are.\<close>

definition f64_is_zero :: "f64 \<Rightarrow> bool" where "f64_is_zero x = (f64_code x = 0)"

definition identity_scaling :: scaling where
  "identity_scaling = \<lparr>sc_bscale = f64_one, sc_bzero = 0, sc_blank = None\<rparr>"

definition U64_OFFSET :: f64 where "U64_OFFSET = f64_of_int (2 ^ 63)"

definition is_identity :: "scaling \<Rightarrow> bool" where
  "is_identity s = (sc_bscale s = f64_one \<and> f64_is_zero (sc_bzero s))"

definition scaling_validate :: "scaling \<Rightarrow> bitpix \<Rightarrow> unit fits_result" where
  "scaling_validate s b =
     (if \<not> is_finite (sc_bscale s) then Inl (InvalidKeywordValue ''BSCALE'' RangeDefect)
      else if \<not> is_finite (sc_bzero s) then Inl (InvalidKeywordValue ''BZERO'' RangeDefect)
      else (case sc_blank s of
              None \<Rightarrow> Inr ()
            | Some blank \<Rightarrow> if \<not> holds_integer b blank then Inl (InvalidKeywordValue ''BLANK'' RangeDefect) else Inr ()))"

definition scaling_from_header :: "header \<Rightarrow> bitpix \<Rightarrow> scaling run" where
  "scaling_from_header h b =
     bind (get_real h (KeywordName ''BSCALE'')) (\<lambda>bscale.
     bind (get_real h (KeywordName ''BZERO'')) (\<lambda>bzero.
     bind (if is_float b then Inr None else get_integer h (KeywordName ''BLANK'')) (\<lambda>blank.
       let s = \<lparr>sc_bscale = case bscale of Some v \<Rightarrow> v | None \<Rightarrow> f64_one,
                sc_bzero = case bzero of Some v \<Rightarrow> v | None \<Rightarrow> 0, sc_blank = blank\<rparr>
       in bind (attempt (scaling_validate s b)) (\<lambda>_. Inr s))))"

definition add_to_header :: "scaling \<Rightarrow> header \<Rightarrow> bitpix \<Rightarrow> header run" where
  "add_to_header s h b =
     bind (attempt (scaling_validate s b)) (\<lambda>_.
     bind (if \<not> is_identity s
           then bind (if b = I64 \<and> sc_bscale s = f64_one \<and> sc_bzero s = U64_OFFSET
                      then set_internal h (KeywordName ''BZERO'') (VInteger (integer_from (2 ^ 63)))
                      else set_internal h (KeywordName ''BZERO'') (VReal (sc_bzero s)))
                  (\<lambda>h. set_internal h (KeywordName ''BSCALE'') (VReal (sc_bscale s)))
           else Inr h) (\<lambda>h.
       case sc_blank s of
         Some blank \<Rightarrow> set_internal h (KeywordName ''BLANK'') (VInteger (integer_from blank))
       | None \<Rightarrow> Inr h))"

record metadata =
  me_shape :: "nat list"
  me_bitpix :: bitpix
  me_scaling :: scaling

record borrowed =
  bo_shape :: "nat list"
  bo_scaling :: scaling
  bo_samples :: view

definition borrowed_new :: "nat list \<Rightarrow> view \<Rightarrow> scaling \<Rightarrow> borrowed run" where
  "borrowed_new shape samples s =
     bind (check_sample_count shape (view_len samples)) (\<lambda>_.
     bind (attempt (scaling_validate s (view_bitpix samples))) (\<lambda>_.
       Inr \<lparr>bo_shape = shape, bo_scaling = s, bo_samples = samples\<rparr>))"

definition borrowed_metadata :: "borrowed \<Rightarrow> metadata" where
  "borrowed_metadata i = \<lparr>me_shape = bo_shape i, me_bitpix = view_bitpix (bo_samples i), me_scaling = bo_scaling i\<rparr>"

section \<open>Facts\<close>

lemma view_bytes_eq:
  "view_bytes (VU8 u) = u" "view_bytes (VI16 v) = concat (map to_be16 v)" "view_bytes (VI32 w) = concat (map to_be32 w)"
  "view_bytes (VI64 x) = concat (map to_be64 x)" "view_bytes (VF32 w) = concat (map to_be32 w)" "view_bytes (VF64 x) = concat (map to_be64 x)"
  by (simp_all add: view_bytes_def extend_be_concat)

lemma encode_into_append: "encode_into v out = out @ view_bytes v"
  by (cases v) (simp_all add: view_bytes_eq extend_be_concat)

lemma view_bytes_length: "length (view_bytes v) = view_len v * bitpix_elem_size (view_bitpix v)"
  by (cases v) (simp_all add: view_bytes_eq length_concat sum_list_triv o_def)

lemma view_len_part: "hi \<le> view_len v \<Longrightarrow> view_len (view_part lo hi v) = hi - lo"
  by (cases v) (auto simp: sub_list_def)

lemma sub_list_split: "lo \<le> mid \<Longrightarrow> mid \<le> hi \<Longrightarrow> sub_list lo hi xs = sub_list lo mid xs @ sub_list mid hi xs"
  using take_add [of "mid - lo" "hi - mid" "drop lo xs"] by (simp add: sub_list_def)

lemma view_part_split:
  "lo \<le> mid \<Longrightarrow> mid \<le> hi \<Longrightarrow> view_bytes (view_part lo hi v) = view_bytes (view_part lo mid v) @ view_bytes (view_part mid hi v)"
  by (cases v) (simp_all add: view_bytes_eq sub_list_split [of lo mid hi])

lemma view_part_all: "view_part 0 (view_len v) v = v"
  by (cases v) (simp_all add: sub_list_def)

end
