(* ===== verification/Fits_Writer.thy ===== *)
theory Fits_Writer
  imports Hdu_Kind Image_View
begin

text \<open>
  The writer of HDUs to a byte sink: \<^verbatim>\<open>src/fits_writer/mod.rs\<close> and \<^verbatim>\<open>src/fits_writer/image_writer.rs\<close>. The sink is any
  \<^verbatim>\<open>Write\<close>, and \<^verbatim>\<open>Write + Seek\<close> for a stream: its operations are the record \<open>sink_ops\<close>, a parameter. The writer's two
  reused buffers hold no state between calls and are left out, and so is the body of a binary table, whose rows the
  table builder encodes.
\<close>

section \<open>State\<close>

datatype writer_state = WEmpty | WActive | WFailed

datatype checksums = ChecksumsOff | ChecksumsOn

record header_form =
  hf_checksums :: checksums
  hf_spare_records :: nat

record 'w sink_ops =
  sk_write_all :: "bytes \<Rightarrow> 'w \<Rightarrow> bool \<times> 'w"
  sk_position :: "'w \<Rightarrow> nat option \<times> 'w"
  sk_seek :: "nat \<Rightarrow> 'w \<Rightarrow> bool \<times> 'w"

record 'w writer =
  wr_sink :: 'w
  wr_state :: writer_state
  wr_form :: header_form

datatype body =
    BodyBytes bytes
  | BodySamples view
  | BodyParts bytes "bytes list"

text \<open>What comes after a step that succeeds, with the state it left; an error ends there.\<close>

definition and_then :: "'a run \<times> 's \<Rightarrow> ('a \<Rightarrow> 's \<Rightarrow> 'b run \<times> 's) \<Rightarrow> 'b run \<times> 's" where
  "and_then out f = (case out of (Inl e, s) \<Rightarrow> (Inl e, s) | (Inr a, s) \<Rightarrow> f a s)"

lemma and_then_simps [simp]: "and_then (Inl e, s) f = (Inl e, s)" "and_then (Inr a, s) f = f a s"
  by (simp_all add: and_then_def)

lemma and_then_eq_Inr:
  "and_then out f = (Inr b, s') \<longleftrightarrow> (\<exists>a s. out = (Inr a, s) \<and> f a s = (Inr b, s'))"
  by (auto simp: and_then_def split: prod.split sum.split)

definition CHUNK_SAMPLES :: nat where "CHUNK_SAMPLES = 131072"

definition CHUNK_BYTES :: nat where "CHUNK_BYTES = 1048576"

definition writer_new :: "'w \<Rightarrow> 'w writer" where
  "writer_new sink = \<lparr>wr_sink = sink, wr_state = WEmpty, wr_form = \<lparr>hf_checksums = ChecksumsOff, hf_spare_records = 0\<rparr>\<rparr>"

definition writer_continuing :: "'w \<Rightarrow> 'w writer" where
  "writer_continuing sink = (writer_new sink)\<lparr>wr_state := WActive\<rparr>"

definition with_checksums :: "'w writer \<Rightarrow> 'w writer" where
  "with_checksums w = w\<lparr>wr_form := (wr_form w)\<lparr>hf_checksums := ChecksumsOn\<rparr>\<rparr>"

definition with_spare_records :: "nat \<Rightarrow> 'w writer \<Rightarrow> 'w writer" where
  "with_spare_records records w = w\<lparr>wr_form := (wr_form w)\<lparr>hf_spare_records := records\<rparr>\<rparr>"

definition next_position :: "'w writer \<Rightarrow> hdu_position run" where
  "next_position w =
     (case wr_state w of
        WEmpty \<Rightarrow> Inr PrimaryPos
      | WActive \<Rightarrow> Inr ExtensionPos
      | WFailed \<Rightarrow> Inl (Err WriterFailed))"

definition ensure_usable :: "'w writer \<Rightarrow> unit run" where
  "ensure_usable w = (case wr_state w of WFailed \<Rightarrow> Inl (Err WriterFailed) | _ \<Rightarrow> Inr ())"

definition emit :: "'w sink_ops \<Rightarrow> bytes \<Rightarrow> 'w writer \<Rightarrow> unit run \<times> 'w writer" where
  "emit ops bs w =
     (case ensure_usable w of
        Inl e \<Rightarrow> (Inl e, w)
      | Inr _ \<Rightarrow>
          (case sk_write_all ops bs (wr_sink w) of
             (True, sink) \<Rightarrow> (Inr (), w\<lparr>wr_sink := sink\<rparr>)
           | (False, sink) \<Rightarrow> (Inl (Err Io), w\<lparr>wr_sink := sink, wr_state := WFailed\<rparr>)))"

definition poison :: "'w writer \<Rightarrow> 'w writer" where
  "poison w = w\<lparr>wr_state := WFailed\<rparr>"

section \<open>The body of an HDU\<close>

text \<open>The starts of the chunks of \<open>n\<close> samples: \<^verbatim>\<open>(0..n).step_by(CHUNK_SAMPLES)\<close>.\<close>

definition chunk_starts :: "nat \<Rightarrow> nat list" where
  "chunk_starts n = map (\<lambda>i. i * CHUNK_SAMPLES) [0..<(n + CHUNK_SAMPLES - 1) div CHUNK_SAMPLES]"

fun chunks_from :: "nat list \<Rightarrow> view \<Rightarrow> (bytes \<Rightarrow> 's \<Rightarrow> unit run \<times> 's) \<Rightarrow> 's \<Rightarrow> unit run \<times> 's" where
  "chunks_from [] samples each s = (Inr (), s)"
| "chunks_from (start # starts) samples each s =
     and_then (view_slice start (min (start + CHUNK_SAMPLES) (view_len samples)) samples, s) (\<lambda>part s.
     and_then (each (encode_into part []) s) (\<lambda>_ s. chunks_from starts samples each s))"

definition each_chunk :: "view \<Rightarrow> (bytes \<Rightarrow> 's \<Rightarrow> unit run \<times> 's) \<Rightarrow> 's \<Rightarrow> unit run \<times> 's" where
  "each_chunk samples each s = chunks_from (chunk_starts (view_len samples)) samples each s"

text \<open>The writer, and the sum that a stream of samples also adds to.\<close>

definition emit_samples ::
  "'w sink_ops \<Rightarrow> view \<Rightarrow> 'w writer \<times> running option \<Rightarrow> unit run \<times> ('w writer \<times> running option)" where
  "emit_samples ops samples st =
     each_chunk samples (\<lambda>chunk (w, sum_of).
       let sum_of = map_option (\<lambda>r. running_update r chunk) sum_of
       in case emit ops chunk w of (r, w) \<Rightarrow> (r, (w, sum_of))) st"

fun gather_parts :: "'w sink_ops \<Rightarrow> bytes \<Rightarrow> bytes list \<Rightarrow> 'w writer \<Rightarrow> unit run \<times> 'w writer" where
  "gather_parts ops chunk [] w = (if chunk = [] then (Inr (), w) else emit ops chunk w)"
| "gather_parts ops chunk (part # parts) w =
     (let full = length chunk + length part > CHUNK_BYTES \<and> chunk \<noteq> [];
          chunk' = (if full then [] else chunk)
      in and_then (if full then emit ops chunk w else (Inr (), w)) (\<lambda>_ w.
           if length part \<ge> CHUNK_BYTES
           then and_then (emit ops part w) (\<lambda>_ w. gather_parts ops chunk' parts w)
           else gather_parts ops (chunk' @ part) parts w))"

definition emit_parts :: "'w sink_ops \<Rightarrow> bytes \<Rightarrow> bytes list \<Rightarrow> 'w writer \<Rightarrow> unit run \<times> 'w writer" where
  "emit_parts ops rows heap w = gather_parts ops [] (rows # heap) w"

definition emit_body :: "'w sink_ops \<Rightarrow> body \<Rightarrow> 'w writer \<Rightarrow> unit run \<times> 'w writer" where
  "emit_body ops body w =
     (case body of
        BodyBytes bs \<Rightarrow> emit ops bs w
      | BodyParts rows heap \<Rightarrow> emit_parts ops rows heap w
      | BodySamples samples \<Rightarrow> (case emit_samples ops samples (w, None) of (r, (w, _)) \<Rightarrow> (r, w)))"

definition sum_body :: "body \<Rightarrow> running \<Rightarrow> running run" where
  "sum_body body r =
     (case body of
        BodyBytes bs \<Rightarrow> Inr (running_update r bs)
      | BodyParts rows heap \<Rightarrow> Inr (foldl running_update (running_update r rows) heap)
      | BodySamples samples \<Rightarrow>
          (case each_chunk samples (\<lambda>chunk r. (Inr (), running_update r chunk)) r of
             (Inl _, _) \<Rightarrow> Inl Panic
           | (Inr _, r) \<Rightarrow> Inr r))"

fun checked_total :: "nat \<Rightarrow> bytes list \<Rightarrow> nat option" where
  "checked_total len [] = Some len"
| "checked_total len (cell # cells) =
     Option.bind (checked_add usize_max len (length cell)) (\<lambda>len. checked_total len cells)"

definition body_len :: "body \<Rightarrow> nat run" where
  "body_len body =
     (case body of
        BodyBytes bs \<Rightarrow> Inr (length bs)
      | BodyParts rows heap \<Rightarrow> ok_or (checked_total (length rows) heap) (Err DataUnitOverflow)
      | BodySamples samples \<Rightarrow>
          ok_or (checked_mul usize_max (view_len samples) (bitpix_elem_size (view_bitpix samples))) (Err DataUnitOverflow))"

section \<open>One HDU\<close>

definition merge_header_template :: "header \<Rightarrow> header \<Rightarrow> header" where
  "merge_header_template h template = append_filtered_from h template (\<lambda>keyword. \<not> is_generated keyword)"

definition placed :: "header \<Rightarrow> hdu_position \<Rightarrow> hdu_position run" where
  "placed h next =
     (if next = PrimaryPos
      then bind (header_get h (KeywordName ''XTENSION'')) (\<lambda>v. Inr (if v \<noteq> None then ExtensionPos else next))
      else Inr next)"

definition empty_primary_header :: "header run" where
  "empty_primary_header = prologue_header \<lparr>pr_opening = OpenPrimary, pr_bitpix = U8, pr_axes = [], pr_pcount = 0\<rparr>"

text \<open>The fill of a data unit's last block.\<close>

definition block_fill :: "hdu_kind \<Rightarrow> nat \<Rightarrow> bytes" where
  "block_fill kind len = replicate (padding len) (if kind = AsciiTable then SPACE_FILL else ZERO_FILL)"

record hdu_parts =
  hp_primary :: "bytes option"
  hp_header :: bytes
  hp_fill :: bytes

definition body_signing :: "header_form \<Rightarrow> body \<Rightarrow> bytes \<Rightarrow> signing run" where
  "body_signing form body fill =
     (case hf_checksums form of
        ChecksumsOff \<Rightarrow> Inr Unsigned
      | ChecksumsOn \<Rightarrow>
          bind (sum_body body running_new) (\<lambda>r. Inr (WithDataSum (running_finish (running_update r fill)))))"

text \<open>Everything of an HDU that can fail before its first byte is written.\<close>

definition render_hdu :: "header_form \<Rightarrow> hdu_position \<Rightarrow> header \<Rightarrow> body \<Rightarrow> hdu_parts run" where
  "render_hdu form next h body =
     bind (placed h next) (\<lambda>position.
     bind (kind_from_header h position) (\<lambda>kind.
     bind (data_bytes kind h) (\<lambda>data_bytes.
     bind (body_len body) (\<lambda>len.
       if len \<noteq> data_bytes then Inl (Err (mismatch Bytes data_bytes len))
       else let fill = block_fill kind len
         in bind (body_signing form body fill) (\<lambda>signing.
            let space = Spare (hf_spare_records form)
            in bind (if next = PrimaryPos \<and> position = ExtensionPos
                     then bind empty_primary_header (\<lambda>primary.
                          bind (header_render primary
                                  (case hf_checksums form of ChecksumsOff \<Rightarrow> Unsigned | ChecksumsOn \<Rightarrow> WithDataSum 0) space)
                               (\<lambda>bs. Inr (Some bs)))
                     else Inr None) (\<lambda>primary.
               bind (header_render h signing space) (\<lambda>header_bytes.
                 Inr \<lparr>hp_primary = primary, hp_header = header_bytes, hp_fill = fill\<rparr>)))))))"

definition finish_hdu :: "'w sink_ops \<Rightarrow> header \<Rightarrow> header option \<Rightarrow> body \<Rightarrow> 'w writer \<Rightarrow> unit run \<times> 'w writer" where
  "finish_hdu ops h template body w =
     and_then (next_position w, w) (\<lambda>next w.
       let h = (case template of Some template \<Rightarrow> merge_header_template h template | None \<Rightarrow> h)
       in and_then (render_hdu (wr_form w) next h body, w) (\<lambda>parts w.
          and_then (case hp_primary parts of Some primary \<Rightarrow> emit ops primary w | None \<Rightarrow> (Inr (), w)) (\<lambda>_ w.
          and_then (emit ops (hp_header parts) w) (\<lambda>_ w.
          and_then (emit_body ops body w) (\<lambda>_ w.
          and_then (emit ops (hp_fill parts) w) (\<lambda>_ w. (Inr (), w\<lparr>wr_state := WActive\<rparr>)))))))"

definition write_raw_hdu :: "'w sink_ops \<Rightarrow> header \<Rightarrow> bytes \<Rightarrow> 'w writer \<Rightarrow> unit run \<times> 'w writer" where
  "write_raw_hdu ops h raw w = finish_hdu ops h None (BodyBytes raw) w"

definition write_empty_primary :: "'w sink_ops \<Rightarrow> header option \<Rightarrow> 'w writer \<Rightarrow> unit run \<times> 'w writer" where
  "write_empty_primary ops template w =
     and_then (next_position w, w) (\<lambda>next w.
       if next \<noteq> PrimaryPos then (Inl (Err PrimaryAlreadyWritten), w)
       else and_then (empty_primary_header, w) (\<lambda>h w. finish_hdu ops h template (BodyBytes []) w))"

definition image_header :: "metadata \<Rightarrow> hdu_position \<Rightarrow> header run" where
  "image_header layout position =
     bind (prologue_header
       \<lparr>pr_opening = (case position of PrimaryPos \<Rightarrow> OpenPrimary | ExtensionPos \<Rightarrow> OpenExtension XImage),
        pr_bitpix = me_bitpix layout, pr_axes = me_shape layout, pr_pcount = 0\<rparr>) (\<lambda>h.
       add_to_header (me_scaling layout) h (me_bitpix layout))"

definition write_image :: "'w sink_ops \<Rightarrow> borrowed \<Rightarrow> header option \<Rightarrow> 'w writer \<Rightarrow> unit run \<times> 'w writer" where
  "write_image ops img template w =
     and_then (bind (next_position w) (image_header (borrowed_metadata img)), w) (\<lambda>h w.
       finish_hdu ops h template (BodySamples (bo_samples img)) w)"

text \<open>The unit that a compression encodes, as the writer takes it.\<close>

record encoded_unit =
  eu_header :: header
  eu_rows :: bytes
  eu_heap :: "bytes list"

definition write_unit :: "'w sink_ops \<Rightarrow> encoded_unit run \<Rightarrow> header option \<Rightarrow> 'w writer \<Rightarrow> unit run \<times> 'w writer" where
  "write_unit ops encoded template w =
     and_then (next_position w, w) (\<lambda>_ w.
     and_then (encoded, w) (\<lambda>unit w. finish_hdu ops (eu_header unit) template (BodyParts (eu_rows unit) (eu_heap unit)) w))"

definition write_encoded :: "'w sink_ops \<Rightarrow> (bytes \<times> header) run \<Rightarrow> header option \<Rightarrow> 'w writer \<Rightarrow> unit run \<times> 'w writer" where
  "write_encoded ops encoded template w =
     and_then (next_position w, w) (\<lambda>_ w.
     and_then (encoded, w) (\<lambda>(data, h) w. finish_hdu ops h template (BodyBytes data) w))"

section \<open>A stream of an image\<close>

record stream_header =
  sh_header :: header
  sh_offset :: nat

definition emit_header :: "'w sink_ops \<Rightarrow> header \<Rightarrow> signing \<Rightarrow> 'w writer \<Rightarrow> unit run \<times> 'w writer" where
  "emit_header ops h signing w =
     and_then (header_render h signing (Spare (hf_spare_records (wr_form w))), w) (\<lambda>bs w. emit ops bs w)"

definition stream_position :: "'w sink_ops \<Rightarrow> 'w writer \<Rightarrow> nat run \<times> 'w writer" where
  "stream_position ops w =
     (case sk_position ops (wr_sink w) of
        (None, sink) \<Rightarrow> (Inl (Err Io), w\<lparr>wr_sink := sink\<rparr>)
      | (Some n, sink) \<Rightarrow> (Inr n, w\<lparr>wr_sink := sink\<rparr>))"

definition sink_seek :: "'w sink_ops \<Rightarrow> nat \<Rightarrow> 'w writer \<Rightarrow> unit run \<times> 'w writer" where
  "sink_seek ops offset w =
     (case sk_seek ops offset (wr_sink w) of
        (done_ok, sink) \<Rightarrow> (if done_ok then Inr () else Inl (Err Io), w\<lparr>wr_sink := sink\<rparr>))"

definition rewrite_header :: "'w sink_ops \<Rightarrow> stream_header \<Rightarrow> signing \<Rightarrow> 'w writer \<Rightarrow> unit run \<times> 'w writer" where
  "rewrite_header ops header signing w =
     (case and_then (stream_position ops w) (\<lambda>end_at w.
           and_then (sink_seek ops (sh_offset header) w) (\<lambda>_ w.
           and_then (emit_header ops (sh_header header) signing w) (\<lambda>_ w. sink_seek ops end_at w))) of
        (Inl e, w) \<Rightarrow> (Inl e, poison w)
      | (Inr _, w) \<Rightarrow> (Inr (), w))"

definition start_stream :: "'w sink_ops \<Rightarrow> header \<Rightarrow> 'w writer \<Rightarrow> stream_header run \<times> 'w writer" where
  "start_stream ops h w =
     and_then (stream_position ops w) (\<lambda>offset w.
     and_then (emit_header ops h (case hf_checksums (wr_form w) of ChecksumsOff \<Rightarrow> Unsigned | ChecksumsOn \<Rightarrow> SignPlaceholder) w) (\<lambda>_ w.
       (Inr \<lparr>sh_header = h, sh_offset = offset\<rparr>, w\<lparr>wr_state := WActive\<rparr>)))"

definition finish_stream :: "'w sink_ops \<Rightarrow> stream_header \<Rightarrow> nat \<Rightarrow> running \<Rightarrow> 'w writer \<Rightarrow> unit run \<times> 'w writer" where
  "finish_stream ops header unit_len r w =
     (let fill = replicate (padding unit_len) ZERO_FILL
      in and_then (emit ops fill w) (\<lambda>_ w.
           if hf_checksums (wr_form w) = ChecksumsOn
           then rewrite_header ops header (WithDataSum (running_finish (running_update r fill))) w
           else (Inr (), w)))"

record 'w image_writer =
  iw_writer :: "'w writer"
  iw_header :: stream_header
  iw_expected :: nat
  iw_written :: nat
  iw_bitpix :: bitpix
  iw_checksum :: running

definition stream_image :: "'w sink_ops \<Rightarrow> metadata \<Rightarrow> header option \<Rightarrow> 'w writer \<Rightarrow> 'w image_writer run \<times> 'w writer" where
  "stream_image ops layout template w =
     and_then (bind (shape_product (me_shape layout)) (\<lambda>expected.
               bind (next_position w) (\<lambda>position.
               bind (image_header layout position) (\<lambda>h.
                 Inr (expected, case template of Some template \<Rightarrow> merge_header_template h template | None \<Rightarrow> h)))), w)
       (\<lambda>(expected, h) w.
     and_then (start_stream ops h w) (\<lambda>header w.
       (Inr \<lparr>iw_writer = w, iw_header = header, iw_expected = expected, iw_written = 0, iw_bitpix = me_bitpix layout,
             iw_checksum = running_new\<rparr>, w)))"

definition write_chunk :: "'w sink_ops \<Rightarrow> view \<Rightarrow> 'w image_writer \<Rightarrow> unit run \<times> 'w image_writer" where
  "write_chunk ops samples iw =
     (if view_bitpix samples \<noteq> iw_bitpix iw then (Inl (Err (ChunkTypeMismatch (iw_bitpix iw) (view_bitpix samples))), iw)
      else (case checked_add usize_max (iw_written iw) (view_len samples) of
              None \<Rightarrow> (Inl (Err DataUnitOverflow), iw)
            | Some written \<Rightarrow>
                if written > iw_expected iw then (Inl (Err (mismatch Samples (iw_expected iw) written)), iw)
                else (case emit_samples ops samples (iw_writer iw, Some (iw_checksum iw)) of
                        (r, (w, sum_of)) \<Rightarrow>
                          let iw = iw\<lparr>iw_writer := w, iw_checksum := the sum_of\<rparr>
                          in case r of Inl e \<Rightarrow> (Inl e, iw) | Inr _ \<Rightarrow> (Inr (), iw\<lparr>iw_written := written\<rparr>))))"

text \<open>A finish consumes the stream, and its drop poisons the writer unless it ended well.\<close>

definition stream_finish :: "'w sink_ops \<Rightarrow> 'w image_writer \<Rightarrow> unit run \<times> 'w writer" where
  "stream_finish ops iw =
     (case and_then (ensure_usable (iw_writer iw), iw_writer iw) (\<lambda>_ w.
           if iw_written iw \<noteq> iw_expected iw then (Inl (Err (mismatch Samples (iw_expected iw) (iw_written iw))), w)
           else and_then (ok_or (checked_mul usize_max (iw_expected iw) (bitpix_elem_size (iw_bitpix iw))) (Err DataUnitOverflow), w)
                  (\<lambda>unit_len w. finish_stream ops (iw_header iw) unit_len (iw_checksum iw) w)) of
        (Inl e, w) \<Rightarrow> (Inl e, poison w)
      | (Inr _, w) \<Rightarrow> (Inr (), w))"

definition stream_drop :: "'w image_writer \<Rightarrow> 'w writer" where
  "stream_drop iw = poison (iw_writer iw)"

section \<open>The row count of a table\<close>

text \<open>The error's column name is the caller's.\<close>

definition accept_row_count :: "nat option \<Rightarrow> string \<Rightarrow> nat option \<Rightarrow> nat option run" where
  "accept_row_count row_count column inferred =
     (case (row_count, inferred) of
        (Some expected, Some got) \<Rightarrow>
          if expected \<noteq> got then Inl (Err (TableRowCountMismatch column expected got)) else Inr row_count
      | (None, Some rows) \<Rightarrow> Inr (Some rows)
      | (None, None) \<Rightarrow> Inl (Err (TableRowCountUndetermined column))
      | _ \<Rightarrow> Inr row_count)"

end
