(* ===== verification/Header_Unit.thy ===== *)
theory Header_Unit
  imports Signed_Report Hdu_Scan_Correct
begin

text \<open>
  What a scan needs of a rendered header unit: whole blocks, an \<^verbatim>\<open>END\<close> record in the last block and in none before
  it, and the first record's name in the first bytes.
\<close>

section \<open>No record's card is an END record\<close>

lemma parse_stops_at_end:
  assumes "is_end_record e"
  shows "\<exists>res. \<forall>later. parse_cards position (pre @ e # later) h = res"
proof (induction pre arbitrary: position h)
  case Nil
  then show ?case using assms by (simp add: card_parse_def Let_def)
next
  case (Cons c pre)
  show ?case
  proof (cases "card_parse c")
    case (Inl err)
    then show ?thesis by simp
  next
    case (Inr pk)
    obtain p kinds where pk: "pk = (p, kinds)" by (cases pk)
    show ?thesis
    proof (cases p)
      case (ParsedContinue a b d)
      then show ?thesis
        using Cons.IH Inr pk by (cases "fold_continuation (h_records h) a b") (auto simp: Let_def)
    qed (use Cons.IH Inr pk in \<open>auto simp: Let_def\<close>)
  qed
qed

lemma parses_as_cards: "parses_as raw r \<Longrightarrow> CARD_SIZE dvd length raw"
  unfolding parses_as_def using dvd_triv_right by metis

lemma as_chunks_cards: "parses_as raw r \<Longrightarrow> as_chunks CARD_SIZE (raw @ rest) = as_chunks CARD_SIZE raw @ as_chunks CARD_SIZE rest"
  by (rule as_chunks_append) (use parses_as_cards in \<open>auto simp: CARD_SIZE_def\<close>)

lemma record_no_end:
  assumes "parses_as raw r" and "e \<in> set (as_chunks CARD_SIZE raw)"
  shows "\<not> is_end_record e"
proof
  assume e: "is_end_record e"
  obtain pre post where cards: "as_chunks CARD_SIZE raw = pre @ e # post" using assms(2) by (meson split_list)
  obtain res where res: "\<And>later. parse_cards 0 (pre @ e # later) header_new = res" using parse_stops_at_end [OF e] by blast
  have same: "parse_cards 0 (as_chunks CARD_SIZE (raw @ rest)) header_new = res" for rest
    unfolding as_chunks_cards [OF assms(1)] cards using res [of "post @ as_chunks CARD_SIZE rest"] by simp
  obtain n where n: "parse_cards 0 (as_chunks CARD_SIZE (raw @ [])) header_new = parse_cards (0 + n) (as_chunks CARD_SIZE []) (push_record header_new r)"
    using assms(1) unfolding parses_as_def by blast
  obtain m where m: "parse_cards 0 (as_chunks CARD_SIZE (raw @ end_record)) header_new
      = parse_cards (0 + m) (as_chunks CARD_SIZE (end_record @ [])) (push_record header_new r)"
    using assms(1) unfolding parses_as_def append_Nil2 by blast
  have "res = Inl (Err MissingEnd)" using n same [of "[]"] by simp
  moreover have "\<exists>h. res = Inr h"
    using m same [of end_record] unfolding as_chunks_card [OF length_end_record] by (simp add: end_record_parse Let_def)
  ultimately show False by simp
qed

section \<open>The cards of a unit\<close>

text \<open>\<open>cards_of\<close>: bytes that are whole cards.\<close>

definition all_cards :: "bytes list \<Rightarrow> bool" where
  "all_cards cs \<longleftrightarrow> (\<forall>c \<in> set cs. length c = CARD_SIZE)"

lemma all_cards_simps [simp]: "all_cards []" "all_cards (c # cs) \<longleftrightarrow> length c = CARD_SIZE \<and> all_cards cs"
  "all_cards (cs @ ds) \<longleftrightarrow> all_cards cs \<and> all_cards ds"
  by (auto simp: all_cards_def)

lemma all_cards_part: "all_cards cs \<Longrightarrow> all_cards (take n cs) \<and> all_cards (drop n cs)"
  by (auto simp: all_cards_def dest: in_set_takeD in_set_dropD)

lemma length_cards: "all_cards cs \<Longrightarrow> length (concat cs) = length cs * CARD_SIZE"
  by (induction cs) simp_all

lemma drop_cards: "all_cards cs \<Longrightarrow> drop (k * CARD_SIZE) (concat cs) = concat (drop k cs)"
proof (induction cs arbitrary: k)
  case (Cons c cs)
  then show ?case by (cases k) simp_all
qed simp

lemma take_cards: "all_cards cs \<Longrightarrow> take (k * CARD_SIZE) (concat cs) = concat (take k cs)"
proof (induction cs arbitrary: k)
  case (Cons c cs)
  then show ?case by (cases k) simp_all
qed simp

lemma chunks_of_cards: "all_cards cs \<Longrightarrow> as_chunks CARD_SIZE (concat cs) = cs"
  by (induction cs) (simp_all add: as_chunks_card)

lemma cards_chunks: "CARD_SIZE dvd length bs \<Longrightarrow> concat (as_chunks CARD_SIZE bs) = bs \<and> all_cards (as_chunks CARD_SIZE bs)"
  using concat_as_chunks [of CARD_SIZE bs] as_chunks_length [of _ CARD_SIZE bs] by (simp add: all_cards_def CARD_SIZE_def)

lemma block_has_end_cards: "all_cards cs \<Longrightarrow> block_has_end (concat cs) \<longleftrightarrow> (\<exists>c \<in> set cs. is_end_record c)"
  by (auto simp: block_has_end_def chunks_of_cards list_ex_iff all_cards_def)

lemma block_of_cards:
  assumes "all_cards cs"
  shows "unit_bytes (concat cs) (i * BLOCK_SIZE) 1 = concat (take RECORDS_PER_BLOCK (drop (i * RECORDS_PER_BLOCK) cs))"
proof -
  have "i * BLOCK_SIZE = (i * RECORDS_PER_BLOCK) * CARD_SIZE" "1 * BLOCK_SIZE = RECORDS_PER_BLOCK * CARD_SIZE"
    by (simp_all add: BLOCK_SIZE_def RECORDS_PER_BLOCK_def CARD_SIZE_def)
  note sizes = this
  show ?thesis
    unfolding unit_bytes_def sizes drop_cards [OF assms] by (rule take_cards [OF conjunct2 [OF all_cards_part [OF assms]]])
qed

section \<open>A whole unit\<close>

definition whole_unit :: "bytes \<Rightarrow> bool" where
  "whole_unit unit \<longleftrightarrow> (\<exists>n. length unit = (n + 1) * BLOCK_SIZE
     \<and> (\<forall>i < n. \<not> block_has_end (unit_bytes unit (i * BLOCK_SIZE) 1)) \<and> block_has_end (unit_bytes unit (n * BLOCK_SIZE) 1))"

lemma whole_unit_cards:
  assumes cs: "all_cards cs" "\<forall>c \<in> set cs. \<not> is_end_record c" and e: "is_end_record e"
    and fs: "all_cards fs" "length fs < RECORDS_PER_BLOCK" and n: "length cs + 1 + length fs = (n + 1) * RECORDS_PER_BLOCK"
  shows "whole_unit (concat (cs @ e # fs))"
proof -
  let ?all = "cs @ e # fs"
  have all: "all_cards ?all" using assms by (simp add: is_end_record_def)
  have cut: "n * RECORDS_PER_BLOCK \<le> length cs" using n fs(2) by (simp add: RECORDS_PER_BLOCK_def)
  have part: "all_cards (take RECORDS_PER_BLOCK (drop k ?all))" for k using all_cards_part all by blast
  have "\<not> block_has_end (unit_bytes (concat ?all) (i * BLOCK_SIZE) 1)" if i: "i < n" for i
  proof -
    have "(i + 1) * RECORDS_PER_BLOCK \<le> n * RECORDS_PER_BLOCK" using i by (intro mult_le_mono1) simp
    then have "i * RECORDS_PER_BLOCK + RECORDS_PER_BLOCK \<le> length cs" using cut by simp
    then have "take RECORDS_PER_BLOCK (drop (i * RECORDS_PER_BLOCK) ?all) = take RECORDS_PER_BLOCK (drop (i * RECORDS_PER_BLOCK) cs)"
      by simp
    then show ?thesis
      unfolding block_of_cards [OF all] block_has_end_cards [OF part] using cs(2) by (auto dest: in_set_takeD in_set_dropD)
  qed
  moreover have "block_has_end (unit_bytes (concat ?all) (n * BLOCK_SIZE) 1)"
  proof -
    have "length (drop (n * RECORDS_PER_BLOCK) ?all) = RECORDS_PER_BLOCK" using n by simp
    then have "take RECORDS_PER_BLOCK (drop (n * RECORDS_PER_BLOCK) ?all) = drop (n * RECORDS_PER_BLOCK) cs @ e # fs"
      using cut by simp
    then show ?thesis unfolding block_of_cards [OF all] block_has_end_cards [OF part] using e by simp
  qed
  moreover have "length (concat ?all) = (n + 1) * BLOCK_SIZE"
    unfolding length_cards [OF all] using n by (simp add: BLOCK_SIZE_def RECORDS_PER_BLOCK_def CARD_SIZE_def)
  ultimately show ?thesis unfolding whole_unit_def by blast
qed

lemma fill_unit_whole:
  assumes "list_all2 parses_as raws rs"
  shows "whole_unit (fill_unit (concat raws) spare)"
proof -
  define cs where "cs = concat (map (as_chunks CARD_SIZE) raws) @ replicate spare (replicate CARD_SIZE blank_byte)"
  have cards: "concat (concat (map (as_chunks CARD_SIZE) raws)) = concat raws \<and> all_cards (concat (map (as_chunks CARD_SIZE) raws))
    \<and> (\<forall>c \<in> set (concat (map (as_chunks CARD_SIZE) raws)). \<not> is_end_record c)"
    using assms
  proof (induction raws rs rule: list_all2_induct)
    case (Cons raw raws r rs)
    then show ?case using cards_chunks [OF parses_as_cards [OF Cons.hyps(1)]] record_no_end [OF Cons.hyps(1)] by auto
  qed simp
  have blank: "\<not> is_end_record (replicate CARD_SIZE blank_byte)" by code_simp
  have cs: "all_cards cs" "\<forall>c \<in> set cs. \<not> is_end_record c" "concat cs = concat raws @ replicate (spare * CARD_SIZE) blank_byte"
    using cards blank by (auto simp: cs_def all_cards_def concat_blank_cards)
  define m where "m = length cs + 1"
  define k where "k = (m + 35) div 36 * 36 - m"
  have len: "length (concat cs @ end_record) = m * CARD_SIZE" using cs(1) by (simp add: m_def length_cards length_end_record)
  have "(m * 80 + 2879) div 2880 = (m + 35) div 36"
  proof -
    have "(m * 80 + 2879) div 80 = m + 35" by simp
    then have "(m * 80 + 2879) div (80 * 36) = (m + 35) div 36" by (simp only: div_mult2_eq)
    then show ?thesis by simp
  qed
  then have nm: "next_multiple (m * CARD_SIZE) BLOCK_SIZE = (m + 35) div 36 * 36 * CARD_SIZE"
    by (simp add: next_multiple_def CARD_SIZE_def BLOCK_SIZE_def)
  have fill: "fill_unit (concat raws) spare = concat (cs @ end_record # replicate k (replicate CARD_SIZE blank_byte))"
    using len unfolding fill_unit_def Let_def
    by (simp add: cs(3) concat_blank_cards nm k_def diff_mult_distrib)
  have "(m + 35) div 36 * 36 \<le> m + 35" "m < (m + 35) div 36 * 36 + 1" by presburger+
  then have k: "k < RECORDS_PER_BLOCK" "m + k = (m + 35) div 36 * 36" by (simp_all add: k_def RECORDS_PER_BLOCK_def BLOCK_SIZE_def CARD_SIZE_def)
  have "0 < (m + 35) div 36" by (simp add: m_def)
  then have n: "length cs + 1 + k = ((m + 35) div 36 - 1 + 1) * RECORDS_PER_BLOCK"
    using k(2) by (simp add: m_def RECORDS_PER_BLOCK_def BLOCK_SIZE_def CARD_SIZE_def)
  have "is_end_record end_record" by code_simp
  then show ?thesis
    unfolding fill using whole_unit_cards [OF cs(1,2), of end_record "replicate k (replicate CARD_SIZE blank_byte)"] k(1) n
    by (simp add: all_cards_def)
qed

section \<open>The name that a unit opens with\<close>

lemma unit_opens:
  assumes "list_all2 opens_as raws rs" and "list_all2 parses_as raws rs" and "rs = Valued k v c # rest"
  shows "take 8 (fill_unit (concat raws) spare) = as_bytes (k @ blanks (8 - length k))"
proof -
  obtain raw raws' where r: "raws = raw # raws'" using assms(1,3) by (cases raws) auto
  have "CARD_SIZE dvd length raw" using assms(2,3) r parses_as_cards by auto
  moreover have o: "take 8 raw = as_bytes (k @ blanks (8 - length k))" "length k \<le> 8" using assms(1,3) r by (auto simp: opens_as_def)
  ultimately have "8 \<le> length raw"
  proof -
    have "length (take 8 raw) = 8" unfolding o(1) using o(2) by simp
    then show ?thesis by simp
  qed
  then show ?thesis using o by (simp add: fill_unit_def Let_def r)
qed

end
