(* ===== verification/Hdu_Forward.thy ===== *)
theory Hdu_Forward
  imports Header_Unit
begin

text \<open>
  A scan reads what stands in a file: whole header units with their data, one after the other, are found as the
  HDUs they parse to, whatever source serves the bytes.
\<close>

section \<open>What a file holds\<close>

text \<open>Header units and padded data units from an offset on, and the HDUs that they are.\<close>

fun file_of :: "nat \<Rightarrow> nat \<Rightarrow> (bytes \<times> bytes) list \<Rightarrow> hdu list \<Rightarrow> bool" where
  "file_of index offset [] us \<longleftrightarrow> us = []"
| "file_of index offset ((unit, data) # parts) us \<longleftrightarrow>
     (\<exists>u rest. us = u # rest \<and> whole_unit unit \<and> first_block (of_index index) unit = None
        \<and> hdu_parse index \<lparr>hu_bytes = unit, hu_sum = accumulate unit 0, hu_offset = offset\<rparr> = Inr u
        \<and> length data = hd_padded u \<and> file_of (index + 1) (offset + length unit + length data) parts rest)"

definition parts_bytes :: "(bytes \<times> bytes) list \<Rightarrow> bytes" where
  "parts_bytes parts = concat (map (\<lambda>(unit, data). unit @ data) parts)"

lemma parts_bytes_simps [simp]: "parts_bytes [] = []" "parts_bytes ((unit, data) # parts) = unit @ data @ parts_bytes parts"
  by (simp_all add: parts_bytes_def)

lemma parts_bytes_append: "parts_bytes (ps @ qs) = parts_bytes ps @ parts_bytes qs"
  by (simp add: parts_bytes_def)

lemma first_block_prefix: "8 \<le> length block \<Longrightarrow> first_block position (block @ rest) = first_block position block"
  by (simp add: first_block_def)

lemma unit_bytes_one: "unit_bytes bs offset 1 = take BLOCK_SIZE (drop offset bs)"
  by (simp add: unit_bytes_def)

lemma block_has_end_Nil [simp]: "\<not> block_has_end []"
  by (simp add: block_has_end_def)

section \<open>One unit\<close>

lemma first_block_take:
  assumes "8 \<le> n" and "8 \<le> length bs"
  shows "first_block position (take n bs) = first_block position bs"
  using first_block_prefix [of "take n bs" position "drop n bs"] assms by simp

context steady_source
begin

lemma read_block:
  assumes v: "valid (sc_source sc)" and b: "length bytes \<le> sc_offset sc" and l: "sc_offset sc + BLOCK_SIZE \<le> extent"
    and e: "extent = length (bytes_of (sc_source sc))"
    and block: "block = take BLOCK_SIZE (drop (sc_offset sc) (bytes_of (sc_source sc)))"
    and f: "bytes \<noteq> [] \<or> first_block position block = None"
  shows "\<exists>s'. valid s' \<and> bytes_of s' = bytes_of (sc_source sc)
    \<and> read_header read extent position bytes t sc
      = (if block_has_end block
         then Some (Inr (NextFound (bytes @ block) (accumulate block t)), sc\<lparr>sc_source := s', sc_offset := sc_offset sc + BLOCK_SIZE\<rparr>)
         else read_header read extent position (bytes @ block) (accumulate block t) (sc\<lparr>sc_source := s', sc_offset := sc_offset sc + BLOCK_SIZE\<rparr>))"
proof -
  obtain s' where s': "read (sc_offset sc) BLOCK_SIZE bytes (sc_source sc) = (Inr (bytes @ block), s')"
    using read_inside [OF v, of "sc_offset sc" BLOCK_SIZE bytes] b l e unfolding block by auto
  have off: "extent \<noteq> sc_offset sc" "\<not> extent < sc_offset sc" "\<not> extent - sc_offset sc < BLOCK_SIZE" using l by (auto simp: BLOCK_SIZE_def)
  have "(if bytes = [] then first_block position block else None) = None" using f by auto
  then show ?thesis
    using read_keeps [OF v s'] s' off by (intro exI [of _ s']) (simp add: read_header.simps [of read extent position bytes t sc] Let_def)
qed

lemma read_whole:
  assumes "valid (sc_source sc)" and "extent = length (bytes_of (sc_source sc))" and "length bytes \<le> sc_offset sc"
    and "drop (sc_offset sc) (bytes_of (sc_source sc)) = unit @ post" and "length unit = (n + 1) * BLOCK_SIZE"
    and "\<forall>i < n. \<not> block_has_end (unit_bytes unit (i * BLOCK_SIZE) 1)" and "block_has_end (unit_bytes unit (n * BLOCK_SIZE) 1)"
    and "bytes \<noteq> [] \<or> first_block position unit = None"
  shows "\<exists>s'. valid s' \<and> bytes_of s' = bytes_of (sc_source sc)
    \<and> read_header read extent position bytes t sc = Some (Inr (NextFound (bytes @ unit) (accumulate unit t)),
        sc\<lparr>sc_source := s', sc_offset := sc_offset sc + length unit\<rparr>)"
  using assms
proof (induction n arbitrary: bytes t sc unit)
  case 0
  have u: "take BLOCK_SIZE (drop (sc_offset sc) (bytes_of (sc_source sc))) = unit" using 0(4,5) by simp
  have "length (drop (sc_offset sc) (bytes_of (sc_source sc))) = length unit + length post" using 0(4) by simp
  then have "sc_offset sc + BLOCK_SIZE \<le> extent" using 0(2,5) by (simp add: BLOCK_SIZE_def)
  moreover have "block_has_end unit" using 0(5,7) by (simp add: unit_bytes_def)
  ultimately show ?case
    using read_block [OF 0(1,3) _ 0(2) u [symmetric], where position = position and t = t] 0(5,8) by auto
next
  case (Suc n)
  let ?off = "sc_offset sc"
  define block where "block = take BLOCK_SIZE unit"
  have lb: "length block = BLOCK_SIZE" using Suc.prems(5) by (simp add: block_def)
  have cut: "unit = block @ drop BLOCK_SIZE unit" by (simp add: block_def)
  have u: "block = take BLOCK_SIZE (drop ?off (bytes_of (sc_source sc)))" using Suc.prems(4,5) by (simp add: block_def)
  have "length (drop ?off (bytes_of (sc_source sc))) = length unit + length post" using Suc.prems(4) by simp
  then have l: "?off + BLOCK_SIZE \<le> extent" using Suc.prems(2,5) by (simp add: BLOCK_SIZE_def)
  have no: "\<not> block_has_end block" using Suc.prems(6) [rule_format, of 0] by (simp add: unit_bytes_def block_def)
  have f: "bytes \<noteq> [] \<or> first_block position block = None"
    using Suc.prems(5,8) first_block_take [of BLOCK_SIZE unit position] by (auto simp: block_def BLOCK_SIZE_def)
  obtain s1 where s1: "valid s1" "bytes_of s1 = bytes_of (sc_source sc)"
    "read_header read extent position bytes t sc
      = read_header read extent position (bytes @ block) (accumulate block t) (sc\<lparr>sc_source := s1, sc_offset := ?off + BLOCK_SIZE\<rparr>)"
    using read_block [OF Suc.prems(1,3) l Suc.prems(2) u f, of t] no by auto
  let ?sc = "sc\<lparr>sc_source := s1, sc_offset := ?off + BLOCK_SIZE\<rparr>"
  have shift: "unit_bytes (drop BLOCK_SIZE unit) (i * BLOCK_SIZE) 1 = unit_bytes unit (Suc i * BLOCK_SIZE) 1" for i
    by (simp add: unit_bytes_def add.commute)
  have d: "drop (sc_offset ?sc) (bytes_of (sc_source ?sc)) = drop BLOCK_SIZE unit @ post"
    using Suc.prems(4,5) s1(2) by (simp add: drop_drop [symmetric] add.commute del: drop_drop)
  have "\<exists>s'. valid s' \<and> bytes_of s' = bytes_of (sc_source ?sc)
    \<and> read_header read extent position (bytes @ block) (accumulate block t) ?sc
      = Some (Inr (NextFound ((bytes @ block) @ drop BLOCK_SIZE unit) (accumulate (drop BLOCK_SIZE unit) (accumulate block t))),
          ?sc\<lparr>sc_source := s', sc_offset := sc_offset ?sc + length (drop BLOCK_SIZE unit)\<rparr>)"
  proof (rule Suc.IH [OF _ _ _ d])
    show "\<forall>i < n. \<not> block_has_end (unit_bytes (drop BLOCK_SIZE unit) (i * BLOCK_SIZE) 1)" unfolding shift using Suc.prems(6) by (metis Suc_less_eq)
    show "block_has_end (unit_bytes (drop BLOCK_SIZE unit) (n * BLOCK_SIZE) 1)" using Suc.prems(7) unfolding shift .
    show "bytes @ block \<noteq> [] \<or> first_block position (drop BLOCK_SIZE unit) = None" using lb by (auto simp: BLOCK_SIZE_def)
  qed (use Suc.prems lb s1 in simp_all)
  moreover have "accumulate (drop BLOCK_SIZE unit) (accumulate block t) = accumulate unit t"
  proof -
    have "4 dvd length block" using lb by (simp add: BLOCK_SIZE_def)
    from accumulate_append [OF this, of "drop BLOCK_SIZE unit" t] show ?thesis using cut by simp
  qed
  moreover have "?off + BLOCK_SIZE + length (drop BLOCK_SIZE unit) = ?off + length unit" using Suc.prems(5) by simp
  ultimately show ?case using s1 cut by auto
qed

section \<open>The whole file\<close>

lemma next_hdu_found:
  assumes v: "valid (sc_source sc)" and d: "drop (sc_offset sc) (bytes_of (sc_source sc)) = unit @ post" and w: "whole_unit unit"
    and f: "first_block (of_index index) unit = None"
    and p: "hdu_parse index \<lparr>hu_bytes = unit, hu_sum = accumulate unit 0, hu_offset = sc_offset sc\<rparr> = Inr u"
    and max: "length (bytes_of (sc_source sc)) \<le> u64_max" and l: "hd_padded u \<le> length post"
  shows "\<exists>s'. valid s' \<and> bytes_of s' = bytes_of (sc_source sc)
    \<and> next_hdu size_of read index sc = Some (Inr (Some u), \<lparr>sc_source = s', sc_offset = sc_offset sc + length unit + hd_padded u\<rparr>)"
proof -
  let ?file = "bytes_of (sc_source sc)"
  obtain n where n: "length unit = (n + 1) * BLOCK_SIZE" "\<forall>i < n. \<not> block_has_end (unit_bytes unit (i * BLOCK_SIZE) 1)"
    "block_has_end (unit_bytes unit (n * BLOCK_SIZE) 1)"
    using w by (auto simp: whole_unit_def)
  obtain s' where s': "valid s'" "bytes_of s' = ?file"
    "read_header read (length ?file) (of_index index) [] 0 sc
      = Some (Inr (NextFound unit (accumulate unit 0)), sc\<lparr>sc_source := s', sc_offset := sc_offset sc + length unit\<rparr>)"
    using read_whole [OF v refl _ d n, of "[]" "of_index index" 0] f by auto
  have "length (drop (sc_offset sc) ?file) = length unit + length post" using d by simp
  then have len: "sc_offset sc + length unit + hd_padded u \<le> length ?file" using l n(1) by (simp add: BLOCK_SIZE_def)
  have o: "hd_data_offset u = sc_offset sc + length unit" using hdu_parse_fields(4) [OF p] by simp
  have "next_header size_of read (of_index index) sc
      = Some (Inr (NextFound unit (accumulate unit 0)), sc\<lparr>sc_source := s', sc_offset := sc_offset sc + length unit\<rparr>)"
    using s'(3) size_bytes [OF v] by (simp add: next_header_def)
  then show ?thesis
    using s'(1,2) p len o max size_bytes [OF s'(1)]
    by (intro exI [of _ s']) (cases sc, simp add: next_hdu_def take_unit_def checked_add_def min_absorb1)
qed

lemma next_hdu_end:
  assumes "valid (sc_source sc)" and "sc_offset sc = length (bytes_of (sc_source sc))"
  shows "next_hdu size_of read index sc = Some (Inr None, sc)"
  using assms size_bytes [OF assms(1)] read_header.simps [of read "sc_offset sc" "of_index index" "[]" 0 sc]
  by (simp add: next_hdu_def next_header_def take_unit_def)

lemma scan_loop_parts:
  assumes "valid (sc_source sc)" and "drop (sc_offset sc) (bytes_of (sc_source sc)) = parts_bytes parts"
    and "sc_offset sc \<le> length (bytes_of (sc_source sc))"
    and "file_of (length found) (sc_offset sc) parts us" and "length (bytes_of (sc_source sc)) \<le> u64_max" and "found @ us \<noteq> []"
  shows "\<exists>s'. scan_loop size_of read found sc = Some (Inr \<lparr>hs_list = found @ us, hs_defect = None\<rparr>, s')"
  using assms
proof (induction parts arbitrary: found sc us)
  case Nil
  then have "sc_offset sc = length (bytes_of (sc_source sc))" "us = []" by simp_all
  then show ?case using next_hdu_end [OF Nil.prems(1)] Nil.prems(6) by (subst scan_loop.simps) simp
next
  case (Cons part parts)
  obtain unit data where part: "part = (unit, data)" by (cases part)
  obtain u rest where u: "us = u # rest" "whole_unit unit" "first_block (of_index (length found)) unit = None"
    "hdu_parse (length found) \<lparr>hu_bytes = unit, hu_sum = accumulate unit 0, hu_offset = sc_offset sc\<rparr> = Inr u"
    "length data = hd_padded u" "file_of (length found + 1) (sc_offset sc + length unit + length data) parts rest"
    using Cons.prems(4) part by auto
  have d: "drop (sc_offset sc) (bytes_of (sc_source sc)) = unit @ (data @ parts_bytes parts)" using Cons.prems(2) part by simp
  obtain s' where s': "valid s'" "bytes_of s' = bytes_of (sc_source sc)"
    "next_hdu size_of read (length found) sc
      = Some (Inr (Some u), \<lparr>sc_source = s', sc_offset = sc_offset sc + length unit + hd_padded u\<rparr>)"
    using next_hdu_found [OF Cons.prems(1) d u(2,3,4) Cons.prems(5)] u(5) by auto
  let ?sc = "\<lparr>sc_source = s', sc_offset = sc_offset sc + length unit + hd_padded u\<rparr>"
  have "drop (length unit + length data) (drop (sc_offset sc) (bytes_of (sc_source sc))) = parts_bytes parts"
    unfolding d by simp
  then have d': "drop (sc_offset ?sc) (bytes_of (sc_source ?sc)) = parts_bytes parts" using s'(2) u(5) by (simp add: add_ac)
  have "length (drop (sc_offset sc) (bytes_of (sc_source sc))) = length unit + length data + length (parts_bytes parts)"
    unfolding d by simp
  then have "sc_offset ?sc \<le> length (bytes_of (sc_source ?sc))" using s'(2) u(5) Cons.prems(3) by simp
  with Cons.IH [of ?sc "found @ [u]" rest] s' d' u Cons.prems(5) have
    "\<exists>s''. scan_loop size_of read (found @ [u]) ?sc = Some (Inr \<lparr>hs_list = (found @ [u]) @ rest, hs_defect = None\<rparr>, s'')"
    by auto
  then show ?case using s'(3) u(1) by (subst scan_loop.simps) simp
qed

lemma scan_parts:
  assumes "valid s" and "bytes_of s = parts_bytes parts" and "file_of 0 0 parts us" and "length (bytes_of s) \<le> u64_max" and "us \<noteq> []"
  shows "\<exists>s'. hdus_scan size_of read s = Some (Inr \<lparr>hs_list = us, hs_defect = None\<rparr>, s')"
  using scan_loop_parts [of "\<lparr>sc_source = s, sc_offset = 0\<rparr>" parts "[]" us] assms by (simp add: hdus_scan_def)

end

end
