(* ===== verification/Writer_Effect.thy ===== *)
theory Writer_Effect
  imports Fits_Writer "HOL-Library.Sublist"
begin

text \<open>
  What a write does to its sink, proved once for every sink that appends: a write that succeeds appends the HDU's
  bytes, one that fails leaves a part of them and a writer that writes nothing more.
\<close>

section \<open>The bytes of a body\<close>

definition body_bytes :: "body \<Rightarrow> bytes" where
  "body_bytes body =
     (case body of
        BodyBytes bs \<Rightarrow> bs
      | BodySamples samples \<Rightarrow> view_bytes samples
      | BodyParts rows heap \<Rightarrow> rows @ concat heap)"

text \<open>A body in chunks: each given to \<open>each\<close> until one fails.\<close>

fun run_bytes :: "bytes list \<Rightarrow> (bytes \<Rightarrow> 's \<Rightarrow> unit run \<times> 's) \<Rightarrow> 's \<Rightarrow> unit run \<times> 's" where
  "run_bytes [] each s = (Inr (), s)"
| "run_bytes (bs # rest) each s = and_then (each bs s) (\<lambda>_ s. run_bytes rest each s)"

definition sample_chunks :: "view \<Rightarrow> bytes list" where
  "sample_chunks v =
     map (\<lambda>start. view_bytes (view_part start (min (start + CHUNK_SAMPLES) (view_len v)) v)) (chunk_starts (view_len v))"

lemma chunks_from_run:
  "\<forall>start \<in> set starts. start \<le> view_len v \<Longrightarrow> chunks_from starts v each s
    = run_bytes (map (\<lambda>start. view_bytes (view_part start (min (start + CHUNK_SAMPLES) (view_len v)) v)) starts) each s"
proof (induction starts arbitrary: s)
  case (Cons start starts)
  then show ?case
    by (simp add: view_slice_def encode_into_append and_then_def split: prod.split sum.split)
qed simp

lemma chunk_starts_le: "start \<in> set (chunk_starts n) \<Longrightarrow> start \<le> n"
proof -
  assume "start \<in> set (chunk_starts n)"
  then obtain i where i: "start = i * CHUNK_SAMPLES" "i < (n + CHUNK_SAMPLES - 1) div CHUNK_SAMPLES"
    unfolding chunk_starts_def by (auto simp only: set_map set_upt atLeastLessThan_iff)
  then have "Suc i \<le> (n + CHUNK_SAMPLES - 1) div CHUNK_SAMPLES" by simp
  then have "Suc i * CHUNK_SAMPLES \<le> n + CHUNK_SAMPLES - 1"
    by (metis (no_types) div_times_less_eq_dividend le_trans mult_le_mono1)
  then show ?thesis using i(1) by (simp add: CHUNK_SAMPLES_def)
qed

lemma each_chunk_run: "each_chunk v each s = run_bytes (sample_chunks v) each s"
  using chunks_from_run [of "chunk_starts (view_len v)" v each s] chunk_starts_le by (auto simp: each_chunk_def sample_chunks_def)

lemma view_bytes_empty: "view_len v = 0 \<Longrightarrow> view_bytes v = []"
  using view_bytes_length [of v] by simp

lemma chunks_concat:
  "concat (map (\<lambda>i. view_bytes (view_part (i * c) (min (i * c + c) (view_len v)) v)) [0..<n])
    = view_bytes (view_part 0 (min (n * c) (view_len v)) v)"
proof (induction n)
  case 0
  show ?case using view_len_part [of 0 v 0] view_bytes_empty by simp
next
  case (Suc n)
  let ?part = "\<lambda>a b. view_bytes (view_part a b v)" and ?len = "view_len v"
  have "?part 0 (min (n * c) ?len) @ ?part (n * c) (min (n * c + c) ?len) = ?part 0 (min (Suc n * c) ?len)"
  proof (cases "n * c \<le> ?len")
    case True
    then show ?thesis
      using view_part_split [of 0 "n * c" "min (n * c + c) ?len" v] by (simp add: add.commute [of c])
  next
    case False
    then have "?part (n * c) (min (n * c + c) ?len) = []"
      using view_len_part [of ?len v "n * c"] view_bytes_empty by simp
    moreover have "min (Suc n * c) ?len = min (n * c) ?len" using False by simp
    ultimately show ?thesis by simp
  qed
  then show ?case using Suc by simp
qed

lemma chunks_cover: "0 < c \<Longrightarrow> n \<le> (n + c - 1) div c * (c :: nat)"
  using div_mult_mod_eq [of "n + c - 1" c] mod_less_divisor [of c "n + c - 1"] by linarith

lemma sample_chunks_concat: "concat (sample_chunks v) = view_bytes v"
proof -
  let ?n = "(view_len v + CHUNK_SAMPLES - 1) div CHUNK_SAMPLES"
  have "0 < CHUNK_SAMPLES" by (simp add: CHUNK_SAMPLES_def)
  then have n: "min (?n * CHUNK_SAMPLES) (view_len v) = view_len v" using chunks_cover by (simp add: min_absorb2)
  have "concat (sample_chunks v) = view_bytes (view_part 0 (min (?n * CHUNK_SAMPLES) (view_len v)) v)"
    unfolding sample_chunks_def chunk_starts_def list.map_comp o_def by (rule chunks_concat)
  then show ?thesis by (simp only: n view_part_all)
qed

section \<open>The sum of a body\<close>

lemma run_total: "run_bytes bss (\<lambda>bs r. (Inr (), f r bs)) r = (Inr (), foldl f r bss)"
  by (induction bss arbitrary: r) simp_all

lemma sum_body_inv:
  assumes "running_inv r fed"
  shows "\<exists>r'. sum_body body r = Inr r' \<and> running_inv r' (fed @ body_bytes body)"
proof (cases body)
  case (BodyBytes bs)
  then show ?thesis using running_inv_update [OF assms] by (simp add: sum_body_def body_bytes_def)
next
  case (BodyParts rows heap)
  then show ?thesis using running_inv_pieces [OF running_inv_update [OF assms, of rows], of heap] by (simp add: sum_body_def body_bytes_def)
next
  case (BodySamples v)
  then show ?thesis using running_inv_pieces [OF assms, of "sample_chunks v"]
    by (simp add: sum_body_def body_bytes_def each_chunk_run run_total sample_chunks_concat)
qed

lemma body_signing_value:
  assumes "hf_checksums form = ChecksumsOn" and "4 dvd length (body_bytes body @ fill)"
  shows "body_signing form body fill = Inr (WithDataSum (accumulate (body_bytes body @ fill) 0))"
proof -
  obtain r where r: "sum_body body running_new = Inr r" "running_inv r (body_bytes body)"
    using sum_body_inv [OF running_inv_new, of body] by auto
  have "running_finish (running_update r fill) = accumulate (body_bytes body @ fill) 0"
    using running_inv_finish [OF running_inv_update [OF r(2), of fill]] assms(2) by simp
  then show ?thesis using assms(1) r(1) by (simp add: body_signing_def)
qed

lemma body_len_bytes: "body_len body = Inr n \<Longrightarrow> n = length (body_bytes body)"
proof (cases body)
  case (BodyParts rows heap)
  have "checked_total len cells = Some n \<Longrightarrow> n = len + length (concat cells)" for len cells
  proof (induction cells arbitrary: len)
    case (Cons cell cells)
    from Cons.prems have "checked_total (len + length cell) cells = Some n" by (auto simp: checked_add_def split: if_splits)
    from Cons.IH [OF this] show ?case by simp
  qed simp
  then show "body_len body = Inr n \<Longrightarrow> n = length (body_bytes body)"
    using BodyParts by (auto simp: body_len_def body_bytes_def ok_or_eq_Inr)
qed (auto simp: body_len_def body_bytes_def ok_or_eq_Inr checked_simps view_bytes_length)

section \<open>A sink that appends\<close>

locale byte_sink =
  fixes ops :: "'w sink_ops" and written :: "'w \<Rightarrow> bytes"
  assumes write_done: "sk_write_all ops bs s = (True, s') \<Longrightarrow> written s' = written s @ bs"
    and write_failed: "sk_write_all ops bs s = (False, s') \<Longrightarrow> \<exists>p. prefix p bs \<and> written s' = written s @ p"
begin

definition appends :: "'w writer \<Rightarrow> bytes \<Rightarrow> unit run \<times> 'w writer \<Rightarrow> bool" where
  "appends w bs out \<longleftrightarrow> wr_form (snd out) = wr_form w \<and>
     (if fst out = Inr ()
      then wr_state (snd out) = wr_state w \<and> written (wr_sink (snd out)) = written (wr_sink w) @ bs
      else wr_state (snd out) = WFailed \<and> (\<exists>p. prefix p bs \<and> written (wr_sink (snd out)) = written (wr_sink w) @ p))"

lemma appends_done [intro]: "appends w [] (Inr (), w)"
  by (simp add: appends_def)

lemma appends_emit [intro]: "wr_state w \<noteq> WFailed \<Longrightarrow> appends w bs (emit ops bs w)"
  using write_done [of bs "wr_sink w"] write_failed [of bs "wr_sink w"]
  by (cases "sk_write_all ops bs (wr_sink w)"; cases "fst (sk_write_all ops bs (wr_sink w))")
    (auto simp: appends_def emit_def ensure_usable_def split: writer_state.split)

lemma appends_then:
  assumes "appends w as out" and "wr_state w \<noteq> WFailed"
    and "\<And>w'. wr_state w' = wr_state w \<Longrightarrow> wr_form w' = wr_form w \<Longrightarrow> appends w' bs (f w')"
  shows "appends w (as @ bs) (and_then out (\<lambda>_. f))"
proof (cases out)
  case (Pair r w')
  show ?thesis
  proof (cases r)
    case (Inl e)
    then show ?thesis using assms(1) Pair prefix_order.trans prefixI by (fastforce simp: appends_def)
  next
    case (Inr u)
    then have w': "wr_state w' = wr_state w" "wr_form w' = wr_form w" "written (wr_sink w') = written (wr_sink w) @ as"
      using assms(1) Pair by (auto simp: appends_def)
    then show ?thesis using assms(3) [OF w'(1,2)] Pair Inr by (auto simp: appends_def)
  qed
qed

lemma appends_run:
  assumes "wr_state w \<noteq> WFailed"
  shows "appends w (concat bss) (run_bytes bss (\<lambda>bs. emit ops bs) w)"
  using assms
proof (induction bss arbitrary: w)
  case (Cons bs bss)
  show ?case unfolding run_bytes.simps concat.simps
    by (rule appends_then [OF appends_emit [OF Cons.prems] Cons.prems]) (use Cons in simp)
qed auto

lemma appends_gather:
  "wr_state w \<noteq> WFailed \<Longrightarrow> appends w (chunk @ concat parts) (gather_parts ops chunk parts w)"
proof (induction parts arbitrary: chunk w)
  case Nil
  then show ?case by (simp add: appends_emit appends_done)
next
  case (Cons part parts)
  define full where "full \<longleftrightarrow> length chunk + length part > CHUNK_BYTES \<and> chunk \<noteq> []"
  define rest where "rest = (if full then [] else chunk)"
  define first where "first = (if full then chunk else [])"
  have split: "chunk = first @ rest" by (simp add: first_def rest_def)
  have head: "appends w first (if full then emit ops chunk w else (Inr (), w))"
    using Cons.prems by (auto simp: first_def)
  have tail: "appends w' (rest @ part @ concat parts) (if length part \<ge> CHUNK_BYTES
      then and_then (emit ops part w') (\<lambda>_ w. gather_parts ops rest parts w) else gather_parts ops (rest @ part) parts w')"
    if w': "wr_state w' = wr_state w" for w'
  proof (cases "length part \<ge> CHUNK_BYTES")
    case True
    then have "chunk \<noteq> [] \<Longrightarrow> full" unfolding full_def using length_greater_0_conv [of chunk] by linarith
    then have r: "rest = []" by (cases "chunk = []") (simp_all add: rest_def)
    have "appends w' (part @ concat parts) (and_then (emit ops part w') (\<lambda>_ w. gather_parts ops [] parts w))"
      by (rule appends_then) (use Cons.prems Cons.IH [of _ "[]"] w' in auto)
    then show ?thesis using True r by simp
  next
    case False
    then show ?thesis using Cons.IH [of w' "rest @ part"] Cons.prems w' by simp
  qed
  have "appends w (first @ (rest @ part @ concat parts)) (and_then (if full then emit ops chunk w else (Inr (), w)) (\<lambda>_ w'.
      if length part \<ge> CHUNK_BYTES then and_then (emit ops part w') (\<lambda>_ w. gather_parts ops rest parts w)
      else gather_parts ops (rest @ part) parts w'))"
    by (rule appends_then [OF head Cons.prems]) (rule tail)
  then show ?case
    unfolding gather_parts.simps Let_def full_def [symmetric] rest_def [symmetric] using split by simp
qed

text \<open>A stream of samples sums every chunk that it writes.\<close>

lemma emit_sum_run:
  "run_bytes bss (\<lambda>bs st. case st of (w, sum_of) \<Rightarrow>
      let sum_of = map_option (\<lambda>r. running_update r bs) sum_of
      in case emit ops bs w of (r, w) \<Rightarrow> (r, (w, sum_of))) (w, None)
    = (case run_bytes bss (\<lambda>bs. emit ops bs) w of (r, w') \<Rightarrow> (r, (w', None)))"
proof (induction bss arbitrary: w)
  case (Cons bs bss)
  show ?case using Cons by (cases "emit ops bs w"; cases "fst (emit ops bs w)") auto
qed simp

lemma appends_body:
  assumes "wr_state w \<noteq> WFailed"
  shows "appends w (body_bytes body) (emit_body ops body w)"
proof (cases body)
  case (BodyParts rows heap)
  then show ?thesis using appends_gather [OF assms, of "[]" "rows # heap"] by (simp add: emit_body_def emit_parts_def body_bytes_def)
next
  case (BodySamples v)
  have "emit_body ops body w = run_bytes (sample_chunks v) (\<lambda>bs. emit ops bs) w"
    using BodySamples emit_sum_run [of "sample_chunks v" w]
    by (simp add: emit_body_def emit_samples_def each_chunk_run split: prod.split)
  then show ?thesis using BodySamples appends_run [OF assms, of "sample_chunks v"] by (simp add: body_bytes_def sample_chunks_concat)
qed (use assms in \<open>auto simp: emit_body_def body_bytes_def\<close>)

end

section \<open>One HDU\<close>

definition hdu_bytes :: "hdu_parts \<Rightarrow> body \<Rightarrow> bytes" where
  "hdu_bytes parts body =
     (case hp_primary parts of Some primary \<Rightarrow> primary | None \<Rightarrow> []) @ hp_header parts @ body_bytes body @ hp_fill parts"

definition merged :: "header \<Rightarrow> header option \<Rightarrow> header" where
  "merged h template = (case template of Some template \<Rightarrow> merge_header_template h template | None \<Rightarrow> h)"

context byte_sink
begin

text \<open>A write fails before its first byte and changes nothing, or appends the HDU's bytes, or breaks off and fails for
  good.\<close>

lemma finish_hdu_effect:
  assumes "finish_hdu ops h template body w = (r, w')"
  shows "(r = Inr () \<and> wr_state w \<noteq> WFailed \<and> wr_state w' = WActive \<and> wr_form w' = wr_form w
      \<and> (\<exists>pos parts. next_position w = Inr pos \<and> render_hdu (wr_form w) pos (merged h template) body = Inr parts
           \<and> written (wr_sink w') = written (wr_sink w) @ hdu_bytes parts body))
    \<or> (r \<noteq> Inr () \<and> w' = w)
    \<or> (r \<noteq> Inr () \<and> wr_state w \<noteq> WFailed \<and> wr_state w' = WFailed \<and> wr_form w' = wr_form w
      \<and> (\<exists>pos parts p. next_position w = Inr pos \<and> render_hdu (wr_form w) pos (merged h template) body = Inr parts
           \<and> prefix p (hdu_bytes parts body) \<and> written (wr_sink w') = written (wr_sink w) @ p))"
proof (cases "bind (next_position w) (\<lambda>pos. render_hdu (wr_form w) pos (merged h template) body)")
  case (Inl e)
  then have "r = Inl e \<and> w' = w"
    using assms by (cases "next_position w") (auto simp: finish_hdu_def merged_def Let_def)
  then show ?thesis by simp
next
  case (Inr parts)
  then obtain pos where pos: "next_position w = Inr pos" "render_hdu (wr_form w) pos (merged h template) body = Inr parts"
    by (auto simp: bind_eq_Inr)
  have w: "wr_state w \<noteq> WFailed" using pos(1) by (auto simp: next_position_def split: writer_state.split_asm)
  define steps where "steps = and_then (case hp_primary parts of Some primary \<Rightarrow> emit ops primary w | None \<Rightarrow> (Inr (), w)) (\<lambda>_ w.
    and_then (emit ops (hp_header parts) w) (\<lambda>_ w. and_then (emit_body ops body w) (\<lambda>_ w. emit ops (hp_fill parts) w)))"
  have "appends w (hdu_bytes parts body) steps"
    unfolding steps_def hdu_bytes_def
  proof (intro appends_then)
    show "appends w (case hp_primary parts of Some primary \<Rightarrow> primary | None \<Rightarrow> [])
      (case hp_primary parts of Some primary \<Rightarrow> emit ops primary w | None \<Rightarrow> (Inr (), w))"
      using w by (auto split: option.split)
  qed (use w appends_body in auto)
  moreover have "finish_hdu ops h template body w = and_then steps (\<lambda>_ w. (Inr (), w\<lparr>wr_state := WActive\<rparr>))"
    using pos by (simp add: finish_hdu_def merged_def Let_def steps_def and_then_def split: prod.split sum.split option.split)
  ultimately show ?thesis
    using assms pos w by (cases steps; cases "fst steps") (auto simp: appends_def)
qed

end

end
