(* ===== verification/Unit_Lookup.thy ===== *)
theory Unit_Lookup
  imports Hdu_Forward Header_Names_Correct
begin

text \<open>
  A rendered header unit reads back as the HDU that its header describes: rendering, signed or not, changes the
  value of no keyword but \<^verbatim>\<open>DATASUM\<close> and \<^verbatim>\<open>CHECKSUM\<close>, so the kind and the size of the data unit stay.
\<close>

section \<open>The first record of a keyword\<close>

definition rec_of :: "header_record list \<Rightarrow> keyword \<Rightarrow> header_record option" where
  "rec_of rs k = List.find (\<lambda>r. record_keyword r = Some k) rs"

lemma rec_of_simps [simp]:
  "rec_of [] k = None"
  "rec_of (r # rs) k = (if record_keyword r = Some k then Some r else rec_of rs k)"
  by (simp_all add: rec_of_def)

lemma rec_of_append: "rec_of (rs @ ss) k = (case rec_of rs k of Some r \<Rightarrow> Some r | None \<Rightarrow> rec_of ss k)"
  by (induction rs) auto

lemma rec_of_first_pos: "rec_of rs k = map_option ((!) rs) (first_pos record_keyword rs k)"
  by (induction rs) (auto simp: first_pos_def option.map_comp o_def cong: option.map_cong)

lemma rec_of_update:
  assumes "record_keyword (rs ! j) \<noteq> Some k" and "record_keyword r \<noteq> Some k" and "j < length rs"
  shows "rec_of (rs[j := r]) k = rec_of rs k"
  using assms by (induction rs arbitrary: j) (auto split: nat.split)

lemma rec_of_blanks: "rec_of (replicate m (Commentary [] None)) k = None"
  by (induction m) simp_all

lemma rec_of_drop_blank: "rec_of (drop_blank_records rs) k = rec_of rs k"
proof -
  obtain m where m: "rs = drop_blank_records rs @ replicate m (Commentary [] None)" using drop_blank_prefix by blast
  then have "rec_of rs k = rec_of (drop_blank_records rs @ replicate m (Commentary [] None)) k" by simp
  then show ?thesis by (simp add: rec_of_append rec_of_blanks split: option.split)
qed

lemma rec_of_signed_list:
  assumes "k \<notin> {''DATASUM'', ''CHECKSUM''}"
  shows "rec_of (signed_list signing sums i rs) k = rec_of rs k"
proof (induction rs arbitrary: i)
  case (Cons r rs)
  have "signed_record signing sums i r = r" if "record_keyword r = Some k"
    using that assms by (simp add: signed_record_def)
  then show ?case using Cons by (simp add: signed_record_keyword)
qed simp

section \<open>Headers that agree\<close>

definition agree :: "header \<Rightarrow> header \<Rightarrow> bool" where
  "agree h h' \<longleftrightarrow> (\<forall>k. k \<notin> {''DATASUM'', ''CHECKSUM''} \<longrightarrow> header_value h' (KeywordName k) = header_value h (KeywordName k))"

lemma header_value_rec:
  assumes "header_inv h"
  shows "header_value h (KeywordName k)
    = (case rec_of (h_records h) k of None \<Rightarrow> Inr None | Some r \<Rightarrow> bind (value_or_defect r) (\<lambda>v. Inr (Some v)))"
proof (cases "first_pos record_keyword (h_records h) k")
  case (Some i)
  then show ?thesis using assms first_pos_lt [OF Some]
    by (simp add: header_value_def header_inv_def rec_of_first_pos record_at_def)
qed (use assms in \<open>simp add: header_value_def header_inv_def rec_of_first_pos\<close>)

lemma agree_records:
  assumes "header_inv h" and "header_inv h'"
    and "\<And>k. k \<notin> {''DATASUM'', ''CHECKSUM''} \<Longrightarrow> rec_of (h_records h') k = rec_of (h_records h) k"
  shows "agree h h'"
  using assms by (simp add: agree_def header_value_rec)

lemma agree_get:
  assumes "agree h h'" and "k \<notin> {''DATASUM'', ''CHECKSUM''}"
  shows "get_logical h' (KeywordName k) = get_logical h (KeywordName k)" "get_text h' (KeywordName k) = get_text h (KeywordName k)"
    "get_integer h' (KeywordName k) = get_integer h (KeywordName k)" "require_integer h' (KeywordName k) = require_integer h (KeywordName k)"
    "require_usize h' k = require_usize h k" "header_get h' (KeywordName k) = header_get h (KeywordName k)"
  using assms unfolding agree_def
  by (simp_all add: get_logical_def get_text_def get_integer_def require_integer_def typed_required_def typed_optional_def
      require_usize_def header_get_def)

lemma agree_axes_from: "agree h h' \<Longrightarrow> collect_axes h' ns = collect_axes h ns"
proof (induction ns)
  case (Cons n ns)
  have "require_usize h' k = require_usize h k" if "keyword_indexed ''NAXIS'' n = Inr k" for k
  proof -
    have "k = ''NAXIS'' @ show_nat n"
      using that by (simp add: keyword_indexed_def keyword_from_format_eq split: if_split_asm)
    then show ?thesis using agree_get(5) [OF Cons.prems, of k] by simp
  qed
  then show ?case using Cons by (cases "keyword_indexed ''NAXIS'' n") simp_all
qed simp

lemma agree_axes: "agree h h' \<Longrightarrow> header_axes h' = header_axes h"
  using agree_get(5) [of h h' "''NAXIS''"] by (simp add: header_axes_def header_naxis_def agree_axes_from)

lemma agree_kind: "agree h h' \<Longrightarrow> kind_from_header h' position = kind_from_header h position"
  by (simp add: kind_from_header_def agree_get agree_axes cong: if_cong)

lemma agree_counts: "agree h h' \<Longrightarrow> required_group_counts h' = required_group_counts h"
  by (simp add: required_group_counts_def required_count_def agree_get)

lemma agree_grouped: "agree h h' \<Longrightarrow> grouped_data_bytes elem n h' = grouped_data_bytes elem n h"
  by (simp add: grouped_data_bytes_def agree_counts)

lemma agree_data_bytes: "agree h h' \<Longrightarrow> data_bytes kind h' = data_bytes kind h"
  by (simp add: data_bytes_def header_bitpix_def agree_get agree_axes agree_grouped cong: hdu_kind.case_cong list.case_cong)

section \<open>The unit of a rendered header\<close>

text \<open>What a header needs for its unit to be found: indexes that are right, records that read back, and the keyword
  of its place in the file first.\<close>

definition head_keyword :: "hdu_position \<Rightarrow> keyword" where
  "head_keyword position = (case position of PrimaryPos \<Rightarrow> ''SIMPLE'' | ExtensionPos \<Rightarrow> ''XTENSION'')"

definition opens_with :: "keyword \<Rightarrow> header_record list \<Rightarrow> bool" where
  "opens_with k rs \<longleftrightarrow> (\<exists>v c rest. rs = Valued k v c # rest)"

definition plain_header :: "header \<Rightarrow> bool" where
  "plain_header h \<longleftrightarrow> header_inv h \<and> list_all record_ok (h_records h)"

text \<open>The records that a unit of the header reads back as.\<close>

definition unit_of :: "bytes \<Rightarrow> header_record list \<Rightarrow> bool" where
  "unit_of unit rs \<longleftrightarrow> (\<exists>raws spare. unit = fill_unit (concat raws) spare \<and> list_all2 parses_as raws rs \<and> list_all2 opens_as raws rs)"

lemma unsigned_unit:
  assumes "plain_header h" and "header_render h Unsigned space = Inr bs"
  shows "unit_of bs (h_records h)"
proof -
  obtain out at spare where out: "render_records h Unsigned = Inr (out, at)" "bs = fill_unit out spare"
    using assms(2) by (auto simp: header_render_def bind_eq_Inr Let_def sign_unit_def split: if_split_asm)
  then obtain st where "render_each Unsigned {h_index h ''DATASUM'', h_index h ''CHECKSUM''} 0 (h_records h) ([], None) = Inr st"
    "fst st = out" by (auto simp: render_records_def Let_def bind_eq_Inr)
  from render_each_unsigned [OF this(1)] this(2)
  obtain raws where raws: "renders raws (h_records h)" "out = concat raws" by auto
  have ok: "list_all record_ok (h_records h)" using assms(1) by (simp add: plain_header_def)
  show ?thesis
    unfolding unit_of_def using out(2) raws(2) renders_parse [OF raws(1) ok] renders_open [OF raws(1) ok] by blast
qed

text \<open>The records that a signing leaves, and that they still agree with the header's.\<close>

definition signing_records :: "signing \<Rightarrow> header \<Rightarrow> header_record list \<Rightarrow> bool" where
  "signing_records signing h rs \<longleftrightarrow>
     (case signing of
        Unsigned \<Rightarrow> rs = h_records h
      | SignPlaceholder \<Rightarrow> False
      | WithDataSum d \<Rightarrow> signed_records_of h d rs)"

lemma rendered_unit:
  assumes "plain_header h" and "header_render h signing space = Inr bs" and "signing \<noteq> SignPlaceholder"
  obtains rs where "unit_of bs rs" and "signing_records signing h rs"
    and "\<And>d. signing = WithDataSum d \<Longrightarrow> combine (accumulate bs 0) d = 0xFFFFFFFF"
proof (cases signing)
  case Unsigned
  then show ?thesis using that [of "h_records h"] unsigned_unit assms by (simp add: signing_records_def)
next
  case (WithDataSum d)
  then have r: "header_render h (WithDataSum d) space = Inr bs" using assms(2) by simp
  have p: "header_inv h" "list_all record_ok (h_records h)" using assms(1) by (simp_all add: plain_header_def)
  obtain raws rs spare where "bs = fill_unit (concat raws) spare" "list_all2 parses_as raws rs" "list_all2 opens_as raws rs"
    "signed_records_of h d rs" "combine (accumulate bs 0) d = 0xFFFFFFFF"
    using signed_unit [OF p r] .
  then show ?thesis using that [of rs] WithDataSum by (auto simp: signing_records_def unit_of_def)
qed (use assms(3) in simp)

lemma signing_records_rec:
  assumes "signing_records signing h rs" and "k \<notin> {''DATASUM'', ''CHECKSUM''}"
  shows "rec_of rs k = rec_of (h_records h) k"
proof (cases signing)
  case (WithDataSum d)
  then obtain j t c where rs: "rs = (signed_header_records h d)[j := Valued ''CHECKSUM'' (VText t) c]"
    and j: "checksum_place (signed_header_records h d) j"
    using assms(1) by (auto simp: signing_records_def signed_records_of_def)
  have "rec_of rs k = rec_of (signed_header_records h d) k"
    unfolding rs by (rule rec_of_update) (use j assms(2) in \<open>auto simp: checksum_place_def\<close>)
  also have "\<dots> = rec_of (h_records h) k"
    using assms(2) by (auto simp: signed_header_records_def Let_def rec_of_append rec_of_signed_list split: option.split)
  finally show ?thesis .
qed (use assms in \<open>simp_all add: signing_records_def\<close>)

lemma signing_records_open:
  assumes "signing_records signing h rs" and "opens_with k (h_records h)" and "k \<notin> {''DATASUM'', ''CHECKSUM''}"
  shows "opens_with k rs"
proof (cases signing)
  case (WithDataSum d)
  then obtain j t c where rs: "rs = (signed_header_records h d)[j := Valued ''CHECKSUM'' (VText t) c]"
    and j: "checksum_place (signed_header_records h d) j"
    using assms(1) by (auto simp: signing_records_def signed_records_of_def)
  obtain v c' rest where h: "h_records h = Valued k v c' # rest" using assms(2) by (auto simp: opens_with_def)
  then obtain tail where s: "signed_header_records h d = Valued k v c' # tail"
    using assms(3) by (simp add: signed_header_records_def Let_def signed_record_def)
  then have "j \<noteq> 0" using j assms(3) by (cases j) (auto simp: checksum_place_def)
  then show ?thesis using rs s by (cases j) (simp_all add: opens_with_def)
qed (use assms in \<open>simp_all add: signing_records_def\<close>)

section \<open>The HDU of a rendered header\<close>

lemma rendered_opens:
  assumes "unit_of unit rs" and "opens_with k rs" and "length k \<le> 8"
  shows "take 8 unit = as_bytes (k @ blanks (8 - length k))"
  using assms unit_opens by (fastforce simp: unit_of_def opens_with_def)

lemma head_opens: "take 8 unit = as_bytes (head_keyword position @ blanks (8 - length (head_keyword position)))
    \<Longrightarrow> first_block position unit = None"
  by (cases position) (simp_all add: first_block_def head_keyword_def eval_nat_numeral)

lemma rendered_parse:
  assumes p: "plain_header h" and r: "header_render h signing space = Inr unit" and s: "signing \<noteq> SignPlaceholder"
  obtains rs where "whole_unit unit" and "header_parse unit = Inr (header_of (drop_blank_records rs))"
    and "agree h (header_of (drop_blank_records rs))" and "unit_of unit rs" and "signing_records signing h rs"
    and "\<And>d. signing = WithDataSum d \<Longrightarrow> combine (accumulate unit 0) d = 0xFFFFFFFF"
proof -
  obtain rs where rs: "unit_of unit rs" "signing_records signing h rs"
    "\<And>d. signing = WithDataSum d \<Longrightarrow> combine (accumulate unit 0) d = 0xFFFFFFFF"
    using rendered_unit [OF p r s] by blast
  have "whole_unit unit" "header_parse unit = Inr (header_of (drop_blank_records rs))"
    using rs(1) fill_unit_whole parse_unit by (auto simp: unit_of_def)
  moreover have "agree h (header_of (drop_blank_records rs))"
    using p signing_records_rec [OF rs(2)]
    by (intro agree_records) (simp_all add: plain_header_def header_inv_def header_of_def rec_of_drop_blank)
  ultimately show ?thesis using that rs by blast
qed

text \<open>What a written header's HDU is: the header's own but for the sums, which are right.\<close>

definition same_hdu :: "header \<Rightarrow> hdu_kind \<Rightarrow> nat \<Rightarrow> signing \<Rightarrow> hdu \<Rightarrow> bool" where
  "same_hdu h kind n signing u \<longleftrightarrow> agree h (hd_header u) \<and> hd_kind u = kind \<and> hd_data_bytes u = n
     \<and> (case signing of
          Unsigned \<Rightarrow> h_records (hd_header u) = drop_blank_records (h_records h)
        | SignPlaceholder \<Rightarrow> False
        | WithDataSum d \<Rightarrow> declared_read (hd_header u) = Inr \<lparr>de_datasum = DeclPresent d, de_checksum = DeclPresent 0\<rparr>
            \<and> combine (hd_header_sum u) d = 0xFFFFFFFF)"

lemma rendered_hdu:
  assumes p: "plain_header h" and o: "opens_with (head_keyword (of_index index)) (h_records h)"
    and r: "header_render h signing space = Inr unit" and s: "signing \<noteq> SignPlaceholder"
    and k: "kind_from_header h (of_index index) = Inr kind" and n: "data_bytes kind h = Inr n"
  obtains u where "whole_unit unit" and "first_block (of_index index) unit = None"
    and "hdu_parse index \<lparr>hu_bytes = unit, hu_sum = accumulate unit 0, hu_offset = offset\<rparr> = Inr u"
    and "same_hdu h kind n signing u" and "padded_len n = Some (hd_padded u)"
proof -
  obtain rs where rs: "whole_unit unit" "header_parse unit = Inr (header_of (drop_blank_records rs))"
    "agree h (header_of (drop_blank_records rs))" "unit_of unit rs" "signing_records signing h rs"
    "\<And>d. signing = WithDataSum d \<Longrightarrow> combine (accumulate unit 0) d = 0xFFFFFFFF"
    using rendered_parse [OF p r s] by blast
  have hk: "head_keyword (of_index index) \<notin> {''DATASUM'', ''CHECKSUM''}" "length (head_keyword (of_index index)) \<le> 8"
    by (simp_all add: head_keyword_def split: hdu_position.split)
  have f: "first_block (of_index index) unit = None"
    by (rule head_opens [OF rendered_opens [OF rs(4) signing_records_open [OF rs(5) o hk(1)] hk(2)]])
  obtain padded where padded: "padded_len n = Some padded" using n by (auto simp: data_bytes_def Let_def bind_eq_Inr ok_or_eq_Inr)
  define u where "u = \<lparr>hd_index = index, hd_header = header_of (drop_blank_records rs), hd_kind = kind,
    hd_header_sum = accumulate unit 0, hd_header_offset = offset, hd_data_offset = offset + length unit,
    hd_header_blocks = length unit div BLOCK_SIZE, hd_data_bytes = n, hd_padded = padded\<rparr>"
  have "hdu_parse index \<lparr>hu_bytes = unit, hu_sum = accumulate unit 0, hu_offset = offset\<rparr> = Inr u"
    using rs(2) agree_kind [OF rs(3)] agree_data_bytes [OF rs(3)] k n padded by (simp add: hdu_parse_def u_def)
  moreover have "same_hdu h kind n signing u"
    using rs(3,5,6) s signed_declares
    by (auto simp: same_hdu_def u_def signing_records_def header_of_def split: signing.split)
  ultimately show ?thesis using that [of u] rs(1) f padded by (simp add: u_def)
qed

end
