(* ===== verification/Cursor_Sink.thy ===== *)
theory Cursor_Sink
  imports Writer_Effect Byte_Source
begin

text \<open>
  The standard library's cursors as sinks: one over a vector, which grows, and one over a slice, which is full at its
  end. Both append at their position, so what is proved of \<open>byte_sink\<close> holds of a writer over either.
\<close>

definition vec_cursor_ops :: "cursor sink_ops" where
  "vec_cursor_ops = \<lparr>
     sk_write_all = (\<lambda>bs c.
       let at = cu_position c; padded = cu_bytes c @ replicate (at - length (cu_bytes c)) 0
       in (True, \<lparr>cu_bytes = take at padded @ bs @ drop (at + length bs) padded, cu_position = at + length bs\<rparr>)),
     sk_position = (\<lambda>c. (Some (cu_position c), c)),
     sk_seek = (\<lambda>n c. (True, c\<lparr>cu_position := n\<rparr>))\<rparr>"

definition vec_written :: "cursor \<Rightarrow> bytes" where
  "vec_written c = take (cu_position c) (cu_bytes c @ replicate (cu_position c - length (cu_bytes c)) 0)"

interpretation vec: byte_sink vec_cursor_ops vec_written
proof
  fix bs :: bytes and s s' :: cursor
  have len: "length (take (cu_position s) (cu_bytes s @ replicate (cu_position s - length (cu_bytes s)) 0)) = cu_position s"
    by simp
  show "sk_write_all vec_cursor_ops bs s = (True, s') \<Longrightarrow> vec_written s' = vec_written s @ bs"
    using len by (auto simp: vec_cursor_ops_def vec_written_def Let_def simp del: length_take)
  show "sk_write_all vec_cursor_ops bs s = (False, s') \<Longrightarrow> \<exists>p. prefix p bs \<and> vec_written s' = vec_written s @ p"
    by (simp add: vec_cursor_ops_def Let_def)
qed

definition slice_cursor_ops :: "cursor sink_ops" where
  "slice_cursor_ops = \<lparr>
     sk_write_all = (\<lambda>bs c.
       let at = cu_position c; part = take (length (cu_bytes c) - at) bs
       in (length part = length bs,
           \<lparr>cu_bytes = take at (cu_bytes c) @ part @ drop (at + length part) (cu_bytes c), cu_position = at + length part\<rparr>)),
     sk_position = (\<lambda>c. (Some (cu_position c), c)),
     sk_seek = (\<lambda>n c. (True, c\<lparr>cu_position := n\<rparr>))\<rparr>"

definition slice_written :: "cursor \<Rightarrow> bytes" where
  "slice_written c = take (cu_position c) (cu_bytes c)"

lemma slice_cursor_write:
  assumes "sk_write_all slice_cursor_ops bs s = (done_ok, s')"
  shows "slice_written s' = slice_written s @ take (length (cu_bytes s) - cu_position s) bs
    \<and> (done_ok \<longleftrightarrow> length (take (length (cu_bytes s) - cu_position s) bs) = length bs)"
proof (cases "cu_position s \<le> length (cu_bytes s)")
  case True
  then show ?thesis using assms by (auto simp: slice_cursor_ops_def slice_written_def Let_def min_def)
next
  case False
  then show ?thesis using assms by (auto simp: slice_cursor_ops_def slice_written_def Let_def)
qed

interpretation slice: byte_sink slice_cursor_ops slice_written
  by unfold_locales (auto dest!: slice_cursor_write simp: take_is_prefix min_def split: if_split_asm)

section \<open>A write to a vector\<close>

text \<open>A vector's cursor never fails, so a write whose HDU renders is done.\<close>

lemma vec_emit: "wr_state w \<noteq> WFailed \<Longrightarrow> \<exists>c. emit vec_cursor_ops bs w = (Inr (), w\<lparr>wr_sink := c\<rparr>)"
  by (cases "wr_state w") (auto simp: emit_def ensure_usable_def vec_cursor_ops_def Let_def)

lemma vec_finish:
  assumes "next_position w = Inr pos" and "render_hdu (wr_form w) pos (merged h template) (BodyBytes raw) = Inr parts"
  shows "\<exists>w'. finish_hdu vec_cursor_ops h template (BodyBytes raw) w = (Inr (), w')"
proof -
  have w: "wr_state w \<noteq> WFailed" using assms(1) by (auto simp: next_position_def)
  obtain c0 where c0: "(case hp_primary parts of Some primary \<Rightarrow> emit vec_cursor_ops primary w | None \<Rightarrow> (Inr (), w)) = (Inr (), w\<lparr>wr_sink := c0\<rparr>)"
    using vec_emit [OF w] by (cases "hp_primary parts") (fastforce intro: that [of "wr_sink w"])+
  have step: "\<exists>c'. emit vec_cursor_ops bs (w\<lparr>wr_sink := c\<rparr>) = (Inr (), w\<lparr>wr_sink := c'\<rparr>)" for bs c
    using vec_emit [of "w\<lparr>wr_sink := c\<rparr>" bs] w by auto
  obtain c1 where c1: "emit vec_cursor_ops (hp_header parts) (w\<lparr>wr_sink := c0\<rparr>) = (Inr (), w\<lparr>wr_sink := c1\<rparr>)" using step by blast
  obtain c2 where c2: "emit vec_cursor_ops raw (w\<lparr>wr_sink := c1\<rparr>) = (Inr (), w\<lparr>wr_sink := c2\<rparr>)" using step by blast
  obtain c3 where c3: "emit vec_cursor_ops (hp_fill parts) (w\<lparr>wr_sink := c2\<rparr>) = (Inr (), w\<lparr>wr_sink := c3\<rparr>)" using step by blast
  show ?thesis
    using assms c0 c1 c2 c3 by (simp add: finish_hdu_def merged_def [symmetric] emit_body_def)
qed

end
