(* ===== verification/File_Roundtrip.thy ===== *)
theory File_Roundtrip
  imports Unit_Lookup Cursor_Sink
begin

text \<open>
  What the writer writes, the reader finds: a run of raw HDUs written to a new sink is scanned back, from any source
  that serves the same bytes, as the same HDUs, with their data and, where the writer signs, with sums that verify.
\<close>

section \<open>The empty primary\<close>

lemma expect_eq_Inr: "expect r = Inr a \<longleftrightarrow> r = Inr a"
  by (cases r) (simp_all add: expect_def)

lemma prologue_inv: "prologue_header p = Inr h \<Longrightarrow> header_inv h"
proof -
  have set: "set_internal h k v = Inr h' \<Longrightarrow> header_inv h \<Longrightarrow> header_inv h'" for h k v h'
    by (auto simp: set_internal_def expect_eq_Inr intro: inv_set)
  have commented: "set_commented h k v c = Inr h' \<Longrightarrow> header_inv h \<Longrightarrow> header_inv h'" for h k v c h'
    by (auto simp: set_commented_def bind_eq_Inr set_comment_internal_def expect_eq_Inr intro: inv_set_comment set)
  have axes: "prologue_axes n lens h = Inr h' \<Longrightarrow> header_inv h \<Longrightarrow> header_inv h'" for n lens h h'
    by (induction n lens h rule: prologue_axes.induct) (auto simp: bind_eq_Inr intro: set)
  have head: "prologue_open head h = Inr h' \<Longrightarrow> header_inv h \<Longrightarrow> header_inv h'" for head h h'
    by (auto simp: prologue_open_def intro: commented split: header_opening.split_asm)
  have close: "prologue_close head n h = Inr h' \<Longrightarrow> header_inv h \<Longrightarrow> header_inv h'" for head n h h'
    by (auto simp: prologue_close_def bind_eq_Inr intro: commented set split: header_opening.split_asm if_split_asm)
  assume "prologue_header p = Inr h"
  then show ?thesis
    by (auto simp: prologue_header_def bind_eq_Inr intro!: inv_new elim!: close axes commented head split: if_split_asm)
qed

definition empty_primary :: header where
  "empty_primary = projr empty_primary_header"

lemma empty_primary: "empty_primary_header = Inr empty_primary"
proof -
  have "case empty_primary_header of Inr _ \<Rightarrow> True | Inl _ \<Rightarrow> False" by code_simp
  then obtain h where "empty_primary_header = Inr h" by (metis sum.case(1) obj_sumE)
  then show ?thesis unfolding empty_primary_def by (elim ssubst) simp
qed

lemma bind_empty_primary: "bind empty_primary_header f = f empty_primary"
  unfolding empty_primary by simp

lemma empty_primary_plain: "plain_header empty_primary"
proof -
  have "bind empty_primary_header (\<lambda>h. Inr (list_all record_ok (h_records h))) = Inr True" by code_simp
  then have "list_all record_ok (h_records empty_primary)" by (simp add: bind_empty_primary)
  moreover have "header_inv empty_primary" by (rule prologue_inv [OF empty_primary [unfolded empty_primary_header_def]])
  ultimately show ?thesis by (simp add: plain_header_def)
qed

lemma empty_primary_opens: "opens_with ''SIMPLE'' (h_records empty_primary)"
proof -
  have "bind empty_primary_header (\<lambda>h. Inr (take 1 (h_records h)))
    = Inr [Valued ''SIMPLE'' (VLogical True) (Some ''file conforms to FITS standard'')]" by code_simp
  then have "take 1 (h_records empty_primary) = [Valued ''SIMPLE'' (VLogical True) (Some ''file conforms to FITS standard'')]"
    unfolding bind_empty_primary sum.inject .
  then show ?thesis unfolding opens_with_def by (metis append_Cons append_Nil append_take_drop_id)
qed

lemma empty_primary_kind: "kind_from_header empty_primary PrimaryPos = Inr Primary" "data_bytes Primary empty_primary = Inr 0"
proof -
  have "bind empty_primary_header (\<lambda>h. kind_from_header h PrimaryPos) = Inr Primary" by code_simp
  then show "kind_from_header empty_primary PrimaryPos = Inr Primary" by (simp add: bind_empty_primary)
  have "bind empty_primary_header (\<lambda>h. require_integer h (KeywordName ''BITPIX'')) = Inr 8"
    "bind empty_primary_header (\<lambda>h. require_integer h (KeywordName ''NAXIS'')) = Inr 0" by code_simp+
  then have "header_bitpix empty_primary = Inr U8" "header_axes empty_primary = Inr []"
    by (simp_all add: bind_empty_primary header_bitpix_def bitpix_try_from_def header_axes_def header_naxis_def require_usize_def usize_from_def)
  moreover have "padded_len 0 = Some 0" by (simp add: padded_len_eq padding_def BLOCK_SIZE_def)
  ultimately show "data_bytes Primary empty_primary = Inr 0"
    by (simp add: data_bytes_def axis_product_def checked_mul_def)
qed

section \<open>One written HDU\<close>

text \<open>The HDU that a header and its data are stored as: the header's values but for the sums, its kind, its data and
  their fill; and its records exactly, or sums that verify.\<close>

definition stored :: "header_form \<Rightarrow> header \<Rightarrow> bytes \<Rightarrow> bytes \<Rightarrow> hdu \<Rightarrow> bool" where
  "stored form h raw unit_data u \<longleftrightarrow> agree h (hd_header u) \<and> kind_from_header h (of_index (hd_index u)) = Inr (hd_kind u)
     \<and> hd_data_bytes u = length raw \<and> unit_data = raw @ block_fill (hd_kind u) (length raw)
     \<and> (case hf_checksums form of
          ChecksumsOff \<Rightarrow> h_records (hd_header u) = drop_blank_records (h_records h)
        | ChecksumsOn \<Rightarrow> \<exists>found. declared_read (hd_header u) = Inr found
            \<and> checksum_verdict found (hd_header_sum u) (Inr (accumulate unit_data 0))
              = Inr \<lparr>cr_datasum = StatusValid, cr_checksum = StatusValid\<rparr>)"

definition form_signing :: "header_form \<Rightarrow> bytes \<Rightarrow> signing" where
  "form_signing form unit_data =
     (case hf_checksums form of ChecksumsOff \<Rightarrow> Unsigned | ChecksumsOn \<Rightarrow> WithDataSum (accumulate unit_data 0))"

lemma same_hdu_stored:
  assumes "same_hdu h kind (length raw) (form_signing form unit_data) u" and "kind_from_header h (of_index (hd_index u)) = Inr kind"
    and "unit_data = raw @ block_fill kind (length raw)"
  shows "stored form h raw unit_data u"
proof (cases "hf_checksums form")
  case ChecksumsOff
  then show ?thesis using assms by (simp add: stored_def same_hdu_def form_signing_def)
next
  case ChecksumsOn
  then have "declared_read (hd_header u) = Inr \<lparr>de_datasum = DeclPresent (accumulate unit_data 0), de_checksum = DeclPresent 0\<rparr>"
    "combine (hd_header_sum u) (accumulate unit_data 0) = 0xFFFFFFFF"
    using assms(1) by (simp_all add: same_hdu_def form_signing_def)
  then show ?thesis using assms ChecksumsOn
    by (simp add: stored_def same_hdu_def checksum_verdict_def declared_data_sum_def)
qed

text \<open>A part of a file that an HDU stands for, at an offset.\<close>

definition stands :: "nat \<Rightarrow> nat \<Rightarrow> bytes \<Rightarrow> bytes \<Rightarrow> hdu \<Rightarrow> bool" where
  "stands index offset unit unit_data u \<longleftrightarrow> whole_unit unit \<and> first_block (of_index index) unit = None
     \<and> hdu_parse index \<lparr>hu_bytes = unit, hu_sum = accumulate unit 0, hu_offset = offset\<rparr> = Inr u \<and> length unit_data = hd_padded u"

lemma file_of_Cons: "file_of index offset ((unit, unit_data) # parts) us
    \<longleftrightarrow> (\<exists>u rest. us = u # rest \<and> stands index offset unit unit_data u
          \<and> file_of (index + 1) (offset + length unit + length unit_data) parts rest)"
  by (auto simp: stands_def)

declare file_of.simps(2) [simp del] file_of_Cons [simp]

lemma rendered_stands:
  assumes p: "plain_header h" and o: "opens_with (head_keyword (of_index index)) (h_records h)"
    and k: "kind_from_header h (of_index index) = Inr kind" and n: "data_bytes kind h = Inr (length raw)"
    and d: "unit_data = raw @ block_fill kind (length raw)" and r: "header_render h (form_signing form unit_data) space = Inr unit"
  obtains u where "stands index offset unit unit_data u" and "stored form h raw unit_data u"
proof -
  have "form_signing form unit_data \<noteq> SignPlaceholder" by (simp add: form_signing_def split: checksums.split)
  from rendered_hdu [OF p o r this k n] obtain u where u: "whole_unit unit" "first_block (of_index index) unit = None"
    "hdu_parse index \<lparr>hu_bytes = unit, hu_sum = accumulate unit 0, hu_offset = offset\<rparr> = Inr u"
    "same_hdu h kind (length raw) (form_signing form unit_data) u" "padded_len (length raw) = Some (hd_padded u)" by blast
  have "length unit_data = hd_padded u" using u(5) by (simp add: d block_fill_def padded_len_eq)
  moreover have "stored form h raw unit_data u" using same_hdu_stored [OF u(4) _ d] hdu_parse_fields(1) [OF u(3)] k by simp
  ultimately show ?thesis using that u by (simp add: stands_def)
qed

lemma signing_of_body:
  assumes "body_signing form (BodyBytes raw) (block_fill kind (length raw)) = Inr signing"
  shows "signing = form_signing form (raw @ block_fill kind (length raw))"
proof (cases "hf_checksums form")
  case ChecksumsOff
  then show ?thesis using assms by (simp add: body_signing_def form_signing_def)
next
  case ChecksumsOn
  have "length (raw @ block_fill kind (length raw)) = blocks_for (length raw) * BLOCK_SIZE"
    by (simp add: block_fill_def padding_blocks)
  then have "4 dvd length (raw @ block_fill kind (length raw))" by (simp add: BLOCK_SIZE_def)
  then show ?thesis
    using assms ChecksumsOn body_signing_value [of form "BodyBytes raw" "block_fill kind (length raw)"]
    by (simp add: form_signing_def body_bytes_def)
qed

text \<open>What a render of raw data gives: the header's unit and the data's, and the empty primary before an extension
  that is written first.\<close>

lemma render_raw:
  assumes r: "render_hdu form pos h (BodyBytes raw) = Inr parts" and p: "plain_header h"
    and at: "placed h pos = Inr (of_index index)" and o: "opens_with (head_keyword (of_index index)) (h_records h)"
  obtains u where "stands index offset (hp_header parts) (raw @ hp_fill parts) u" and "stored form h raw (raw @ hp_fill parts) u"
    and "pos = PrimaryPos \<and> of_index index = ExtensionPos \<Longrightarrow>
      \<exists>primary. hp_primary parts = Some primary \<and> header_render empty_primary (form_signing form []) (Spare (hf_spare_records form)) = Inr primary"
    and "\<not> (pos = PrimaryPos \<and> of_index index = ExtensionPos) \<Longrightarrow> hp_primary parts = None"
proof -
  obtain kind where k: "kind_from_header h (of_index index) = Inr kind" "data_bytes kind h = Inr (length raw)"
    using r at by (auto simp: render_hdu_def Let_def bind_eq_Inr body_len_def split: if_split_asm)
  have r': "bind (body_signing form (BodyBytes raw) (block_fill kind (length raw))) (\<lambda>signing.
      bind (if pos = PrimaryPos \<and> of_index index = ExtensionPos
            then bind (header_render empty_primary
                (case hf_checksums form of ChecksumsOff \<Rightarrow> Unsigned | ChecksumsOn \<Rightarrow> WithDataSum 0) (Spare (hf_spare_records form)))
                (\<lambda>bs. Inr (Some bs))
            else Inr None) (\<lambda>primary.
        bind (header_render h signing (Spare (hf_spare_records form))) (\<lambda>header_bytes.
          Inr \<lparr>hp_primary = primary, hp_header = header_bytes, hp_fill = block_fill kind (length raw)\<rparr>))) = Inr parts"
    using r at k by (simp add: render_hdu_def Let_def body_len_def bind_empty_primary split del: if_split cong: if_cong)
  then obtain signing where s: "body_signing form (BodyBytes raw) (block_fill kind (length raw)) = Inr signing"
    "header_render h signing (Spare (hf_spare_records form)) = Inr (hp_header parts)" "hp_fill parts = block_fill kind (length raw)"
    and prim: "(if pos = PrimaryPos \<and> of_index index = ExtensionPos
       then bind (header_render empty_primary
              (case hf_checksums form of ChecksumsOff \<Rightarrow> Unsigned | ChecksumsOn \<Rightarrow> WithDataSum 0) (Spare (hf_spare_records form)))
              (\<lambda>bs. Inr (Some bs))
       else Inr None) = Inr (hp_primary parts)"
    unfolding bind_eq_Inr by auto
  have acc: "form_signing form [] = (case hf_checksums form of ChecksumsOff \<Rightarrow> Unsigned | ChecksumsOn \<Rightarrow> WithDataSum 0)"
    by (simp add: form_signing_def split: checksums.split)
  obtain u where "stands index offset (hp_header parts) (raw @ hp_fill parts) u" "stored form h raw (raw @ hp_fill parts) u"
    using rendered_stands [OF p o k refl, of form "Spare (hf_spare_records form)" "hp_header parts" offset]
      s(2) signing_of_body [OF s(1)] unfolding s(3) by auto
  then show ?thesis using that prim unfolding acc [symmetric] by (auto simp: bind_eq_Inr split: if_split_asm)
qed

section \<open>A run of HDUs\<close>

fun write_raws :: "'w sink_ops \<Rightarrow> (header \<times> bytes) list \<Rightarrow> 'w writer \<Rightarrow> unit run \<times> 'w writer" where
  "write_raws ops [] w = (Inr (), w)"
| "write_raws ops ((h, raw) # hs) w = and_then (write_raw_hdu ops h raw w) (\<lambda>_. write_raws ops hs)"

text \<open>The HDUs of the file: those written, and the empty primary before an extension that is written first.\<close>

definition file_hdus :: "(header \<times> bytes) list \<Rightarrow> (header \<times> bytes) list" where
  "file_hdus hs =
     (case hs of
        [] \<Rightarrow> []
      | (h, raw) # _ \<Rightarrow> if header_get h (KeywordName ''XTENSION'') = Inr None then hs else (empty_primary, []) # hs)"

text \<open>Each header is right, and opens with the keyword of its place.\<close>

fun proper_from :: "nat \<Rightarrow> (header \<times> bytes) list \<Rightarrow> bool" where
  "proper_from index [] = True"
| "proper_from index ((h, raw) # hs) \<longleftrightarrow>
     plain_header h \<and> opens_with (head_keyword (of_index index)) (h_records h) \<and> proper_from (index + 1) hs"

definition data_unit :: "bytes \<Rightarrow> hdu \<Rightarrow> bytes" where
  "data_unit file u = take (hd_padded u) (drop (hd_data_offset u) file)"

definition stored_in :: "bytes \<Rightarrow> header_form \<Rightarrow> (header \<times> bytes) list \<Rightarrow> hdu list \<Rightarrow> bool" where
  "stored_in file form hs us \<longleftrightarrow> list_all2 (\<lambda>(h, raw) u. stored form h raw (data_unit file u) u) hs us"

lemma stored_in_simps [simp]:
  "stored_in file form [] us \<longleftrightarrow> us = []"
  "stored_in file form ((h, raw) # hs) (u # us) \<longleftrightarrow> stored form h raw (data_unit file u) u \<and> stored_in file form hs us"
  by (simp_all add: stored_in_def)

lemma stands_data:
  assumes "stands index offset unit unit_data u" and "length pre = offset"
  shows "data_unit (pre @ unit @ unit_data @ post) u = unit_data"
  using assms hdu_parse_fields(4) [of index "\<lparr>hu_bytes = unit, hu_sum = accumulate unit 0, hu_offset = offset\<rparr>" u]
  by (simp add: stands_def data_unit_def)

context byte_sink
begin

lemma raw_written:
  assumes "write_raw_hdu ops h raw w = (Inr (), w')"
  obtains pos parts where "next_position w = Inr pos" and "render_hdu (wr_form w) pos h (BodyBytes raw) = Inr parts"
    and "wr_state w' = WActive" and "wr_form w' = wr_form w"
    and "written (wr_sink w') = written (wr_sink w) @ (case hp_primary parts of Some primary \<Rightarrow> primary | None \<Rightarrow> [])
      @ hp_header parts @ raw @ hp_fill parts"
proof -
  from finish_hdu_effect [OF assms [unfolded write_raw_hdu_def]] obtain pos parts where
    "next_position w = Inr pos" "render_hdu (wr_form w) pos h (BodyBytes raw) = Inr parts"
    "wr_state w' = WActive" "wr_form w' = wr_form w" "written (wr_sink w') = written (wr_sink w) @ hdu_bytes parts (BodyBytes raw)"
    by (auto simp: merged_def)
  then show ?thesis using that [of pos parts] by (simp add: hdu_bytes_def body_bytes_def)
qed

text \<open>An HDU after the primary.\<close>

lemma extension_written:
  assumes "write_raw_hdu ops h raw w = (Inr (), w')" and "wr_state w = WActive" and "0 < index"
    and "plain_header h" and "opens_with (head_keyword (of_index index)) (h_records h)"
  obtains unit unit_data u where "wr_state w' = WActive" and "wr_form w' = wr_form w"
    and "written (wr_sink w') = written (wr_sink w) @ unit @ unit_data"
    and "stands index offset unit unit_data u" and "stored (wr_form w) h raw unit_data u"
proof -
  obtain pos parts where r: "next_position w = Inr pos" "render_hdu (wr_form w) pos h (BodyBytes raw) = Inr parts"
    "wr_state w' = WActive" "wr_form w' = wr_form w"
    "written (wr_sink w') = written (wr_sink w) @ (case hp_primary parts of Some primary \<Rightarrow> primary | None \<Rightarrow> [])
      @ hp_header parts @ raw @ hp_fill parts"
    using raw_written [OF assms(1)] .
  have pos: "pos = ExtensionPos" using r(1) assms(2) by (simp add: next_position_def)
  then have at: "placed h pos = Inr (of_index index)" using assms(3) by (simp add: placed_def of_index_def)
  from render_raw [OF r(2) assms(4) at assms(5), of offset] obtain u where
    "stands index offset (hp_header parts) (raw @ hp_fill parts) u" "stored (wr_form w) h raw (raw @ hp_fill parts) u"
    "hp_primary parts = None" using pos by auto
  then show ?thesis using that [of "hp_header parts" "raw @ hp_fill parts" u] r(3-5) by simp
qed

lemma extensions_written:
  assumes "write_raws ops hs w = (Inr (), w')" and "wr_state w = WActive" and "0 < index" and "proper_from index hs"
    and "offset = length (written (wr_sink w))"
  shows "\<exists>parts us. written (wr_sink w') = written (wr_sink w) @ parts_bytes parts \<and> file_of index offset parts us
    \<and> stored_in (written (wr_sink w')) (wr_form w) hs us"
  using assms
proof (induction hs arbitrary: w index offset)
  case Nil
  then show ?case by (intro exI [of _ "[]"]) simp
next
  case (Cons hr hs)
  obtain h raw where hr: "hr = (h, raw)" by (cases hr)
  obtain w1 where w1: "write_raw_hdu ops h raw w = (Inr (), w1)" "write_raws ops hs w1 = (Inr (), w')"
    using Cons.prems(1) hr by (auto simp: and_then_eq_Inr)
  have ok: "plain_header h" "opens_with (head_keyword (of_index index)) (h_records h)" "proper_from (index + 1) hs"
    using Cons.prems(4) hr by simp_all
  obtain unit unit_data u where u: "wr_state w1 = WActive" "wr_form w1 = wr_form w"
    "written (wr_sink w1) = written (wr_sink w) @ unit @ unit_data"
    "stands index offset unit unit_data u" "stored (wr_form w) h raw unit_data u"
    using extension_written [OF w1(1) Cons.prems(2,3) ok(1,2)] .
  from Cons.IH [OF w1(2) u(1) _ ok(3) refl] u(2) obtain parts us where
    rest: "written (wr_sink w') = written (wr_sink w1) @ parts_bytes parts"
    "file_of (index + 1) (length (written (wr_sink w1))) parts us" "stored_in (written (wr_sink w')) (wr_form w) hs us" by auto
  have f: "written (wr_sink w') = written (wr_sink w) @ unit @ unit_data @ parts_bytes parts" using rest(1) u(3) by simp
  have "data_unit (written (wr_sink w')) u = unit_data"
    unfolding f by (rule stands_data [OF u(4)]) (use Cons.prems(5) in simp)
  moreover have "file_of index offset ((unit, unit_data) # parts) (u # us)"
    unfolding file_of_Cons using u(3,4) rest(2) Cons.prems(5) by (auto simp: add.assoc)
  ultimately show ?case
    using f u(5) rest(3) hr by (intro exI [of _ "(unit, unit_data) # parts"] exI [of _ "u # us"]) simp
qed

text \<open>The first HDU of a file.\<close>

lemma first_written:
  assumes "write_raw_hdu ops h raw w = (Inr (), w')" and "wr_state w = WEmpty" and "written (wr_sink w) = []"
    and "proper_from 0 (file_hdus [(h, raw)])"
  shows "\<exists>parts us. written (wr_sink w') = parts_bytes parts \<and> file_of 0 0 parts us \<and> wr_state w' = WActive \<and> wr_form w' = wr_form w
    \<and> (\<forall>post. stored_in (written (wr_sink w') @ post) (wr_form w) (file_hdus [(h, raw)]) us)"
proof -
  obtain pos parts where r: "next_position w = Inr pos" "render_hdu (wr_form w) pos h (BodyBytes raw) = Inr parts"
    "wr_state w' = WActive" "wr_form w' = wr_form w"
    "written (wr_sink w') = written (wr_sink w) @ (case hp_primary parts of Some primary \<Rightarrow> primary | None \<Rightarrow> [])
      @ hp_header parts @ raw @ hp_fill parts"
    using raw_written [OF assms(1)] .
  have pos: "pos = PrimaryPos" using r(1) assms(2) by (simp add: next_position_def)
  obtain x where x: "header_get h (KeywordName ''XTENSION'') = Inr x"
    using r(2) pos by (auto simp: render_hdu_def placed_def bind_eq_Inr)
  show ?thesis
  proof (cases x)
    case None
    have at: "placed h pos = Inr (of_index 0)" using x None pos by (simp add: placed_def of_index_def)
    have ok: "plain_header h" "opens_with (head_keyword (of_index 0)) (h_records h)" using assms(4) x None by (simp_all add: file_hdus_def)
    from render_raw [OF r(2) ok(1) at ok(2), of 0] obtain u where
      u: "stands 0 0 (hp_header parts) (raw @ hp_fill parts) u" "stored (wr_form w) h raw (raw @ hp_fill parts) u" "hp_primary parts = None"
      by (auto simp: of_index_def)
    have "data_unit (written (wr_sink w') @ post) u = raw @ hp_fill parts" for post
      using stands_data [OF u(1), of "[]" post] r(5) assms(3) u(3) by simp
    then show ?thesis
      using u r(3-5) assms(3) x None
      by (intro exI [of _ "[(hp_header parts, raw @ hp_fill parts)]"] exI [of _ "[u]"]) (simp add: file_of_Cons file_hdus_def)
  next
    case (Some v)
    have at: "placed h pos = Inr (of_index 1)" using x Some pos by (simp add: placed_def of_index_def)
    have ok: "plain_header h" "opens_with (head_keyword (of_index 1)) (h_records h)" using assms(4) x Some by (simp_all add: file_hdus_def)
    obtain primary where primary: "hp_primary parts = Some primary"
      "header_render empty_primary (form_signing (wr_form w) []) (Spare (hf_spare_records (wr_form w))) = Inr primary"
      using render_raw [OF r(2) ok(1) at ok(2)] pos by (auto simp: of_index_def)
    have fill: "[] = [] @ block_fill Primary (length [])" by (simp add: block_fill_def padding_def BLOCK_SIZE_def)
    have "kind_from_header empty_primary (of_index 0) = Inr Primary" "data_bytes Primary empty_primary = Inr (length ([] :: bytes))"
      "opens_with (head_keyword (of_index 0)) (h_records empty_primary)"
      using empty_primary_kind empty_primary_opens by (simp_all add: of_index_def head_keyword_def)
    from rendered_stands [OF empty_primary_plain this(3,1,2) fill primary(2), of 0] obtain v where
      v: "stands 0 0 primary [] v" "stored (wr_form w) empty_primary [] [] v" .
    from render_raw [OF r(2) ok(1) at ok(2), of "length primary"] obtain u where
      u: "stands 1 (length primary) (hp_header parts) (raw @ hp_fill parts) u" "stored (wr_form w) h raw (raw @ hp_fill parts) u" .
    have "data_unit (written (wr_sink w') @ post) v = []" for post
      using stands_data [OF v(1), of "[]"] r(5) assms(3) primary(1) by simp
    moreover have "data_unit (written (wr_sink w') @ post) u = raw @ hp_fill parts" for post
      using stands_data [OF u(1) refl, of post] r(5) assms(3) primary(1) by simp
    ultimately show ?thesis
      using u v r(3-5) assms(3) x Some primary(1)
      by (intro exI [of _ "[(primary, []), (hp_header parts, raw @ hp_fill parts)]"] exI [of _ "[v, u]"]) (simp add: file_of_Cons file_hdus_def)
  qed
qed

text \<open>The whole run.\<close>

lemma raws_written:
  assumes "write_raws ops hs w = (Inr (), w')" and "wr_state w = WEmpty" and "written (wr_sink w) = []" and "hs \<noteq> []"
    and "proper_from 0 (file_hdus hs)"
  shows "\<exists>parts us. written (wr_sink w') = parts_bytes parts \<and> file_of 0 0 parts us \<and> us \<noteq> []
    \<and> stored_in (written (wr_sink w')) (wr_form w) (file_hdus hs) us"
proof -
  obtain h raw rest where hs: "hs = (h, raw) # rest" using assms(4) by (cases hs) auto
  have split: "file_hdus hs = file_hdus [(h, raw)] @ rest" by (simp add: hs file_hdus_def)
  have proper: "proper_from index (as @ bs) \<longleftrightarrow> proper_from index as \<and> proper_from (index + length as) bs" for index as bs
    by (induction as arbitrary: index) (auto simp: add_ac)
  obtain w1 where w1: "write_raw_hdu ops h raw w = (Inr (), w1)" "write_raws ops rest w1 = (Inr (), w')"
    using assms(1) hs by (auto simp: and_then_eq_Inr)
  have ok: "proper_from 0 (file_hdus [(h, raw)])" "proper_from (length (file_hdus [(h, raw)])) rest"
    using assms(5) unfolding split proper by simp_all
  obtain parts us where first: "written (wr_sink w1) = parts_bytes parts" "file_of 0 0 parts us" "wr_state w1 = WActive" "wr_form w1 = wr_form w"
    "\<And>post. stored_in (written (wr_sink w1) @ post) (wr_form w) (file_hdus [(h, raw)]) us"
    using first_written [OF w1(1) assms(2,3) ok(1)] by blast
  have len: "length us = length (file_hdus [(h, raw)])" using list_all2_lengthD [OF first(5) [of "[]", unfolded stored_in_def]] by simp
  have "0 < length us" unfolding len by (simp add: file_hdus_def)
  then obtain parts' us' where later: "written (wr_sink w') = written (wr_sink w1) @ parts_bytes parts'"
    "file_of (length us) (length (written (wr_sink w1))) parts' us'" "stored_in (written (wr_sink w')) (wr_form w) rest us'"
    using extensions_written [OF w1(2) first(3) _ _ refl, of "length us"] ok(2) len first(4) by auto
  have join: "file_of index offset ps vs \<Longrightarrow> file_of (index + length vs) (offset + length (parts_bytes ps)) qs ws
      \<Longrightarrow> file_of index offset (ps @ qs) (vs @ ws)" for index offset ps vs qs ws
    by (induction ps arbitrary: index offset vs) (auto simp: add_ac)
  have "file_of 0 0 (parts @ parts') (us @ us')" by (rule join [OF first(2)]) (use later(2) first(1) in simp)
  moreover have "stored_in (written (wr_sink w')) (wr_form w) (file_hdus hs) (us @ us')"
    using first(5) [of "parts_bytes parts'"] later(1,3) unfolding split stored_in_def by (simp add: list_all2_appendI)
  moreover have "written (wr_sink w') = parts_bytes (parts @ parts')" using later(1) first(1) by (simp add: parts_bytes_append)
  ultimately show ?thesis using \<open>0 < length us\<close> by (intro exI [of _ "parts @ parts'"] exI [of _ "us @ us'"]) auto
qed

end


section \<open>A sample file\<close>

definition sample_image :: header where
  "sample_image = header_of
     [Valued ''XTENSION'' (VText ''IMAGE'') None, Valued ''BITPIX'' (VInteger (IntI64 8)) None, Valued ''NAXIS'' (VInteger (IntI64 1)) None,
      Valued ''NAXIS1'' (VInteger (IntI64 3)) None, Valued ''PCOUNT'' (VInteger (IntI64 0)) None, Valued ''GCOUNT'' (VInteger (IntI64 1)) None]"

lemma sample_image_kind:
  "kind_from_header sample_image ExtensionPos = Inr ImageExt" "data_bytes ImageExt sample_image = Inr 3"
  "header_get sample_image (KeywordName ''XTENSION'') = Inr (Some (VText ''IMAGE''))"
proof -
  show "kind_from_header sample_image ExtensionPos = Inr ImageExt" by code_simp
  show "header_get sample_image (KeywordName ''XTENSION'') = Inr (Some (VText ''IMAGE''))" by code_simp
  have v: "require_integer sample_image (KeywordName ''BITPIX'') = Inr 8" "require_integer sample_image (KeywordName ''NAXIS'') = Inr 1"
    "require_integer sample_image (KeywordName ''NAXIS1'') = Inr 3" "get_integer sample_image (KeywordName ''PCOUNT'') = Inr (Some 0)"
    "get_integer sample_image (KeywordName ''GCOUNT'') = Inr (Some 1)" "keyword_indexed ''NAXIS'' 1 = Inr ''NAXIS1''" by code_simp+
  have "header_bitpix sample_image = Inr U8" using v by (simp add: header_bitpix_def bitpix_try_from_def)
  moreover have "header_axes sample_image = Inr [3]"
    using v by (simp add: header_axes_def header_naxis_def require_usize_def usize_from_def usize_max_def)
  moreover have "required_group_counts sample_image = Inr \<lparr>gr_pcount = 0, gr_gcount = 1\<rparr>"
    using v by (simp add: required_group_counts_def required_count_def)
  moreover have "padded_len 3 = Some 2880" by (simp add: padded_len_eq padding_def BLOCK_SIZE_def u64_max_def)
  ultimately show "data_bytes ImageExt sample_image = Inr 3"
    by (simp add: data_bytes_def axis_product_def grouped_data_bytes_def checked_add_def checked_mul_def u64_max_def)
qed

lemma sample_image_proper: "proper_from 1 [(sample_image, raw)]"
proof -
  have "list_all record_ok (h_records sample_image)" by code_simp
  moreover have "header_inv sample_image" by (simp add: sample_image_def header_inv_def header_of_def)
  moreover have "opens_with ''XTENSION'' (h_records sample_image)" by (simp add: sample_image_def header_of_def opens_with_def)
  ultimately show ?thesis by (simp add: plain_header_def of_index_def head_keyword_def)
qed

lemma empty_primary_proper: "proper_from 0 ((empty_primary, []) # hs) \<longleftrightarrow> proper_from 1 hs"
  using empty_primary_plain empty_primary_opens by (simp add: of_index_def head_keyword_def)

lemma sample_file:
  "file_hdus [(sample_image, raw)] = [(empty_primary, []), (sample_image, raw)]" "proper_from 0 (file_hdus [(sample_image, raw)])"
proof -
  show f: "file_hdus [(sample_image, raw)] = [(empty_primary, []), (sample_image, raw)]"
    using sample_image_kind(3) by (simp add: file_hdus_def)
  show "proper_from 0 (file_hdus [(sample_image, raw)])" unfolding f empty_primary_proper by (rule sample_image_proper)
qed

lemma small_render:
  assumes "bind (render_records h Unsigned) (\<lambda>(out, at). Inr (length out \<le> 1000)) = Inr True"
  shows "\<exists>bs. header_render h Unsigned (Spare 0) = Inr bs \<and> length bs \<le> 10000"
proof -
  obtain out at where o: "render_records h Unsigned = Inr (out, at)" "length out \<le> 1000" using assms unfolding bind_eq_Inr by auto
  then have "header_render h Unsigned (Spare 0) = Inr (fill_unit out 0)"
    using header_render_fits [of h Unsigned out at 0] by (simp add: CARD_SIZE_def sign_unit_def)
  moreover have "next_multiple (length out + 80) 2880 \<le> length out + 80 + 2880 - 1" unfolding next_multiple_def by (rule div_times_less_eq_dividend)
  then have "length (fill_unit out 0) \<le> 10000"
    using o(2) by (simp add: fill_unit_def Let_def length_end_record CARD_SIZE_def BLOCK_SIZE_def)
  ultimately show ?thesis by simp
qed

lemma sample_rendered:
  "\<exists>bs. header_render sample_image Unsigned (Spare 0) = Inr bs \<and> length bs \<le> 10000"
  "\<exists>bs. header_render empty_primary Unsigned (Spare 0) = Inr bs \<and> length bs \<le> 10000"
proof -
  have "bind (render_records sample_image Unsigned) (\<lambda>(out, at). Inr (length out \<le> 1000)) = Inr True" by code_simp
  then show "\<exists>bs. header_render sample_image Unsigned (Spare 0) = Inr bs \<and> length bs \<le> 10000" by (rule small_render)
  have "bind empty_primary_header (\<lambda>h. bind (render_records h Unsigned) (\<lambda>(out, at). Inr (length out \<le> 1000))) = Inr True" by code_simp
  then show "\<exists>bs. header_render empty_primary Unsigned (Spare 0) = Inr bs \<and> length bs \<le> 10000"
    unfolding bind_empty_primary by (rule small_render)
qed

abbreviation "new_writer \<equiv> writer_new \<lparr>cu_bytes = [], cu_position = 0\<rparr>"

lemma sample_written:
  "\<exists>w'. write_raws vec_cursor_ops [(sample_image, [1, 2, 3])] new_writer = (Inr (), w') \<and> length (vec_written (wr_sink w')) \<le> 30000"
proof -
  obtain bs primary where bs: "header_render sample_image Unsigned (Spare 0) = Inr bs" "length bs \<le> 10000"
    "header_render empty_primary Unsigned (Spare 0) = Inr primary" "length primary \<le> 10000" using sample_rendered by blast
  define parts where "parts = \<lparr>hp_primary = Some primary, hp_header = bs, hp_fill = block_fill ImageExt 3\<rparr>"
  have next_pos: "next_position new_writer = Inr PrimaryPos" by (simp add: next_position_def writer_new_def)
  have form: "wr_form new_writer = \<lparr>hf_checksums = ChecksumsOff, hf_spare_records = 0\<rparr>" by (simp add: writer_new_def)
  have render: "render_hdu (wr_form new_writer) PrimaryPos sample_image (BodyBytes [1, 2, 3]) = Inr parts"
    using bs(1,3) sample_image_kind
    by (simp add: form render_hdu_def placed_def body_len_def body_signing_def Let_def bind_empty_primary parts_def eval_nat_numeral)
  obtain w' where w': "write_raw_hdu vec_cursor_ops sample_image [1, 2, 3] new_writer = (Inr (), w')"
    using vec_finish [OF next_pos, of sample_image None] render by (auto simp: merged_def write_raw_hdu_def)
  obtain pos parts' where p: "next_position new_writer = Inr pos" "render_hdu (wr_form new_writer) pos sample_image (BodyBytes [1, 2, 3]) = Inr parts'"
    "vec_written (wr_sink w') = vec_written (wr_sink new_writer) @ (case hp_primary parts' of Some primary \<Rightarrow> primary | None \<Rightarrow> [])
      @ hp_header parts' @ [1, 2, 3] @ hp_fill parts'"
    using vec.raw_written [OF w'] by metis
  have "parts' = parts" using p(1,2) next_pos render by simp
  then have "vec_written (wr_sink w') = primary @ bs @ [1, 2, 3] @ block_fill ImageExt 3"
    using p(3) by (simp add: parts_def writer_new_def vec_written_def [of "\<lparr>cu_bytes = [], cu_position = 0\<rparr>"])
  then have "length (vec_written (wr_sink w')) \<le> 30000" using bs(2,4) by (simp add: block_fill_def padding_def BLOCK_SIZE_def)
  then show ?thesis using w' by simp
qed


end
