(* ===== verification/Data_Unit.thy ===== *)
theory Data_Unit
  imports Hdu_Kind
begin

text \<open>
  The size of a data unit is the standard's formula, exactly: the overflow checks of \<^verbatim>\<open>src/hdu/hdu_kind/mod.rs\<close> refuse a
  unit that has data only when its padded size does not fit 64 bits.
\<close>

section \<open>The size the standard gives\<close>

definition exact_size :: "hdu_kind \<Rightarrow> nat \<Rightarrow> nat list \<Rightarrow> nat \<Rightarrow> nat \<Rightarrow> nat" where
  "exact_size kind elem axes pcount gcount =
     (case kind of
        Primary \<Rightarrow> elem * (if axes = [] then 0 else prod_list axes)
      | RandomGroups \<Rightarrow> elem * gcount * (pcount + prod_list (tl axes))
      | _ \<Rightarrow> elem * gcount * (pcount + (if axes = [] then 0 else prod_list axes)))"

definition padded_fits :: "nat \<Rightarrow> bool" where
  "padded_fits n \<longleftrightarrow> n + padding n \<le> u64_max"

lemma padded_len_fits: "padded_len n \<noteq> None \<longleftrightarrow> padded_fits n"
  using padded_len_eq [of n] by (auto simp: padded_fits_def)

section \<open>The product of the axes\<close>

lemma checked_product_exact:
  assumes "0 \<notin> set ns" and "acc \<le> bound"
  shows "checked_product bound acc ns = (if acc * prod_list ns \<le> bound then Some (acc * prod_list ns) else None)"
proof (cases "checked_product bound acc ns")
  case None
  then show ?thesis using checked_product_complete [of acc ns bound] assms(1) by auto
next
  case (Some p)
  then show ?thesis using checked_product_value [OF Some] checked_product_bound [OF Some assms(2)] by simp
qed

definition axes_size :: "nat list \<Rightarrow> nat \<Rightarrow> nat" where
  "axes_size axes vacant = (if axes = [] then vacant else prod_list axes)"

lemma axis_product_exact:
  assumes "vacant \<le> 1"
  shows "axis_product axes vacant
    = (if axes_size axes vacant \<le> u64_max then Inr (axes_size axes vacant) else Inl (Err DataUnitOverflow))"
proof (cases "0 \<in> set axes")
  case True
  then have "prod_list axes = 0" by (simp add: prod_list_zero_iff)
  then show ?thesis using True by (auto simp: axis_product_def axes_size_def)
next
  case False
  have "1 \<le> u64_max" by (simp add: u64_max_def)
  then show ?thesis
    using False assms checked_product_exact [of axes 1 u64_max] by (auto simp: axis_product_def axes_size_def)
qed

section \<open>The size of the unit\<close>

lemma factors_le: "0 < a * b \<Longrightarrow> a \<le> a * b \<and> b \<le> a * (b :: nat)"
  by simp

lemma grouped_exact:
  fixes n :: nat
  assumes c: "required_group_counts h = Inr counts" and e: "0 < elem"
  defines "full \<equiv> elem * gr_gcount counts * (gr_pcount counts + n)"
  shows "grouped_data_bytes elem n h = Inr m \<Longrightarrow> m = full"
    and "0 < full \<Longrightarrow> grouped_data_bytes elem n h = (if full \<le> u64_max then Inr full else Inl (Err DataUnitOverflow))"
proof -
  show "grouped_data_bytes elem n h = Inr m \<Longrightarrow> m = full"
    using c by (auto simp: grouped_data_bytes_def ok_or_eq_Inr checked_simps full_def bind_eq_Inr split: bind_splits)
  assume pos: "0 < full"
  have sum: "gr_pcount counts + n \<le> full" "elem * gr_gcount counts \<le> full" using factors_le [OF pos [unfolded full_def]] unfolding full_def by simp_all
  show "grouped_data_bytes elem n h = (if full \<le> u64_max then Inr full else Inl (Err DataUnitOverflow))"
  proof (cases "full \<le> u64_max")
    case True
    then have "gr_pcount counts + n \<le> u64_max" "elem * gr_gcount counts \<le> u64_max" using sum by linarith+
    then have "checked_add u64_max (gr_pcount counts) n = Some (gr_pcount counts + n)"
      "checked_mul u64_max elem (gr_gcount counts) = Some (elem * gr_gcount counts)"
      "checked_mul u64_max (elem * gr_gcount counts) (gr_pcount counts + n) = Some full"
      using True by (simp_all add: checked_add_def checked_mul_def full_def)
    then show ?thesis using c True by (simp add: grouped_data_bytes_def)
  next
    case False
    then show ?thesis using c by (auto simp: grouped_data_bytes_def checked_add_def checked_mul_def full_def)
  qed
qed

lemma elem_size_pos: "0 < bitpix_elem_size b"
  by (cases b) simp_all

text \<open>The size before the padding is checked.\<close>

definition bare_size :: "hdu_kind \<Rightarrow> nat \<Rightarrow> nat list \<Rightarrow> header \<Rightarrow> nat run" where
  "bare_size kind elem axes h =
     (case kind of
        Primary \<Rightarrow> bind (axis_product axes 0) (\<lambda>n. ok_or (checked_mul u64_max elem n) (Err DataUnitOverflow))
      | RandomGroups \<Rightarrow>
          (case axes of
             [] \<Rightarrow> Inl Panic
           | _ # array_axes \<Rightarrow> bind (axis_product array_axes 1) (\<lambda>n. grouped_data_bytes elem n h))
      | _ \<Rightarrow> bind (axis_product axes 0) (\<lambda>n. grouped_data_bytes elem n h))"

lemma grouped_axes:
  fixes axes :: "nat list" and vacant :: nat
  assumes "required_group_counts h = Inr counts" and "0 < elem" and "vacant \<le> 1"
  defines "full \<equiv> elem * gr_gcount counts * (gr_pcount counts + axes_size axes vacant)"
  shows "bind (axis_product axes vacant) (\<lambda>n. grouped_data_bytes elem n h) = Inr m \<Longrightarrow> m = full"
    and "0 < full \<Longrightarrow> bind (axis_product axes vacant) (\<lambda>n. grouped_data_bytes elem n h)
      = (if full \<le> u64_max then Inr full else Inl (Err DataUnitOverflow))"
proof -
  note g = grouped_exact [OF assms(1,2), of "axes_size axes vacant"]
  show "bind (axis_product axes vacant) (\<lambda>n. grouped_data_bytes elem n h) = Inr m \<Longrightarrow> m = full"
    using g(1) by (simp add: axis_product_exact [OF assms(3)] full_def split: if_split_asm)
  assume pos: "0 < full"
  then have "axes_size axes vacant \<le> full" using factors_le [OF pos [unfolded full_def]] unfolding full_def by linarith
  then show "bind (axis_product axes vacant) (\<lambda>n. grouped_data_bytes elem n h)
      = (if full \<le> u64_max then Inr full else Inl (Err DataUnitOverflow))"
    using g(2) pos by (auto simp: axis_product_exact [OF assms(3)] full_def)
qed

lemma bare_size_exact:
  assumes "kind \<noteq> Primary \<Longrightarrow> required_group_counts h = Inr counts" and "0 < elem" and "kind = RandomGroups \<Longrightarrow> axes \<noteq> []"
  defines "full \<equiv> exact_size kind elem axes (gr_pcount counts) (gr_gcount counts)"
  shows "bare_size kind elem axes h = Inr m \<Longrightarrow> m = full"
    and "0 < full \<Longrightarrow> bare_size kind elem axes h = (if full \<le> u64_max then Inr full else Inl (Err DataUnitOverflow))"
proof -
  have "(bare_size kind elem axes h = Inr m \<longrightarrow> m = full)
    \<and> (0 < full \<longrightarrow> bare_size kind elem axes h = (if full \<le> u64_max then Inr full else Inl (Err DataUnitOverflow)))"
  proof (cases "kind = Primary \<or> kind = RandomGroups")
    case False
    then have e: "bare_size kind elem axes h = bind (axis_product axes 0) (\<lambda>n. grouped_data_bytes elem n h)"
      "full = elem * gr_gcount counts * (gr_pcount counts + axes_size axes 0)"
      by (auto simp: bare_size_def full_def exact_size_def axes_size_def split: hdu_kind.split)
    have c: "required_group_counts h = Inr counts" using False assms(1) by blast
    show ?thesis unfolding e by (intro conjI impI grouped_axes [OF c assms(2)]) simp_all
  next
    case True
    then show ?thesis
    proof
      assume k: "kind = Primary"
      have le: "axes_size axes 0 \<le> elem * axes_size axes 0" using assms(2) by simp
      have e: "bare_size kind elem axes h = bind (axis_product axes 0) (\<lambda>n. ok_or (checked_mul u64_max elem n) (Err DataUnitOverflow))"
        "full = elem * axes_size axes 0" using k by (simp_all add: bare_size_def full_def exact_size_def axes_size_def)
      show ?thesis
      proof (cases "axes_size axes 0 \<le> u64_max")
        case True
        then show ?thesis by (simp add: e axis_product_exact checked_mul_def)
      next
        case False
        then have "\<not> elem * axes_size axes 0 \<le> u64_max" using le by linarith
        then show ?thesis using False by (simp add: e axis_product_exact)
      qed
    next
      assume k: "kind = RandomGroups"
      obtain first array where a: "axes = first # array" using assms(3) [OF k] by (cases axes) auto
      have e: "bare_size kind elem axes h = bind (axis_product array 1) (\<lambda>n. grouped_data_bytes elem n h)"
        "full = elem * gr_gcount counts * (gr_pcount counts + axes_size array 1)"
        using k by (simp_all add: a bare_size_def full_def exact_size_def axes_size_def)
      have c: "required_group_counts h = Inr counts" using k assms(1) by blast
      show ?thesis unfolding e by (intro conjI impI grouped_axes [OF c assms(2)]) simp_all
    qed
  qed
  then show "bare_size kind elem axes h = Inr m \<Longrightarrow> m = full"
    and "0 < full \<Longrightarrow> bare_size kind elem axes h = (if full \<le> u64_max then Inr full else Inl (Err DataUnitOverflow))" by blast+
qed

text \<open>C14: The size of a data unit, from a header whose mandatory keywords read, is the standard's formula over the
  axes, the element size, \<^verbatim>\<open>PCOUNT\<close> and \<^verbatim>\<open>GCOUNT\<close>, with no wrap-around: a size that is given is exact and its padded
  length fits 64 bits, and a unit that has data is refused only when its padded length does not.\<close>

theorem data_bytes_exact:
  assumes "header_bitpix h = Inr bitpix" and "header_axes h = Inr axes"
    and "kind \<noteq> Primary \<Longrightarrow> required_group_counts h = Inr counts" and "kind = RandomGroups \<Longrightarrow> axes \<noteq> []"
  shows "let full = exact_size kind (bitpix_elem_size bitpix) axes (gr_pcount counts) (gr_gcount counts)
    in (\<forall>n. data_bytes kind h = Inr n \<longrightarrow> n = full \<and> padded_fits full)
      \<and> (0 < full \<longrightarrow> data_bytes kind h = (if padded_fits full then Inr full else Inl (Err DataUnitOverflow)))"
proof -
  let ?full = "exact_size kind (bitpix_elem_size bitpix) axes (gr_pcount counts) (gr_gcount counts)"
  note b = bare_size_exact [OF assms(3) elem_size_pos [of bitpix] assms(4)]
  have d: "data_bytes kind h = bind (bare_size kind (bitpix_elem_size bitpix) axes h)
      (\<lambda>n. bind (ok_or (padded_len n) (Err DataUnitOverflow)) (\<lambda>_. Inr n))"
    using assms(1,2) by (simp add: data_bytes_def bare_size_def Let_def)
  have "n = ?full \<and> padded_fits ?full" if "data_bytes kind h = Inr n" for n
  proof -
    have n: "bare_size kind (bitpix_elem_size bitpix) axes h = Inr n" "padded_len n \<noteq> None"
      using that unfolding d by (auto simp: bind_eq_Inr ok_or_eq_Inr)
    have "n = ?full" by (rule b(1)) (use n(1) in simp_all)
    then show ?thesis using n(2) padded_len_fits by simp
  qed
  moreover have "data_bytes kind h = (if padded_fits ?full then Inr ?full else Inl (Err DataUnitOverflow))" if "0 < ?full"
  proof -
    have s: "bare_size kind (bitpix_elem_size bitpix) axes h = (if ?full \<le> u64_max then Inr ?full else Inl (Err DataUnitOverflow))"
      by (rule b(2)) (use that in simp_all)
    show ?thesis
    proof (cases "padded_len ?full")
      case None
      then have "\<not> padded_fits ?full" using padded_len_fits [of ?full] by simp
      then show ?thesis unfolding d s by (simp add: None)
    next
      case (Some p)
      then have "padded_fits ?full" using padded_len_fits [of ?full] by simp
      then show ?thesis unfolding d s padded_fits_def by (simp add: Some)
    qed
  qed
  ultimately show ?thesis unfolding Let_def by blast
qed

definition sized_sample :: header where
  "sized_sample = foldl push_record header_new
     [Valued ''XTENSION'' (VText ''IMAGE'') None, Valued ''BITPIX'' (VInteger (IntI64 16)) None, Valued ''NAXIS'' (VInteger (IntI64 2)) None,
      Valued ''NAXIS1'' (VInteger (IntI64 100)) None, Valued ''NAXIS2'' (VInteger (IntI64 50)) None,
      Valued ''PCOUNT'' (VInteger (IntI64 4)) None, Valued ''GCOUNT'' (VInteger (IntI64 3)) None]"

lemma data_bytes_exact_witness: "data_bytes ImageExt sized_sample = Inr 30024"
proof -
  have v: "require_integer sized_sample (KeywordName ''BITPIX'') = Inr 16" "require_integer sized_sample (KeywordName ''NAXIS'') = Inr 2"
    "require_integer sized_sample (KeywordName ''NAXIS1'') = Inr 100" "require_integer sized_sample (KeywordName ''NAXIS2'') = Inr 50"
    "get_integer sized_sample (KeywordName ''PCOUNT'') = Inr (Some 4)" "get_integer sized_sample (KeywordName ''GCOUNT'') = Inr (Some 3)"
    "keyword_indexed ''NAXIS'' 1 = Inr ''NAXIS1''" "keyword_indexed ''NAXIS'' 2 = Inr ''NAXIS2''" by code_simp+
  have b: "header_bitpix sized_sample = Inr I16" using v by (simp add: header_bitpix_def bitpix_try_from_def)
  have "[1..<2 + 1] = [1, 2 :: nat]" by (simp add: upt_rec)
  then have a: "header_axes sized_sample = Inr [100, 50]"
    using v by (simp add: header_axes_def header_naxis_def require_usize_def usize_from_def usize_max_def numeral_2_eq_2)
  have c: "required_group_counts sized_sample = Inr \<lparr>gr_pcount = 4, gr_gcount = 3\<rparr>"
    using v by (simp add: required_group_counts_def required_count_def)
  have "exact_size ImageExt (bitpix_elem_size I16) [100, 50] 4 3 = 30024" by (simp add: exact_size_def)
  moreover have "padded_fits 30024" by (simp add: padded_fits_def padding_def BLOCK_SIZE_def u64_max_def)
  moreover have "0 < exact_size ImageExt (bitpix_elem_size I16) [100, 50] 4 3 \<longrightarrow> data_bytes ImageExt sized_sample
      = (if padded_fits (exact_size ImageExt (bitpix_elem_size I16) [100, 50] 4 3)
         then Inr (exact_size ImageExt (bitpix_elem_size I16) [100, 50] 4 3) else Inl (Err DataUnitOverflow))"
    using data_bytes_exact [OF b a, of ImageExt "\<lparr>gr_pcount = 4, gr_gcount = 3\<rparr>"] c unfolding Let_def group_counts.simps by blast
  ultimately show ?thesis by simp
qed

end
