(* ===== verification/File_Properties.thy ===== *)
theory File_Properties
  imports File_Roundtrip
begin

text \<open>
  What holds of every write and every scan, whatever the sink and the source: a write that fails leaves a part of its
  HDU and a writer that writes no more; a scan ends, and lays the HDUs one after the other on the block grid. And
  where the two disagree: a header whose \<^verbatim>\<open>SIMPLE\<close> is not its first record is written and not read.
\<close>

section \<open>A write\<close>

text \<open>C3: A write of an HDU to any sink that appends has one of three outcomes. It succeeds on a writer that has not
  failed, and the sink has grown by exactly the HDU's rendered bytes. It fails before its first byte, and the writer
  and the sink are as they were. Or the sink fails, holds a prefix of the HDU's bytes, and the writer is failed for
  good.\<close>

theorem write_effect:
  assumes "byte_sink ops written" and "finish_hdu ops h template body w = (r, w')"
  shows "if r = Inr ()
    then wr_state w \<noteq> WFailed \<and> wr_state w' = WActive
      \<and> (\<exists>pos parts. next_position w = Inr pos \<and> render_hdu (wr_form w) pos (merged h template) body = Inr parts
           \<and> written (wr_sink w') = written (wr_sink w) @ hdu_bytes parts body)
    else w' = w
      \<or> (wr_state w \<noteq> WFailed \<and> wr_state w' = WFailed
         \<and> (\<exists>pos parts p. next_position w = Inr pos \<and> render_hdu (wr_form w) pos (merged h template) body = Inr parts
              \<and> prefix p (hdu_bytes parts body) \<and> written (wr_sink w') = written (wr_sink w) @ p))"
  using byte_sink.finish_hdu_effect [OF assms] by auto

lemma write_effect_witness:
  "\<exists>r w'. finish_hdu slice_cursor_ops sample_image None (BodyBytes [1, 2]) (writer_new \<lparr>cu_bytes = [0, 0], cu_position = 0\<rparr>) = (r, w')
    \<and> r = Inl (Err (mismatch Bytes 3 2)) \<and> w' = writer_new \<lparr>cu_bytes = [0, 0], cu_position = 0\<rparr>"
proof -
  let ?w = "writer_new \<lparr>cu_bytes = [0, 0 :: u8], cu_position = 0\<rparr>"
  have r: "render_hdu (wr_form ?w) PrimaryPos sample_image (BodyBytes [1, 2]) = Inl (Err (mismatch Bytes 3 2))"
    using sample_image_kind by (simp add: render_hdu_def placed_def body_len_def eval_nat_numeral)
  then have e: "finish_hdu slice_cursor_ops sample_image None (BodyBytes [1, 2]) ?w = (Inl (Err (mismatch Bytes 3 2)), ?w)"
    by (simp add: finish_hdu_def next_position_def writer_new_def)
  from write_effect [OF slice.byte_sink_axioms e] e show ?thesis by simp
qed

section \<open>A scan\<close>

text \<open>C9: The scan of a file's headers ends, on any bytes, from every source that keeps the reading contract.\<close>

theorem scan_terminates:
  assumes "byte_source bytes_of valid size_of read" and "valid s"
  shows "\<exists>res s'. hdus_scan size_of read s = Some (res, s')"
  using byte_source.scan_ends [OF assms] by blast

lemma scan_terminates_witness:
  "\<exists>s res s'. stream_new cursor_ops \<lparr>cu_bytes = replicate 5000 0, cu_position = 7\<rparr> = Inr s
    \<and> hdus_scan stream_size (stream_read_append cursor_ops (\<lambda>n. n \<le> 4096)) s = Some (res, s')"
proof -
  obtain s where s: "stream_new cursor_ops \<lparr>cu_bytes = replicate 5000 0, cu_position = 7\<rparr> = Inr s"
    by (simp add: stream_new_def cursor_ops_def)
  show ?thesis
    using s scan_terminates [OF cursor.stream.byte_source_axioms conjunct1 [OF cursor.stream_new_valid [OF s]]] by blast
qed

text \<open>C8: The HDUs of a scan are at least one; the first stands at the start of the file and each other where the one
  before it ends, on the block grid, each with the index of its place; each is what its own header unit parses to,
  with the unit's sum; and every header unit is inside the file.\<close>

theorem scan_finds_layout:
  assumes "byte_source bytes_of valid size_of read" and "valid s" and "hdus_scan size_of read s = Some (Inr hs, s')"
  shows "scan_layout (bytes_of s) (hs_list hs) \<and> hs_list hs \<noteq> []"
  using byte_source.scan_ends [OF assms(1,2)] assms(3) by auto

lemma scan_finds_layout_witness:
  "\<exists>file hs s'. hdus_scan slice_size (slice_read_append (\<lambda>n. n \<le> u64_max)) file = Some (Inr hs, s')
    \<and> scan_layout file (hs_list hs) \<and> hs_list hs \<noteq> []"
proof -
  obtain w' where w': "write_raws vec_cursor_ops [(sample_image, [1, 2, 3])] new_writer = (Inr (), w')"
    "length (vec_written (wr_sink w')) \<le> 30000" using sample_written by blast
  from vec.raws_written [OF w'(1) _ _ _ sample_file(2)] obtain parts us where
    p: "vec_written (wr_sink w') = parts_bytes parts" "file_of 0 0 parts us" "us \<noteq> []"
    by (auto simp: writer_new_def vec_written_def)
  obtain s' where s': "hdus_scan slice_size (slice_read_append (\<lambda>n. n \<le> u64_max)) (vec_written (wr_sink w'))
      = Some (Inr \<lparr>hs_list = us, hs_defect = None\<rparr>, s')"
    using steady.scan_parts [OF _ p(1,2) _ p(3)] w'(2) by (auto simp: resident_valid_def u64_max_def)
  have "resident_valid (vec_written (wr_sink w'))" using w'(2) by (simp add: resident_valid_def u64_max_def)
  from scan_finds_layout [OF resident.byte_source_axioms this s'] s' show ?thesis by blast
qed

section \<open>A header that opens with another keyword\<close>

lemma as_bytes_eq: "as_bytes s = as_bytes t \<longleftrightarrow> s = t"
  unfolding as_bytes_def by (rule inj_map_eq_map) (simp add: inj_def)

lemma padded_keyword:
  assumes "CHR '' '' \<notin> set k" and "CHR '' '' \<notin> set l" and "k @ blanks m = l @ blanks n"
  shows "k = l"
proof -
  have "takeWhile (\<lambda>c. c \<noteq> CHR '' '') (k @ blanks m) = k" if "CHR '' '' \<notin> set k" for k m
    using that by (cases m) (auto simp: takeWhile_append takeWhile_eq_all_conv)
  from this [OF assms(1)] this [OF assms(2)] assms(3) show ?thesis by metis
qed

context steady_source
begin

text \<open>A file whose first block does not open with \<^verbatim>\<open>SIMPLE\<close> is refused.\<close>

lemma scan_refused:
  assumes "valid s" and "BLOCK_SIZE \<le> length (bytes_of s)" and "take 8 (bytes_of s) \<noteq> as_bytes ''SIMPLE  ''"
  shows "\<exists>s'. hdus_scan size_of read s = Some (Inl (missing_keyword ''SIMPLE''), s')"
proof -
  let ?sc = "\<lparr>sc_source = s, sc_offset = 0\<rparr>" and ?block = "take BLOCK_SIZE (bytes_of s)"
  obtain s' where r: "read 0 BLOCK_SIZE [] s = (Inr ?block, s')"
    using read_inside [OF assms(1), of 0 BLOCK_SIZE "[]"] assms(2) by auto
  have f: "first_block PrimaryPos ?block = Some (Inl (missing_keyword ''SIMPLE''))"
    using assms(3) by (simp add: first_block_def BLOCK_SIZE_def)
  have "size_of s = length (bytes_of s)" by (rule size_bytes [OF assms(1)])
  then have n: "0 < size_of s" "\<not> size_of s < BLOCK_SIZE" using assms(2) by (auto simp: BLOCK_SIZE_def)
  have "read_header read (size_of s) PrimaryPos [] 0 ?sc = Some (Inl (missing_keyword ''SIMPLE''), ?sc\<lparr>sc_source := s'\<rparr>)"
    using n r f by (subst read_header.simps) (simp add: Let_def)
  then have "next_hdu size_of read 0 ?sc = Some (Inl (missing_keyword ''SIMPLE''), ?sc\<lparr>sc_source := s'\<rparr>)"
    by (simp add: next_hdu_def next_header_def of_index_def take_unit_def)
  then show ?thesis unfolding hdus_scan_def by (subst scan_loop.simps) (simp add: missing_keyword_def)
qed

end


definition misplaced_sample :: header where
  "misplaced_sample = header_of
     [Valued ''BITPIX'' (VInteger (IntI64 8)) None, Valued ''NAXIS'' (VInteger (IntI64 0)) None, Valued ''SIMPLE'' (VLogical True) None]"

lemma misplaced_written:
  "\<exists>w'. write_raw_hdu vec_cursor_ops misplaced_sample [] new_writer = (Inr (), w') \<and> length (vec_written (wr_sink w')) \<le> 10000"
proof -
  have k: "kind_from_header misplaced_sample PrimaryPos = Inr Primary" "header_get misplaced_sample (KeywordName ''XTENSION'') = Inr None"
    "require_integer misplaced_sample (KeywordName ''BITPIX'') = Inr 8" "require_integer misplaced_sample (KeywordName ''NAXIS'') = Inr 0"
    by code_simp+
  then have "header_bitpix misplaced_sample = Inr U8" "header_axes misplaced_sample = Inr []"
    by (simp_all add: header_bitpix_def bitpix_try_from_def header_axes_def header_naxis_def require_usize_def usize_from_def)
  moreover have "padded_len 0 = Some 0" by (simp add: padded_len_eq padding_def BLOCK_SIZE_def)
  ultimately have d: "data_bytes Primary misplaced_sample = Inr 0" by (simp add: data_bytes_def axis_product_def checked_mul_def)
  have "bind (render_records misplaced_sample Unsigned) (\<lambda>(out, at). Inr (length out \<le> 1000)) = Inr True" by code_simp
  then obtain bs where bs: "header_render misplaced_sample Unsigned (Spare 0) = Inr bs" "length bs \<le> 10000" using small_render by blast
  define parts where "parts = \<lparr>hp_primary = None, hp_header = bs, hp_fill = block_fill Primary 0\<rparr>"
  have render: "render_hdu (wr_form new_writer) PrimaryPos misplaced_sample (BodyBytes []) = Inr parts"
    using k d bs by (simp add: parts_def render_hdu_def placed_def body_len_def body_signing_def Let_def writer_new_def)
  have next_pos: "next_position new_writer = Inr PrimaryPos" by (simp add: next_position_def writer_new_def)
  obtain w' where w': "write_raw_hdu vec_cursor_ops misplaced_sample [] new_writer = (Inr (), w')"
    using vec_finish [OF next_pos, of misplaced_sample None] render by (auto simp: write_raw_hdu_def merged_def)
  obtain pos parts' where p: "next_position new_writer = Inr pos" "render_hdu (wr_form new_writer) pos misplaced_sample (BodyBytes []) = Inr parts'"
    "vec_written (wr_sink w') = vec_written (wr_sink new_writer) @ (case hp_primary parts' of Some primary \<Rightarrow> primary | None \<Rightarrow> [])
      @ hp_header parts' @ [] @ hp_fill parts'" using vec.raw_written [OF w'] by metis
  have "parts' = parts" using p(1,2) next_pos render by simp
  then have "vec_written (wr_sink w') = bs"
    using p(3) by (simp add: parts_def writer_new_def vec_written_def [of "\<lparr>cu_bytes = [], cu_position = 0\<rparr>"] block_fill_def padding_def)
  then show ?thesis using w' bs(2) by simp
qed


end
