(* ===== verification/Data_Sum.thy ===== *)
theory Data_Sum
  imports Hdu_Scan_Correct Checksum_Report
begin

text \<open>
  A data unit read through a source's staging buffer, and its checksum summed from whatever bytes a read passes:
  \<^verbatim>\<open>src/reader/data_source.rs\<close> and \<^verbatim>\<open>src/reader/data_checksum.rs\<close>. A source is its operations, the record \<open>source_ops\<close>;
  what they promise is the locale \<open>data_source\<close>, which both sources of \<open>Byte_Source\<close> keep.
\<close>

section \<open>The source\<close>

record 's source_ops =
  src_size :: "'s \<Rightarrow> nat"
  src_slice :: "nat \<Rightarrow> nat \<Rightarrow> 's \<Rightarrow> bytes run \<times> 's"
  src_read_append :: "nat \<Rightarrow> nat \<Rightarrow> bytes \<Rightarrow> 's \<Rightarrow> bytes run \<times> 's"
  src_resident :: "'s \<Rightarrow> bytes option"

definition CHUNK :: nat where "CHUNK = 1048576"

definition offset_at :: "nat \<Rightarrow> nat \<Rightarrow> nat fits_result" where
  "offset_at base delta = ok_or (checked_add u64_max base delta) DataUnitOverflow"

definition resident_range :: "bytes \<Rightarrow> nat \<Rightarrow> nat \<Rightarrow> bytes fits_result" where
  "resident_range bs offset len = bind (check_range offset len (length bs)) (\<lambda>_. Inr (take len (drop offset bs)))"

text \<open>The chunked read of a stream; \<open>each\<close> has a state of its own.\<close>

function chunk_loop ::
  "'s source_ops \<Rightarrow> nat \<Rightarrow> nat \<Rightarrow> nat \<Rightarrow> (nat \<Rightarrow> bytes \<Rightarrow> 'a \<Rightarrow> unit run \<times> 'a) \<Rightarrow> 'a \<Rightarrow> 's \<Rightarrow> unit run \<times> 'a \<times> 's" where
  "chunk_loop ops offset len at each a s =
     (if at < len
      then (case attempt (offset_at offset at) of
              Inl e \<Rightarrow> (Inl e, a, s)
            | Inr chunk_offset \<Rightarrow>
                (case src_slice ops chunk_offset (min CHUNK (len - at)) s of
                   (Inl e, s) \<Rightarrow> (Inl e, a, s)
                 | (Inr bs, s) \<Rightarrow>
                     (case each chunk_offset bs a of
                        (Inl e, a) \<Rightarrow> (Inl e, a, s)
                      | (Inr _, a) \<Rightarrow> chunk_loop ops offset len (at + min CHUNK (len - at)) each a s)))
      else (Inr (), a, s))"
  by pat_completeness auto
termination
  by (relation "measure (\<lambda>(ops, offset, len, at, each, a, s). len - at)") (auto simp: CHUNK_def)

declare chunk_loop.simps [simp del]

definition chunks :: "'s source_ops \<Rightarrow> nat \<Rightarrow> nat \<Rightarrow> (nat \<Rightarrow> bytes \<Rightarrow> 'a \<Rightarrow> unit run \<times> 'a) \<Rightarrow> 'a \<Rightarrow> 's \<Rightarrow> unit run \<times> 'a \<times> 's" where
  "chunks ops offset len each a s =
     (case src_resident ops s of
        Some bs \<Rightarrow>
          (case attempt (resident_range bs offset len) of
             Inl e \<Rightarrow> (Inl e, a, s)
           | Inr part \<Rightarrow> (case each offset part a of (r, a) \<Rightarrow> (r, a, s)))
      | None \<Rightarrow> chunk_loop ops offset len 0 each a s)"

definition unit_len :: "'s source_ops \<Rightarrow> hdu \<Rightarrow> 's \<Rightarrow> nat fits_result" where
  "unit_len ops u s = bind (check_range (hd_data_offset u) (hd_data_bytes u) (src_size ops s)) (\<lambda>_. Inr (hd_data_bytes u))"

definition data_unit_bytes :: "'s source_ops \<Rightarrow> hdu \<Rightarrow> 's \<Rightarrow> bytes run \<times> 's" where
  "data_unit_bytes ops u s =
     (case attempt (unit_len ops u s) of
        Inl e \<Rightarrow> (Inl e, s)
      | Inr len \<Rightarrow> src_read_append ops (hd_data_offset u) len [] s)"

section \<open>The sum\<close>

record data_checksum =
  dc_end :: nat
  dc_next :: nat
  dc_sum :: running

definition data_checksum_of :: "hdu \<Rightarrow> data_checksum" where
  "data_checksum_of u = \<lparr>dc_end = hd_data_offset u + hd_padded u, dc_next = hd_data_offset u, dc_sum = running_new\<rparr>"

definition dc_feed :: "nat \<Rightarrow> bytes \<Rightarrow> data_checksum \<Rightarrow> data_checksum" where
  "dc_feed offset bs d =
     (if offset \<le> dc_next d \<and> dc_next d - offset < length bs \<and> dc_next d < dc_end d
      then let skip = dc_next d - offset; n = min (length bs - skip) (dc_end d - dc_next d)
           in d\<lparr>dc_next := dc_next d + n, dc_sum := running_update (dc_sum d) (take n (drop skip bs))\<rparr>
      else d)"

definition dc_total :: "'s source_ops \<Rightarrow> data_checksum \<Rightarrow> 's \<Rightarrow> u32 run \<times> 's" where
  "dc_total ops d s =
     (case chunks ops (dc_next d) (dc_end d - dc_next d) (\<lambda>offset bs d. (Inr (), dc_feed offset bs d)) d s of
        (Inl e, _, s) \<Rightarrow> (Inl e, s)
      | (Inr _, d, s) \<Rightarrow> (Inr (running_finish (dc_sum d)), s))"

text \<open>The unit is read only when a keyword needs its sum.\<close>

definition dc_finish :: "'s source_ops \<Rightarrow> data_checksum \<Rightarrow> hdu \<Rightarrow> 's \<Rightarrow> checksum_report run \<times> 's" where
  "dc_finish ops d u s =
     (case declared_read (hd_header u) of
        Inl e \<Rightarrow> (Inl e, s)
      | Inr found \<Rightarrow>
          if is_present (de_datasum found) \<or> is_present (de_checksum found)
          then (case dc_total ops d s of
                  (Inl e, s) \<Rightarrow> (Inl e, s)
                | (Inr summed, s) \<Rightarrow> (attempt (checksum_verdict found (hd_header_sum u) (Inr summed)), s))
          else (attempt (checksum_verdict found (hd_header_sum u) (Inr 0)), s))"

section \<open>What a source promises\<close>

locale data_source =
  fixes bytes_of :: "'s \<Rightarrow> bytes" and valid :: "'s \<Rightarrow> bool" and ops :: "'s source_ops"
  assumes slice_range: "valid s \<Longrightarrow> src_slice ops offset len s = (Inr got, s') \<Longrightarrow>
      offset + len \<le> length (bytes_of s) \<and> got = take len (drop offset (bytes_of s))"
    and slice_keeps: "valid s \<Longrightarrow> src_slice ops offset len s = (r, s') \<Longrightarrow> valid s' \<and> bytes_of s' = bytes_of s"
    and append_range: "valid s \<Longrightarrow> src_read_append ops offset len out s = (Inr got, s') \<Longrightarrow>
      offset + len \<le> length (bytes_of s) \<and> got = out @ take len (drop offset (bytes_of s))"
    and resident_bytes: "valid s \<Longrightarrow> src_resident ops s = Some bs \<Longrightarrow> bs = bytes_of s"
begin

text \<open>What a sum holds: the unit's bytes up to the next one to sum.\<close>

definition sums :: "bytes \<Rightarrow> nat \<Rightarrow> nat \<Rightarrow> data_checksum \<Rightarrow> bool" where
  "sums file start end_at d \<longleftrightarrow> dc_end d = end_at \<and> start \<le> dc_next d \<and> dc_next d \<le> end_at
     \<and> dc_next d - start \<le> length (drop start file) \<and> running_inv (dc_sum d) (take (dc_next d - start) (drop start file))"

lemma sums_of: "hd_data_offset u + hd_padded u = end_at \<Longrightarrow> sums file (hd_data_offset u) end_at (data_checksum_of u)"
  by (simp add: sums_def data_checksum_of_def running_inv_new)

lemma sums_feed:
  assumes "sums file start end_at d" and "bs = take n (drop offset file)"
  shows "sums file start end_at (dc_feed offset bs d)
    \<and> dc_next (dc_feed offset bs d) = (if offset \<le> dc_next d \<and> dc_next d < offset + length bs \<and> dc_next d < end_at
         then min end_at (offset + length bs) else dc_next d)"
proof (cases "offset \<le> dc_next d \<and> dc_next d - offset < length bs \<and> dc_next d < dc_end d")
  case False
  then show ?thesis using assms(1) by (auto simp: dc_feed_def sums_def)
next
  case True
  let ?skip = "dc_next d - offset"
  define m where "m = min (length bs - ?skip) (dc_end d - dc_next d)"
  have e: "dc_feed offset bs d = d\<lparr>dc_next := dc_next d + m, dc_sum := running_update (dc_sum d) (take m (drop ?skip bs))\<rparr>"
    using True by (simp add: dc_feed_def m_def Let_def)
  have b: "offset + ?skip = dc_next d" using True by simp
  have "m \<le> length bs - ?skip" by (simp add: m_def)
  then have m: "m + ?skip \<le> n" "dc_next d + m \<le> length file" using True assms(2) by auto
  have "take m (drop ?skip bs) = take m (drop (dc_next d) file)"
    unfolding assms(2) drop_take drop_drop using m(1) b by (simp add: add.commute min_def)
  moreover obtain p where p: "dc_next d = start + p" using assms(1) le_Suc_ex by (auto simp: sums_def)
  then have "drop (dc_next d) file = drop p (drop start file)" "dc_next d - start = p" "dc_next d + m - start = p + m" by (simp_all add: add.commute)
  ultimately have joined: "take (dc_next d - start) (drop start file) @ take m (drop ?skip bs) = take (dc_next d + m - start) (drop start file)"
    by (simp only: take_add)
  have "running_inv (running_update (dc_sum d) (take m (drop ?skip bs))) (take (dc_next d + m - start) (drop start file))"
    using running_inv_update [of "dc_sum d" "take (dc_next d - start) (drop start file)" "take m (drop ?skip bs)"] assms(1)
    unfolding joined by (simp add: sums_def)
  moreover have "m \<le> dc_end d - dc_next d" by (simp add: m_def)
  then have "dc_next d + m \<le> end_at" using assms(1) unfolding sums_def by linarith
  moreover have "dc_next d + m - start \<le> length (drop start file)" using m(2) by simp
  ultimately have "sums file start end_at (dc_feed offset bs d)" using assms(1) unfolding e sums_def by simp
  moreover have "dc_next d + m = min end_at (offset + length bs)"
  proof -
    have "dc_end d = end_at" "dc_next d \<le> end_at" using assms(1) by (simp_all add: sums_def)
    then show ?thesis using True unfolding m_def by (simp add: min_def; linarith)
  qed
  ultimately show ?thesis using True assms(1) unfolding e by (auto simp: sums_def)
qed

lemma chunk_loop_sums:
  assumes "valid s" and "sums (bytes_of s) start end_at d" and "dc_next d = offset + at" and "offset + len = end_at" and "at \<le> len"
    and "chunk_loop ops offset len at (\<lambda>offset bs d. (Inr (), dc_feed offset bs d)) d s = (r, d', s')"
  shows "sums (bytes_of s) start end_at d' \<and> (r = Inr () \<longrightarrow> dc_next d' = end_at)"
  using assms
proof (induction "len - at" arbitrary: at d s rule: less_induct)
  case less
  show ?case
  proof (cases "at < len")
    case False
    then show ?thesis using less.prems by (subst (asm) chunk_loop.simps) auto
  next
    case True
    let ?n = "min CHUNK (len - at)"
    have n: "0 < ?n" "at + ?n \<le> len" using True by (auto simp: CHUNK_def)
    note step = chunk_loop.simps [of ops offset len at "\<lambda>offset bs d. (Inr (), dc_feed offset bs d)" d s]
    show ?thesis
    proof (cases "offset_at offset at")
      case (Inl e)
      then show ?thesis using less.prems True by (auto simp: step)
    next
      case (Inr chunk_offset)
      then have co: "chunk_offset = offset + at" by (auto simp: offset_at_def ok_or_eq_Inr checked_simps)
      obtain res s1 where s1: "src_slice ops chunk_offset ?n s = (res, s1)" by (meson surj_pair)
      note keeps = slice_keeps [OF less.prems(1) s1]
      show ?thesis
      proof (cases res)
        case (Inl e)
        then show ?thesis using less.prems True Inr s1 by (auto simp: step)
      next
        case (Inr bs)
        have range: "chunk_offset + ?n \<le> length (bytes_of s)" "bs = take ?n (drop chunk_offset (bytes_of s))"
          using slice_range [OF less.prems(1) s1 [unfolded Inr]] by simp_all
        then have lb: "length bs = ?n" by simp
        have fed: "sums (bytes_of s) start end_at (dc_feed chunk_offset bs d)" "dc_next (dc_feed chunk_offset bs d) = offset + (at + ?n)"
          using sums_feed [OF less.prems(2) range(2)] less.prems(3,4) n co lb by auto
        have "chunk_loop ops offset len (at + ?n) (\<lambda>offset bs d. (Inr (), dc_feed offset bs d)) (dc_feed chunk_offset bs d) s1 = (r, d', s')"
          using less.prems(6) True \<open>offset_at offset at = Inr chunk_offset\<close> s1 Inr by (simp add: step)
        from less.hyps [OF _ _ _ _ _ _ this] show ?thesis using fed keeps n True less.prems(4) by auto
      qed
    qed
  qed
qed

lemma chunk_loop_keeps:
  "valid s \<Longrightarrow> chunk_loop ops offset len at each a s = (r, a', s') \<Longrightarrow> valid s' \<and> bytes_of s' = bytes_of s"
proof (induction "len - at" arbitrary: at a s rule: less_induct)
  case less
  show ?case
  proof (cases "at < len")
    case False
    then show ?thesis using less.prems by (simp add: chunk_loop.simps)
  next
    case True
    then have n: "len - (at + min CHUNK (len - at)) < len - at" by (simp add: CHUNK_def)
    show ?thesis
      using less.prems True less.hyps [OF n] slice_keeps [OF less.prems(1)]
      by (subst (asm) chunk_loop.simps) (auto split: sum.split_asm prod.split_asm, metis+)
  qed
qed

lemma chunks_keep:
  assumes "valid s" and "chunks ops offset len each a s = (r, a', s')"
  shows "valid s' \<and> bytes_of s' = bytes_of s"
proof (cases "src_resident ops s")
  case None
  then show ?thesis using chunk_loop_keeps [OF assms(1)] assms(2) by (simp add: chunks_def)
qed (use assms in \<open>auto simp: chunks_def split: sum.split_asm prod.split_asm\<close>)

lemma dc_total_keeps:
  assumes "valid s" and "dc_total ops d s = (r, s')"
  shows "valid s' \<and> bytes_of s' = bytes_of s"
proof -
  obtain r1 d1 s1 where c: "chunks ops (dc_next d) (dc_end d - dc_next d) (\<lambda>offset bs d. (Inr (), dc_feed offset bs d)) d s = (r1, d1, s1)"
    by (meson prod_cases3)
  then have "s' = s1" using assms(2) by (simp add: dc_total_def split: sum.split_asm)
  then show ?thesis using chunks_keep [OF assms(1) c] by simp
qed

text \<open>The sum of the unit, wherever what is summed so far ends.\<close>

lemma dc_total_sums:
  assumes v: "valid s" and d: "sums (bytes_of s) start end_at d" and r: "dc_total ops d s = (Inr t, s')" and four: "4 dvd end_at - start"
  shows "end_at \<le> length (bytes_of s) \<or> end_at = start" and "t = accumulate (take (end_at - start) (drop start (bytes_of s))) 0"
proof -
  let ?each = "\<lambda>offset bs d. (Inr (), dc_feed offset bs d)"
  have inv: "dc_next d \<le> end_at" "dc_end d = end_at" using d by (simp_all add: sums_def)
  obtain u d' where c: "chunks ops (dc_next d) (end_at - dc_next d) ?each d s = (Inr u, d', s')" and t: "t = running_finish (dc_sum d')"
    using r inv by (auto simp: dc_total_def split: prod.split_asm sum.split_asm)
  have done_at: "sums (bytes_of s) start end_at d' \<and> dc_next d' = end_at"
  proof (cases "src_resident ops s")
    case None
    then have "chunk_loop ops (dc_next d) (end_at - dc_next d) 0 ?each d s = (Inr u, d', s')" using c by (simp add: chunks_def)
    from chunk_loop_sums [OF v d _ _ _ this] show ?thesis using inv by simp
  next
    case (Some bs)
    then have bs: "bs = bytes_of s" by (rule resident_bytes [OF v])
    have part: "attempt (resident_range bs (dc_next d) (end_at - dc_next d)) = Inr (take (end_at - dc_next d) (drop (dc_next d) bs))"
      and d': "d' = dc_feed (dc_next d) (take (end_at - dc_next d) (drop (dc_next d) bs)) d"
      using c Some by (auto simp: chunks_def resident_range_def attempt_eq_Inr bind_eq_Inr check_range_ok split: sum.split_asm)
    then have "dc_next d + (end_at - dc_next d) \<le> length bs" by (auto simp: resident_range_def attempt_eq_Inr bind_eq_Inr check_range_ok)
    then have "length (take (end_at - dc_next d) (drop (dc_next d) bs)) = end_at - dc_next d" by simp
    then show ?thesis
      using sums_feed [OF d, of "take (end_at - dc_next d) (drop (dc_next d) bs)" "end_at - dc_next d" "dc_next d"] inv unfolding d' bs by auto
  qed
  then have len: "end_at - start \<le> length (drop start (bytes_of s))" by (auto simp: sums_def)
  then show "end_at \<le> length (bytes_of s) \<or> end_at = start" using d by (auto simp: sums_def)
  have "running_inv (dc_sum d') (take (end_at - start) (drop start (bytes_of s)))" using done_at by (auto simp: sums_def)
  then show "t = accumulate (take (end_at - start) (drop start (bytes_of s))) 0"
    unfolding t using running_inv_finish four len by (simp add: min_absorb2)
qed

end

section \<open>Both sources keep it\<close>

definition slice_ops :: "(nat \<Rightarrow> bool) \<Rightarrow> slice_source source_ops" where
  "slice_ops grant = \<lparr>src_size = slice_size, src_slice = slice_slice, src_read_append = slice_read_append grant, src_resident = slice_resident\<rparr>"

interpretation slice_data: data_source "\<lambda>s. s" resident_valid "slice_ops grant" for grant
  by unfold_locales
    (auto simp: slice_ops_def slice_slice_def slice_read_append_def slice_range_def slice_resident_def attempt_eq_Inr bind_eq_Inr check_range_ok)

text \<open>A stream's staging buffer has room for \<open>capacity\<close> bytes before it grows.\<close>

definition stream_ops :: "'r seek_ops \<Rightarrow> (nat \<Rightarrow> bool) \<Rightarrow> nat \<Rightarrow> 'r stream_source source_ops" where
  "stream_ops ops grant capacity =
     \<lparr>src_size = stream_size, src_slice = stream_slice ops grant capacity, src_read_append = stream_read_append ops grant,
      src_resident = stream_resident\<rparr>"

sublocale seek_reader \<subseteq> stream_data: data_source stream_bytes stream_valid "stream_ops ops grant capacity" for grant capacity
proof
  fix s :: "'r stream_source" and offset len out got s' r bs
  have slice: "stream_slice ops grant capacity offset len s = (r, s') \<Longrightarrow> (r, s') = read_at ops grant offset len [] s \<or> (\<exists>e. r = Inl e \<and> s' = s)"
    by (auto simp: stream_slice_def split: sum.split_asm)
  show "stream_valid s \<Longrightarrow> src_slice (stream_ops ops grant capacity) offset len s = (Inr got, s') \<Longrightarrow>
      offset + len \<le> length (stream_bytes s) \<and> got = take len (drop offset (stream_bytes s))"
    using read_at_keeps [of s grant offset len "[]"] by (auto simp: stream_ops_def stream_slice_def split: sum.split_asm)
  show "stream_valid s \<Longrightarrow> src_slice (stream_ops ops grant capacity) offset len s = (r, s') \<Longrightarrow> stream_valid s' \<and> stream_bytes s' = stream_bytes s"
    using read_at_keeps [of s grant offset len "[]" r s'] slice by (auto simp: stream_ops_def)
  show "stream_valid s \<Longrightarrow> src_read_append (stream_ops ops grant capacity) offset len out s = (Inr got, s') \<Longrightarrow>
      offset + len \<le> length (stream_bytes s) \<and> got = out @ take len (drop offset (stream_bytes s))"
    using read_at_keeps by (simp add: stream_ops_def stream_read_append_def)
  show "stream_valid s \<Longrightarrow> src_resident (stream_ops ops grant capacity) s = Some bs \<Longrightarrow> bs = stream_bytes s"
    by (simp add: stream_ops_def stream_resident_def)
qed

section \<open>The sum of a unit\<close>

text \<open>The sum after a run of reads, each of \<open>n\<close> bytes from an offset, in any order.\<close>

fun fed :: "bytes \<Rightarrow> (nat \<times> nat) list \<Rightarrow> data_checksum \<Rightarrow> data_checksum" where
  "fed file [] d = d"
| "fed file ((offset, n) # reads) d = fed file reads (dc_feed offset (take n (drop offset file)) d)"

context data_source
begin

lemma fed_sums: "sums file start end_at d \<Longrightarrow> sums file start end_at (fed file reads d)"
  using sums_feed by (induction reads arbitrary: d) auto

lemma unit_sum:
  assumes "valid s" and "padded_len (hd_data_bytes u) = Some (hd_padded u)"
    and "dc_total ops (fed (bytes_of s) reads (data_checksum_of u)) s = (Inr t, s')"
  shows "t = accumulate (take (hd_padded u) (drop (hd_data_offset u) (bytes_of s))) 0"
proof -
  let ?stop = "hd_data_offset u + hd_padded u"
  have "4 dvd hd_padded u" using assms(2) padding_dvd [of "hd_data_bytes u"] dvd_trans [of 4 BLOCK_SIZE]
    by (auto simp: padded_len_eq BLOCK_SIZE_def)
  then have "4 dvd ?stop - hd_data_offset u" by simp
  from dc_total_sums(2) [OF assms(1) fed_sums [OF sums_of] assms(3) this] show ?thesis by simp
qed

end

text \<open>C1: Whatever a decode has read of a file before, in any order, with gaps, overlaps and bytes of other units, the
  data sum that the finish gives is the sum of the whole block-padded data unit, from any source that keeps the
  reading contract, resident or streamed.\<close>

theorem data_sum_any_reads:
  assumes "data_source bytes_of valid ops" and "valid s" and "padded_len (hd_data_bytes u) = Some (hd_padded u)"
    and "dc_total ops (fed (bytes_of s) reads (data_checksum_of u)) s = (Inr t, s')"
  shows "t = accumulate (take (hd_padded u) (drop (hd_data_offset u) (bytes_of s))) 0"
  using data_source.unit_sum [OF assms] .

lemma data_sum_any_reads_witness:
  "let sample = replicate 2880 0 @ [1, 2, 3, 4] @ replicate 2876 0;
       u = \<lparr>hd_index = 0, hd_header = header_new, hd_kind = Primary, hd_header_sum = 0, hd_header_offset = 0, hd_data_offset = 2880,
            hd_header_blocks = 1, hd_data_bytes = 4, hd_padded = 2880\<rparr>;
       d = fed sample [(3000, 10), (2881, 5), (2880, 3), (2882, 7)] (data_checksum_of u)
   in \<exists>t s'. dc_total (slice_ops (\<lambda>n. True)) d sample = (Inr t, s') \<and> t = accumulate (take 2880 (drop 2880 sample)) 0"
proof -
  define sample :: bytes where "sample = replicate 2880 0 @ [1, 2, 3, 4] @ replicate 2876 0"
  define u :: hdu where "u = \<lparr>hd_index = 0, hd_header = header_new, hd_kind = Primary, hd_header_sum = 0, hd_header_offset = 0,
    hd_data_offset = 2880, hd_header_blocks = 1, hd_data_bytes = 4, hd_padded = 2880\<rparr>"
  define d where "d = fed sample [(3000, 10), (2881, 5), (2880, 3), (2882, 7)] (data_checksum_of u)"
  have len: "length sample = 5760" by (simp add: sample_def)
  have "slice_data.sums sample (hd_data_offset u) 5760 d"
    unfolding d_def by (intro slice_data.fed_sums slice_data.sums_of) (simp add: u_def)
  then have inv: "dc_next d \<le> 5760" "dc_end d = 5760" by (simp_all add: slice_data.sums_def)
  then have "\<exists>t s'. dc_total (slice_ops (\<lambda>n. True)) d sample = (Inr t, s')"
    using len by (simp add: dc_total_def chunks_def slice_ops_def slice_resident_def resident_range_def check_range_def checked_add_def u64_max_def)
  then obtain t s' where t: "dc_total (slice_ops (\<lambda>n. True)) d sample = (Inr t, s')" by blast
  have v: "resident_valid sample" using len by (simp add: resident_valid_def u64_max_def)
  have p: "padded_len (hd_data_bytes u) = Some (hd_padded u)" by (simp add: u_def padded_len_eq padding_def BLOCK_SIZE_def u64_max_def)
  have "t = accumulate (take (hd_padded u) (drop (hd_data_offset u) sample)) 0"
    by (rule data_sum_any_reads [OF slice_data.data_source_axioms v p t [unfolded d_def]])
  then have "\<exists>t s'. dc_total (slice_ops (\<lambda>n. True)) d sample = (Inr t, s') \<and> t = accumulate (take 2880 (drop 2880 sample)) 0"
    using t by (simp add: u_def)
  then show ?thesis unfolding Let_def d_def sample_def u_def .
qed

end
