(* ===== verification/Fits_Editor.thy ===== *)
theory Fits_Editor
  imports Data_Sum Fits_Writer Unit_Lookup
begin

text \<open>
  The editor of a file that exists: \<^verbatim>\<open>src/fits_editor/mod.rs\<close>. The file is any \<^verbatim>\<open>Read + Write + Seek\<close>: its operations
  are the record \<open>edit_ops\<close>, a parameter, and what the standard library documents of them the locale \<open>edit_file\<close>.
\<close>

section \<open>The file and the editor\<close>

record 'f edit_ops =
  ed_seek :: "'f seek_ops"
  ed_write_all :: "bytes \<Rightarrow> 'f \<Rightarrow> bool \<times> 'f"
  ed_flush :: "'f \<Rightarrow> bool \<times> 'f"

record 'f editor =
  ed_file :: 'f
  ed_hdus :: hdus

text \<open>An operation of the file on the editor; its failure is an error of input and output.\<close>

definition on_file :: "('f \<Rightarrow> bool \<times> 'f) \<Rightarrow> 'f editor \<Rightarrow> unit run \<times> 'f editor" where
  "on_file act ed = (case act (ed_file ed) of (done_ok, f) \<Rightarrow> (if done_ok then Inr () else Inl (Err Io), ed\<lparr>ed_file := f\<rparr>))"

text \<open>\<open>None\<close> is a scan that does not end.\<close>

definition editor_open :: "'f edit_ops \<Rightarrow> (nat \<Rightarrow> bool) \<Rightarrow> 'f \<Rightarrow> 'f editor run option" where
  "editor_open ops grant f =
     (case attempt (stream_new (ed_seek ops) f) of
        Inl e \<Rightarrow> Some (Inl e)
      | Inr s \<Rightarrow>
          map_option (\<lambda>(found, s). bind found (\<lambda>hs. Inr \<lparr>ed_file = ss_inner s, ed_hdus = hs\<rparr>))
            (hdus_scan stream_size (stream_read_append (ed_seek ops) grant) s))"

section \<open>The checks before a replace\<close>

definition check_unit :: "hdu \<Rightarrow> header \<Rightarrow> unit run" where
  "check_unit u h =
     bind (kind_from_header h (of_index (hd_index u))) (\<lambda>kind.
       if kind \<noteq> hd_kind u then Inl (Err (HduKindChange (hd_kind u) kind))
       else bind (data_bytes kind h) (\<lambda>data_bytes.
         if data_bytes \<noteq> hd_data_bytes u then Inl (Err (mismatch Bytes (hd_data_bytes u) data_bytes)) else Inr ()))"

text \<open>The data sum of a header that is to have a \<^verbatim>\<open>CHECKSUM\<close>; the file after it.\<close>

definition edit_data_sum :: "'f edit_ops \<Rightarrow> (nat \<Rightarrow> bool) \<Rightarrow> hdu \<Rightarrow> header \<Rightarrow> 'f \<Rightarrow> u32 option run \<times> 'f" where
  "edit_data_sum ops grant u h f =
     (case declared_read h of
        Inl e \<Rightarrow> (Inl e, f)
      | Inr found \<Rightarrow>
          if \<not> has_checksum found then (Inr None, f)
          else (case declared_data_sum found of
                  Some t \<Rightarrow> (Inr (Some t), f)
                | None \<Rightarrow>
                    (case attempt (stream_new (ed_seek ops) f) of
                       Inl e \<Rightarrow> (Inl e, snd (so_seek_end (ed_seek ops) f))
                     | Inr s \<Rightarrow>
                         (case dc_total (stream_ops (ed_seek ops) grant 0) (data_checksum_of u) s of
                            (r, s) \<Rightarrow> (bind r (\<lambda>t. Inr (Some t)), ss_inner s)))))"

definition edit_signing :: "u32 option \<Rightarrow> signing" where
  "edit_signing data_sum = (case data_sum of None \<Rightarrow> Unsigned | Some t \<Rightarrow> WithDataSum t)"

section \<open>Replacing a header\<close>

definition replace_header ::
  "'f edit_ops \<Rightarrow> (nat \<Rightarrow> bool) \<Rightarrow> hdu_selector \<Rightarrow> header \<Rightarrow> 'f editor \<Rightarrow> unit run \<times> 'f editor" where
  "replace_header ops grant selector h ed =
     and_then (hdus_select (ed_hdus ed) selector, ed) (\<lambda>target ed.
     and_then (check_unit target h, ed) (\<lambda>_ ed.
     and_then (case edit_data_sum ops grant target h (ed_file ed) of (r, f) \<Rightarrow> (r, ed\<lparr>ed_file := f\<rparr>)) (\<lambda>data_sum ed.
     and_then (header_render h (edit_signing data_sum) (SpaceBlocks (hd_header_blocks target)), ed) (\<lambda>out ed.
     and_then (hdu_parse (hd_index target)
                \<lparr>hu_bytes = out, hu_sum = accumulate out 0, hu_offset = hd_header_offset target\<rparr>, ed) (\<lambda>u ed.
     and_then (on_file (so_seek_start (ed_seek ops) (hd_header_offset u)) ed) (\<lambda>_ ed.
     and_then (on_file (ed_write_all ops out) ed) (\<lambda>_ ed.
     and_then (on_file (ed_flush ops) ed) (\<lambda>_ ed.
     and_then (hdus_replace (ed_hdus ed) u, ed) (\<lambda>hs ed. (Inr (), ed\<lparr>ed_hdus := hs\<rparr>))))))))))"

text \<open>\<^verbatim>\<open>std::io::copy\<close> of a range of the file to the sink.\<close>

definition copy_range ::
  "'f edit_ops \<Rightarrow> 'w sink_ops \<Rightarrow> nat \<Rightarrow> nat \<Rightarrow> 'f \<times> 'w \<Rightarrow> unit run \<times> 'f \<times> 'w" where
  "copy_range ops out start len st =
     (case so_seek_start (ed_seek ops) start (fst st) of
        (False, f) \<Rightarrow> (Inl (Err Io), f, snd st)
      | (True, f) \<Rightarrow>
          (case so_read_up_to (ed_seek ops) len f of
             (None, f) \<Rightarrow> (Inl (Err Io), f, snd st)
           | (Some bs, f) \<Rightarrow>
               (case sk_write_all out bs (snd st) of
                  (False, w) \<Rightarrow> (Inl (Err Io), f, w)
                | (True, w) \<Rightarrow> (if length bs \<noteq> len then Inl (Err UnexpectedEof) else Inr (), f, w))))"

fun copy_hdus ::
  "'f edit_ops \<Rightarrow> 'w sink_ops \<Rightarrow> nat \<Rightarrow> bytes \<Rightarrow> hdu list \<Rightarrow> nat \<Rightarrow> 'f \<times> 'w \<Rightarrow> nat run \<times> 'f \<times> 'w" where
  "copy_hdus ops out target unit [] end_at st = (Inr end_at, st)"
| "copy_hdus ops out target unit (u # us) end_at st =
     (let data_end = hd_data_offset u + hd_padded u
      in and_then
           (if hd_index u = target
            then (case sk_write_all out unit (snd st) of
                    (False, w) \<Rightarrow> (Inl (Err Io), fst st, w)
                  | (True, w) \<Rightarrow> copy_range ops out (hd_data_offset u) (hd_padded u) (fst st, w))
            else copy_range ops out (hd_header_offset u) (data_end - hd_header_offset u) st)
           (\<lambda>_ st. copy_hdus ops out target unit us data_end st))"

text \<open>\<open>flush\<close> is the sink's.\<close>

definition replace_header_into ::
  "'f edit_ops \<Rightarrow> (nat \<Rightarrow> bool) \<Rightarrow> 'w sink_ops \<Rightarrow> ('w \<Rightarrow> bool \<times> 'w) \<Rightarrow> hdu_selector \<Rightarrow> header \<Rightarrow> 'f editor \<Rightarrow> 'w \<Rightarrow> unit run \<times> 'f editor \<times> 'w" where
  "replace_header_into ops grant out flush selector h ed w =
     and_then (hdus_select (ed_hdus ed) selector, ed, w) (\<lambda>target (ed, w).
     and_then (check_unit target h, ed, w) (\<lambda>_ (ed, w).
     and_then (case edit_data_sum ops grant target h (ed_file ed) of (r, f) \<Rightarrow> (r, ed\<lparr>ed_file := f\<rparr>, w)) (\<lambda>data_sum (ed, w).
     and_then (rendered_records (hd_header target), ed, w) (\<lambda>recs (ed, w).
     let free = (hd_header_blocks target * RECORDS_PER_BLOCK - 1) - recs
     in and_then (header_render h (edit_signing data_sum) (Spare free), ed, w) (\<lambda>unit (ed, w).
        and_then (case copy_hdus ops out (hd_index target) unit (hs_list (ed_hdus ed)) 0 (ed_file ed, w) of
                    (r, f, w) \<Rightarrow> (r, ed\<lparr>ed_file := f\<rparr>, w)) (\<lambda>end_at (ed, w).
        case so_seek_end (ed_seek ops) (ed_file ed) of
          (None, f) \<Rightarrow> (Inl (Err Io), ed\<lparr>ed_file := f\<rparr>, w)
        | (Some file_len, f) \<Rightarrow>
            and_then (if file_len < end_at then (Inl Panic, ed\<lparr>ed_file := f\<rparr>, w)
                      else case copy_range ops out end_at (file_len - end_at) (f, w) of (r, f, w) \<Rightarrow> (r, ed\<lparr>ed_file := f\<rparr>, w))
              (\<lambda>_ (ed, w). case flush w of (done_ok, w) \<Rightarrow> (if done_ok then Inr () else Inl (Err Io), ed, w))))))))"

definition editor_append :: "'f edit_ops \<Rightarrow> 'f editor \<Rightarrow> 'f writer run" where
  "editor_append ops ed =
     (case so_seek_end (ed_seek ops) (ed_file ed) of
        (None, _) \<Rightarrow> Inl (Err Io)
      | (Some file_len, f) \<Rightarrow>
          bind (hdus_last (ed_hdus ed)) (\<lambda>u.
            let hdu_end = hd_data_offset u + hd_padded u
            in if file_len > hdu_end then Inl (Err (TrailingContent hdu_end file_len))
               else if file_len < hdu_end then Inl (Err UnexpectedEof)
               else Inr (writer_continuing f)))"

end
