(* ===== verification/Editor_Correct.thy ===== *)
theory Editor_Correct
  imports Fits_Editor File_Roundtrip
begin

text \<open>
  A header replaced in place: no byte outside its unit changes, and the editor's list still is what the file holds.
  The frame lemmas of a write stand first, then the length of a unit rendered into blocks, then the contract of the
  file and the editor's theorem over it.
\<close>

section \<open>Bytes put in place\<close>

definition put_at :: "nat \<Rightarrow> bytes \<Rightarrow> bytes \<Rightarrow> bytes" where
  "put_at at bs file = take at file @ bs @ drop (at + length bs) file"

lemma put_at_length: "at + length bs \<le> length file \<Longrightarrow> length (put_at at bs file) = length file"
  by (simp add: put_at_def)

lemma put_at_before: "n \<le> at \<Longrightarrow> at \<le> length file \<Longrightarrow> take n (put_at at bs file) = take n file"
  by (simp add: put_at_def min_absorb1)

lemma put_at_after:
  assumes "at \<le> length file" and "at + length bs \<le> n"
  shows "drop n (put_at at bs file) = drop n file"
  using assms by (simp add: put_at_def drop_drop)

lemma put_at_here: "at \<le> length file \<Longrightarrow> take (length bs) (drop at (put_at at bs file)) = bs"
  by (simp add: put_at_def)

text \<open>A range that the write does not reach.\<close>

lemma put_at_apart:
  assumes "at \<le> length file" and "from + n \<le> at \<or> at + length bs \<le> from"
  shows "take n (drop from (put_at at bs file)) = take n (drop from file)"
proof (cases "from + n \<le> at")
  case True
  then show ?thesis
    using put_at_before [OF True assms(1), of bs] by (metis add.commute take_drop)
next
  case False
  then show ?thesis using put_at_after [OF assms(1), of bs "from"] assms(2) by simp
qed

section \<open>The order of the HDUs\<close>

lemma layout_order:
  assumes l: "scan_layout file us" and "i < j" and "j < length us"
  shows "hdu_end (us ! i) \<le> hd_header_offset (us ! j)"
  using assms(2,3)
proof (induction j)
  case (Suc j)
  have next_at: "hd_header_offset (us ! Suc j) = hdu_end (us ! j)"
    using l Suc.prems unfolding scan_layout_def by (metis diff_Suc_1 nat.distinct(1))
  show ?case
  proof (cases "i = j")
    case False
    have "hdu_at file (us ! j)" using l Suc.prems(2) unfolding scan_layout_def by (metis Suc_lessD)
    then have "hd_header_offset (us ! j) \<le> hdu_end (us ! j)" by (simp add: hdu_at_def Let_def hdu_end_def)
    then show ?thesis using Suc False next_at by fastforce
  qed (use next_at in simp)
qed simp

section \<open>The length of a rendered unit\<close>

lemma parses_cards_len: "list_all2 parses_as raws rs \<Longrightarrow> CARD_SIZE dvd length (concat raws)"
  by (induction raws rs rule: list_all2_induct) (auto dest: parses_as_cards)

lemma rendered_length:
  assumes p: "plain_header h" and r: "header_render h signing (SpaceBlocks blocks) = Inr bs" and s: "signing \<noteq> SignPlaceholder"
  shows "length bs = blocks * BLOCK_SIZE"
proof -
  obtain out at spare where o: "render_records h signing = Inr (out, at)"
    "spare_records (length out div CARD_SIZE) (SpaceBlocks blocks) = Inr spare" "bs = sign_unit signing at (fill_unit out spare)"
    using r by (auto simp: header_render_def bind_eq_Inr Let_def split: if_split_asm)
  have inv: "header_inv h" and ok: "list_all record_ok (h_records h)" using p by (simp_all add: plain_header_def)
  have whole: "\<exists>raws rs. out = concat raws \<and> list_all2 parses_as raws rs \<and> (\<forall>a. at = Some a \<longrightarrow> a \<le> length out)"
  proof (cases signing)
    case Unsigned
    obtain st where st: "render_each Unsigned {h_index h ''DATASUM'', h_index h ''CHECKSUM''} 0 (h_records h) ([], None) = Inr st" "st = (out, at)"
      using o(1) Unsigned by (auto simp: render_records_def Let_def bind_eq_Inr)
    have "snd st' = snd st0" if "render_each Unsigned sums i rs st0 = Inr st'" for sums i rs st0 st'
      using that by (induction rs arbitrary: i st0) (auto simp: bind_eq_Inr split: option.split_asm)
    then have "at = None" using st by force
    moreover obtain raws where "renders raws (h_records h)" "out = concat raws" using render_each_unsigned [OF st(1)] st(2) by auto
    ultimately show ?thesis using renders_parse [OF _ ok] by auto
  next
    case (WithDataSum d)
    then have rr: "render_records h (WithDataSum d) = Inr (out, at)" using o(1) by simp
    obtain raws j where raws: "renders raws (signed_header_records h d)" "out = concat raws" "at = Some (length (concat (take j raws)))"
      using signed_out [OF inv rr] by metis
    have "concat raws = concat (take j raws) @ concat (drop j raws)" unfolding concat_append [symmetric] append_take_drop_id ..
    then have "length (concat (take j raws)) \<le> length out" using raws(2) by simp
    then show ?thesis using raws renders_parse [OF raws(1) signed_records_ok [OF ok]] by auto
  qed (use s in simp)
  then have "CARD_SIZE dvd length out"
    using parses_cards_len by auto
  then obtain n where n: "length out = n * CARD_SIZE" by (metis dvd_def mult.commute)
  have spare: "n + 1 + spare = blocks * RECORDS_PER_BLOCK"
  proof -
    have "(n + 1 + RECORDS_PER_BLOCK - 1) div RECORDS_PER_BLOCK \<le> blocks" "spare = blocks * RECORDS_PER_BLOCK - n - 1"
      using o(2) n by (auto simp: spare_records_def Let_def CARD_SIZE_def split: if_split_asm)
    moreover have "n + 1 \<le> (n + 1 + 36 - 1) div 36 * 36" by presburger
    ultimately have "n + 1 \<le> blocks * 36" unfolding RECORDS_PER_BLOCK_def BLOCK_SIZE_def CARD_SIZE_def
      using mult_le_mono1 [of "(n + 1 + 36 - 1) div 36" blocks 36] by simp
    then show ?thesis using \<open>spare = blocks * RECORDS_PER_BLOCK - n - 1\<close>
      by (simp add: RECORDS_PER_BLOCK_def BLOCK_SIZE_def CARD_SIZE_def)
  qed
  have "length (out @ replicate (spare * CARD_SIZE) blank_byte @ end_record) = (n + 1 + spare) * CARD_SIZE"
    using n by (simp add: length_end_record add_mult_distrib)
  then have all: "length (out @ replicate (spare * CARD_SIZE) blank_byte @ end_record) = blocks * BLOCK_SIZE"
    unfolding spare by (simp add: RECORDS_PER_BLOCK_def BLOCK_SIZE_def CARD_SIZE_def)
  have "next_multiple (blocks * BLOCK_SIZE) BLOCK_SIZE = blocks * BLOCK_SIZE" by (simp add: next_multiple_def BLOCK_SIZE_def)
  then have fill: "length (fill_unit out spare) = blocks * BLOCK_SIZE" using all unfolding fill_unit_def Let_def by simp
  have "length out + CARD_SIZE \<le> blocks * BLOCK_SIZE" using all by (simp add: length_end_record)
  then have "a + 11 + length (encode t) \<le> length (fill_unit out spare)" if "at = Some a" for a t
    using whole that fill by (auto simp: encode_length CARD_SIZE_def)
  then show ?thesis
    using o(3) fill overwrite_length by (auto simp: sign_unit_def split: signing.split option.split)
qed

section \<open>A file that is edited\<close>

text \<open>What the standard library documents of a file: a write that is done puts its bytes at the position, one that fails
  a part of them, and a flush changes nothing.\<close>

locale edit_file = seek_reader "ed_seek ops" contents position
  for ops :: "'f edit_ops" and contents :: "'f \<Rightarrow> bytes" and position :: "'f \<Rightarrow> nat" +
  assumes write_done: "position f \<le> length (contents f) \<Longrightarrow> ed_write_all ops bs f = (True, f') \<Longrightarrow>
      contents f' = put_at (position f) bs (contents f)"
    and write_failed: "position f \<le> length (contents f) \<Longrightarrow> ed_write_all ops bs f = (False, f') \<Longrightarrow>
      \<exists>n \<le> length bs. contents f' = put_at (position f) (take n bs) (contents f)"
    and flush_keeps: "ed_flush ops f = (done_ok, f') \<Longrightarrow> contents f' = contents f"
begin

lemma data_sum_keeps:
  assumes "edit_data_sum ops grant u h f = (r, f')"
  shows "contents f' = contents f"
proof (cases "declared_read h")
  case (Inr found)
  show ?thesis
  proof (cases "\<not> has_checksum found \<or> declared_data_sum found \<noteq> None")
    case True
    then show ?thesis using assms Inr by (auto simp: edit_data_sum_def split: if_split_asm option.split_asm)
  next
    case False
    then have e: "has_checksum found" "declared_data_sum found = None" by simp_all
    show ?thesis
    proof (cases "stream_new (ed_seek ops) f")
      case (Inl err)
      then have "f' = snd (so_seek_end (ed_seek ops) f)" using assms Inr e by (simp add: edit_data_sum_def)
      then show ?thesis using seek_end [of f] by (cases "so_seek_end (ed_seek ops) f") auto
    next
      case s: (Inr s)
      note v = stream_new_valid [OF s]
      obtain r1 s1 where s1: "dc_total (stream_ops (ed_seek ops) grant 0) (data_checksum_of u) s = (r1, s1)" by (meson surj_pair)
      have "stream_bytes s1 = stream_bytes s" using stream_data.dc_total_keeps [OF _ s1] v by simp
      moreover have "f' = ss_inner s1" using assms Inr e s s1 by (simp add: edit_data_sum_def)
      ultimately show ?thesis using v by (simp add: stream_bytes_def)
    qed
  qed
qed (use assms in \<open>simp add: edit_data_sum_def\<close>)

lemma data_sum_value:
  assumes "edit_data_sum ops grant u h f = (Inr (Some t), f')" and "declared_read h = Inr found" and "declared_data_sum found = None"
    and "padded_len (hd_data_bytes u) = Some (hd_padded u)"
  shows "t = accumulate (data_unit (contents f) u) 0"
proof -
  have "has_checksum found" using assms(1,2) by (auto simp: edit_data_sum_def split: if_split_asm)
  then obtain s where s: "stream_new (ed_seek ops) f = Inr s"
    using assms(1-3) by (cases "stream_new (ed_seek ops) f") (auto simp: edit_data_sum_def)
  then obtain s' where "dc_total (stream_ops (ed_seek ops) grant 0) (data_checksum_of u) s = (Inr t, s')"
    using assms(1-3) \<open>has_checksum found\<close> by (auto simp: edit_data_sum_def bind_eq_Inr split: prod.split_asm)
  then have "dc_total (stream_ops (ed_seek ops) grant 0) (fed (stream_bytes s) [] (data_checksum_of u)) s = (Inr t, s')" by simp
  from stream_data.unit_sum [OF _ assms(4) this] stream_new_valid [OF s] show ?thesis by (simp add: data_unit_def)
qed

end

section \<open>The list after a replace\<close>

text \<open>An HDU that takes another's place, in the file and in the list: the same offsets and sizes.\<close>

lemma layout_replaced:
  assumes l: "scan_layout file us" and i: "i < length us" and unit: "length unit = hd_header_blocks (us ! i) * BLOCK_SIZE"
    and p: "hdu_parse i \<lparr>hu_bytes = unit, hu_sum = accumulate unit 0, hu_offset = hd_header_offset (us ! i)\<rparr> = Inr u"
    and same: "hd_data_bytes u = hd_data_bytes (us ! i)"
  shows "scan_layout (put_at (hd_header_offset (us ! i)) unit file) (us[i := u])"
    and "data_unit (put_at (hd_header_offset (us ! i)) unit file) (us ! j) = data_unit file (us ! j) \<or> \<not> j < length us"
    and "hd_data_offset u = hd_data_offset (us ! i) \<and> hd_padded u = hd_padded (us ! i)"
proof -
  let ?at = "hd_header_offset (us ! i)" and ?new = "put_at (hd_header_offset (us ! i)) unit file"
  have at_i: "hdu_at file (us ! i)" "hd_index (us ! i) = i" using l i by (simp_all add: scan_layout_def)
  then have o: "hd_data_offset (us ! i) = ?at + length unit" "hd_data_offset (us ! i) \<le> length file" "hdu_end (us ! i) \<le> u64_max"
    "0 < hd_header_blocks (us ! i)"
    using unit by (simp_all add: hdu_at_def Let_def)
  have inside: "?at \<le> length file" "?at + length unit \<le> length file" using o by simp_all
  note f = hdu_parse_fields [OF p]
  have padded_i: "padded_len (hd_data_bytes (us ! i)) = Some (hd_padded (us ! i))"
    using at_i(1) hdu_parse_fields(9) by (auto simp: hdu_at_def Let_def)
  have fu: "hd_index u = i" "hd_header_offset u = ?at" "hd_data_offset u = hd_data_offset (us ! i)" "hd_padded u = hd_padded (us ! i)"
    "hd_header_blocks u = hd_header_blocks (us ! i)"
    using f(1,3,4,5,9) same padded_i o(1) unit by (simp_all add: BLOCK_SIZE_def)
  then show "hd_data_offset u = hd_data_offset (us ! i) \<and> hd_padded u = hd_padded (us ! i)" by simp
  from fu have eu: "hdu_end u = hdu_end (us ! i)" by (simp add: hdu_end_def)
  have here: "unit_bytes ?new ?at (hd_header_blocks (us ! i)) = unit"
    using put_at_here [OF inside(1), of unit] unit by (simp add: unit_bytes_def)
  have new_at: "hdu_at ?new u"
    unfolding hdu_at_def Let_def fu eu here
    using o put_at_length [OF inside(2)] f(2) p unit by simp
  have apart: "hd_data_offset (us ! j) + hd_padded (us ! j) \<le> ?at \<or> ?at + length unit \<le> hd_header_offset (us ! j)"
    if j: "j < length us" "j \<noteq> i" for j
  proof (cases "j < i")
    case True
    then show ?thesis using layout_order [OF l True i] by (simp add: hdu_end_def)
  next
    case False
    then have "hdu_end (us ! i) \<le> hd_header_offset (us ! j)" using layout_order [OF l _ j(1), of i] j(2) by simp
    then show ?thesis using o(1) by (simp add: hdu_end_def)
  qed
  have other: "hdu_at ?new (us ! j)" if j: "j < length us" "j \<noteq> i" for j
  proof -
    have a: "hdu_at file (us ! j)" using l j(1) by (simp add: scan_layout_def)
    then have "hd_data_offset (us ! j) = hd_header_offset (us ! j) + hd_header_blocks (us ! j) * BLOCK_SIZE" by (simp add: hdu_at_def Let_def)
    then have "unit_bytes ?new (hd_header_offset (us ! j)) (hd_header_blocks (us ! j))
        = unit_bytes file (hd_header_offset (us ! j)) (hd_header_blocks (us ! j))"
      unfolding unit_bytes_def using apart [OF j] by (intro put_at_apart [OF inside(1)]) auto
    then show ?thesis using a put_at_length [OF inside(2)] by (simp add: hdu_at_def Let_def)
  qed
  show "scan_layout ?new (us[i := u])"
    unfolding scan_layout_def
  proof (intro allI impI)
    fix j assume j: "j < length (us[i := u])"
    have prev: "hdu_end (us[i := u] ! (j - 1)) = hdu_end (us ! (j - 1))" if "j \<noteq> 0" using eu i j by (cases "j - 1 = i") auto
    have "hd_index (us ! j) = j" "hd_header_offset (us ! j) = (if j = 0 then 0 else hdu_end (us ! (j - 1)))"
      using l j by (simp_all add: scan_layout_def)
    then show "hd_index (us[i := u] ! j) = j \<and> hdu_at ?new (us[i := u] ! j)
        \<and> hd_header_offset (us[i := u] ! j) = (if j = 0 then 0 else hdu_end (us[i := u] ! (j - 1)))"
      using j i fu new_at other prev by (cases "j = i") auto
  qed
  show "data_unit ?new (us ! j) = data_unit file (us ! j) \<or> \<not> j < length us"
  proof (cases "j < length us")
    case True
    have "hd_header_offset (us ! j) \<le> hd_data_offset (us ! j)" using l True by (simp add: scan_layout_def hdu_at_def Let_def)
    then show ?thesis
      unfolding data_unit_def using apart [of j] o(1) True
      by (cases "j = i") (auto intro!: put_at_apart [OF inside(1)])
  qed simp
qed

section \<open>A replace\<close>

lemma and_then_cases:
  assumes "and_then out f = (r, s')"
  obtains (failed) e where "out = (Inl e, s')" and "r = Inl e" | (went_on) a s where "out = (Inr a, s)" and "f a s = (r, s')"
  using assms by (cases out; cases "fst out") auto

lemma find_hdu_member: "find_hdu us selector = Inr (Some u) \<Longrightarrow> u \<in> set us"
  by (induction us) (auto simp: bind_eq_Inr split: if_split_asm)

lemma select_member: "hdus_select hs selector = Inr u \<Longrightarrow> u \<in> set (hs_list hs)"
  by (cases selector) (auto simp: hdus_select_def bind_eq_Inr ok_or_eq_Inr split: if_split_asm option.split_asm dest: find_hdu_member)

text \<open>What a replace did to the file: put a part of a unit of the target's length in the target's place.\<close>

definition replaced_at :: "bytes \<Rightarrow> hdu list \<Rightarrow> nat \<Rightarrow> bytes \<Rightarrow> nat \<Rightarrow> bytes \<Rightarrow> bool" where
  "replaced_at file us i unit n file' \<longleftrightarrow> i < length us \<and> length unit = hd_header_blocks (us ! i) * BLOCK_SIZE
     \<and> file' = put_at (hd_header_offset (us ! i)) (take n unit) file"

text \<open>The HDU that a replace made of its header.\<close>

definition replacement :: "header \<Rightarrow> u32 option \<Rightarrow> bytes \<Rightarrow> hdu \<Rightarrow> hdu \<Rightarrow> bool" where
  "replacement h data_sum unit old new \<longleftrightarrow>
     hdu_parse (hd_index old) \<lparr>hu_bytes = unit, hu_sum = accumulate unit 0, hu_offset = hd_header_offset old\<rparr> = Inr new
     \<and> hd_kind new = hd_kind old \<and> hd_data_bytes new = hd_data_bytes old \<and> agree h (hd_header new)
     \<and> (\<forall>t. data_sum = Some t \<longrightarrow> declared_read (hd_header new) = Inr \<lparr>de_datasum = DeclPresent t, de_checksum = DeclPresent 0\<rparr>
          \<and> combine (hd_header_sum new) t = 0xFFFFFFFF)"

lemma rendered_replacement:
  assumes p: "plain_header h" and c: "check_unit old h = Inr ()" and r: "header_render h (edit_signing data_sum) space = Inr unit"
    and u: "hdu_parse (hd_index old) \<lparr>hu_bytes = unit, hu_sum = accumulate unit 0, hu_offset = hd_header_offset old\<rparr> = Inr new"
  shows "replacement h data_sum unit old new"
proof -
  have s: "edit_signing data_sum \<noteq> SignPlaceholder" by (simp add: edit_signing_def split: option.split)
  obtain rs where rs: "header_parse unit = Inr (header_of (drop_blank_records rs))" "agree h (header_of (drop_blank_records rs))"
    "signing_records (edit_signing data_sum) h rs"
    "\<And>d. edit_signing data_sum = WithDataSum d \<Longrightarrow> combine (accumulate unit 0) d = 0xFFFFFFFF"
    using rendered_parse [OF p r s] by blast
  note f = hdu_parse_fields [OF u]
  have h: "hd_header new = header_of (drop_blank_records rs)" using f(6) rs(1) by simp
  have k: "kind_from_header h (of_index (hd_index old)) = Inr (hd_kind old)" "data_bytes (hd_kind old) h = Inr (hd_data_bytes old)"
    using c by (auto simp: check_unit_def bind_eq_Inr split: if_split_asm)
  have "hd_kind new = hd_kind old" using f(7) k(1) agree_kind [OF rs(2)] h by simp
  moreover from this have "hd_data_bytes new = hd_data_bytes old" using f(8) k(2) agree_data_bytes [OF rs(2)] h by simp
  ultimately show ?thesis
    using u rs(2,3,4) h f(2) signed_declares by (auto simp: replacement_def edit_signing_def signing_records_def)
qed

context edit_file
begin

lemma on_file_write:
  assumes "on_file (ed_write_all ops bs) ed = (r, ed')" and "position (ed_file ed) \<le> length (contents (ed_file ed))"
  shows "ed_hdus ed' = ed_hdus ed \<and> (\<exists>n. contents (ed_file ed') = put_at (position (ed_file ed)) (take n bs) (contents (ed_file ed))
    \<and> (r = Inr () \<longrightarrow> take n bs = bs))"
proof -
  obtain done_ok f where f: "ed_write_all ops bs (ed_file ed) = (done_ok, f)" by (meson surj_pair)
  show ?thesis
  proof (cases done_ok)
    case True
    then have "contents f = put_at (position (ed_file ed)) (take (length bs) bs) (contents (ed_file ed))" using write_done assms(2) f by simp
    then show ?thesis using assms(1) f True by (intro conjI exI [of _ "length bs"]) (auto simp: on_file_def)
  next
    case False
    then have "ed_write_all ops bs (ed_file ed) = (False, f)" using f by simp
    from write_failed [OF assms(2) this] obtain n where "contents f = put_at (position (ed_file ed)) (take n bs) (contents (ed_file ed))" by auto
    then show ?thesis using assms(1) f False by (intro conjI exI [of _ n]) (auto simp: on_file_def)
  qed
qed

lemma on_file_seek:
  assumes "on_file (so_seek_start (ed_seek ops) at) ed = (r, ed')"
  shows "ed_hdus ed' = ed_hdus ed \<and> contents (ed_file ed') = contents (ed_file ed) \<and> (r = Inr () \<longrightarrow> position (ed_file ed') = at)"
  using assms seek_start [of at "ed_file ed"]
  by (cases "so_seek_start (ed_seek ops) at (ed_file ed)") (auto simp: on_file_def split: if_split_asm)

lemma on_file_flush:
  assumes "on_file (ed_flush ops) ed = (r, ed')"
  shows "ed_hdus ed' = ed_hdus ed \<and> contents (ed_file ed') = contents (ed_file ed)"
  using assms flush_keeps [of "ed_file ed"] by (cases "ed_flush ops (ed_file ed)") (auto simp: on_file_def)

lemma replace_effect:
  assumes p: "plain_header h" and l: "scan_layout (contents (ed_file ed)) (hs_list (ed_hdus ed))"
    and r: "replace_header ops grant selector h ed = (r, ed')"
  defines "us \<equiv> hs_list (ed_hdus ed)" and "file \<equiv> contents (ed_file ed)"
  shows "(r \<noteq> Inr () \<and> ed_hdus ed' = ed_hdus ed
      \<and> (contents (ed_file ed') = file
         \<or> (\<exists>i unit n. hdus_select (ed_hdus ed) selector = Inr (us ! i) \<and> replaced_at file us i unit n (contents (ed_file ed')))))
    \<or> (r = Inr () \<and> (\<exists>i data_sum unit u f. hdus_select (ed_hdus ed) selector = Inr (us ! i)
         \<and> edit_data_sum ops grant (us ! i) h (ed_file ed) = (Inr data_sum, f)
         \<and> replaced_at file us i unit (length unit) (contents (ed_file ed')) \<and> replacement h data_sum unit (us ! i) u
         \<and> hs_list (ed_hdus ed') = us[i := u]))"
  using r unfolding replace_header_def
proof (cases rule: and_then_cases)
  case failed
  then show ?thesis by (simp add: file_def)
next
  case (went_on target ed0)
  then have ed0: "ed0 = ed" and target: "hdus_select (ed_hdus ed) selector = Inr target" by auto
  obtain i where i: "i < length us" "target = us ! i" using select_member [OF target] by (auto simp: us_def in_set_conv_nth)
  have idx: "hd_index target = i" and at: "hdu_at file target" using l i by (simp_all add: scan_layout_def us_def file_def)
  have off: "hd_header_offset target \<le> length file" using at by (simp add: hdu_at_def Let_def)
  show ?thesis using went_on(2) unfolding ed0
  proof (cases rule: and_then_cases)
    case failed
    then show ?thesis by (simp add: file_def)
  next
    case (went_on x ed1)
    then have check: "check_unit target h = Inr ()" and ed1: "ed1 = ed" by auto
    show ?thesis using went_on(2) unfolding ed1
    proof (cases rule: and_then_cases)
      case (failed e)
      then show ?thesis using data_sum_keeps [of grant target h "ed_file ed"] by (auto simp: file_def split: prod.split_asm)
    next
      case (went_on data_sum ed2)
      then have sum: "edit_data_sum ops grant target h (ed_file ed) = (Inr data_sum, ed_file ed2)"
        and ed2: "ed_hdus ed2 = ed_hdus ed" "contents (ed_file ed2) = file"
        using data_sum_keeps [of grant target h "ed_file ed"] by (auto simp: file_def split: prod.split_asm)
      show ?thesis using went_on(2)
      proof (cases rule: and_then_cases)
        case failed
        then show ?thesis using ed2 by auto
      next
        case (went_on unit ed3)
        then have render: "header_render h (edit_signing data_sum) (SpaceBlocks (hd_header_blocks target)) = Inr unit" and ed3: "ed3 = ed2" by auto
        have len: "length unit = hd_header_blocks target * BLOCK_SIZE"
          by (rule rendered_length [OF p render]) (simp add: edit_signing_def split: option.split)
        show ?thesis using went_on(2) unfolding ed3
        proof (cases rule: and_then_cases)
          case failed
          then show ?thesis using ed2 by auto
        next
          case (went_on u ed4)
          then have u: "hdu_parse (hd_index target) \<lparr>hu_bytes = unit, hu_sum = accumulate unit 0, hu_offset = hd_header_offset target\<rparr> = Inr u"
            and ed4: "ed4 = ed2" by auto
          note rep = rendered_replacement [OF p check render u]
          have uo: "hd_header_offset u = hd_header_offset target" "hd_index u = i" using hdu_parse_fields [OF u] idx by simp_all
          show ?thesis using went_on(2) unfolding ed4
          proof (cases rule: and_then_cases)
            case (failed e)
            from on_file_seek [OF failed(1)] show ?thesis using ed2 failed(2) by auto
          next
            case (went_on y ed5)
            from on_file_seek [OF went_on(1)] have ed5: "ed_hdus ed5 = ed_hdus ed" "contents (ed_file ed5) = file"
              "position (ed_file ed5) = hd_header_offset target" using ed2 uo by simp_all
            have pos: "position (ed_file ed5) \<le> length (contents (ed_file ed5))" using ed5 off by simp
            show ?thesis using went_on(2)
            proof (cases rule: and_then_cases)
              case (failed e)
              from on_file_write [OF failed(1) pos] show ?thesis
                using ed5 failed(2) i target len by (auto simp: replaced_at_def)
            next
              case (went_on z ed6)
              from on_file_write [OF went_on(1) pos] have ed6: "ed_hdus ed6 = ed_hdus ed" "contents (ed_file ed6) = put_at (hd_header_offset target) unit file"
                using ed5 by auto
              show ?thesis using went_on(2)
              proof (cases rule: and_then_cases)
                case (failed e)
                from on_file_flush [OF failed(1)] have "replaced_at file us i unit (length unit) (contents (ed_file ed'))"
                  using ed6 failed(2) i target len by (simp add: replaced_at_def)
                then show ?thesis using on_file_flush [OF failed(1)] ed6 failed(2) i target by auto
              next
                case (went_on z' ed7)
                from on_file_flush [OF went_on(1)] have ed7: "ed_hdus ed7 = ed_hdus ed" "contents (ed_file ed7) = put_at (hd_header_offset target) unit file"
                  using ed6 by simp_all
                have "hdus_replace (ed_hdus ed7) u = Inr ((ed_hdus ed)\<lparr>hs_list := us[i := u]\<rparr>)"
                  using ed7(1) uo(2) i(1) by (simp add: hdus_replace_def us_def)
                then have "r = Inr ()" "ed' = ed7\<lparr>ed_hdus := (ed_hdus ed)\<lparr>hs_list := us[i := u]\<rparr>\<rparr>" using went_on(2) by auto
                moreover have "replaced_at file us i unit (length unit) (contents (ed_file ed'))"
                  using calculation ed7 i target len by (simp add: replaced_at_def)
                ultimately show ?thesis using i(2) target sum rep by auto
              qed
            qed
          qed
        qed
      qed
    qed
  qed
qed

lemma replace_signs:
  assumes "edit_data_sum ops grant u h f = (Inr data_sum, f')" and "declared_read h = Inr found" and "has_checksum found"
    and "declared_data_sum found = None" and "padded_len (hd_data_bytes u) = Some (hd_padded u)"
  shows "data_sum = Some (accumulate (data_unit (contents f) u) 0)"
proof -
  obtain t where "data_sum = Some t"
    using assms(1-4) by (auto simp: edit_data_sum_def bind_eq_Inr split: sum.split_asm prod.split_asm)
  then show ?thesis using data_sum_value [of grant u h f t f' found] assms by simp
qed

end

section \<open>The editor's contract\<close>

text \<open>Two files that differ only in the \<open>n\<close> bytes from \<open>at\<close>.\<close>

definition same_outside :: "nat \<Rightarrow> nat \<Rightarrow> bytes \<Rightarrow> bytes \<Rightarrow> bool" where
  "same_outside at n file file' \<longleftrightarrow> length file' = length file \<and> take at file' = take at file \<and> drop (at + n) file' = drop (at + n) file"

lemma replaced_outside:
  assumes l: "scan_layout file us" and r: "replaced_at file us i unit n file'"
  shows "same_outside (hd_header_offset (us ! i)) (hd_header_blocks (us ! i) * BLOCK_SIZE) file file'"
proof -
  let ?at = "hd_header_offset (us ! i)"
  have e: "length unit = hd_header_blocks (us ! i) * BLOCK_SIZE" "file' = put_at ?at (take n unit) file" "hdu_at file (us ! i)"
    using l r by (simp_all add: replaced_at_def scan_layout_def)
  then have inside: "?at \<le> length file" "?at + length unit \<le> length file" by (simp_all add: hdu_at_def Let_def)
  then have part: "?at + length (take n unit) \<le> length file" "?at + length (take n unit) \<le> ?at + length unit" by auto
  show ?thesis
    unfolding same_outside_def e(1) [symmetric] e(2)
    using put_at_length [OF part(1)] put_at_before [OF order_refl inside(1)] put_at_after [OF inside(1) part(2)] by simp
qed

text \<open>C1: A header replaced in place changes no byte of the file outside the unit it replaces, even when a write fails
  halfway. When it is done, the editor's list, with the new HDU in the old one's place, is what a scan of the new file
  finds; every data unit is what it was; the new HDU has the old kind and data size and answers every keyword but the
  two checksums as the header given; and where that header asks for a checksum and declares no data sum, the two sums
  of the file's HDU make all ones. When it fails, the list is what it was.\<close>

theorem replace_header_in_place:
  assumes "edit_file ops contents position" and "plain_header h" and "scan_layout (contents (ed_file ed)) (hs_list (ed_hdus ed))"
    and "replace_header ops grant selector h ed = (r, ed')"
  shows "case r of
      Inl e \<Rightarrow> ed_hdus ed' = ed_hdus ed \<and> (contents (ed_file ed') = contents (ed_file ed)
        \<or> (\<exists>old. hdus_select (ed_hdus ed) selector = Inr old
             \<and> same_outside (hd_header_offset old) (hd_header_blocks old * BLOCK_SIZE) (contents (ed_file ed)) (contents (ed_file ed'))))
    | Inr _ \<Rightarrow> \<exists>i old new. i < length (hs_list (ed_hdus ed)) \<and> hdus_select (ed_hdus ed) selector = Inr old \<and> old = hs_list (ed_hdus ed) ! i
        \<and> hs_list (ed_hdus ed') = (hs_list (ed_hdus ed))[i := new] \<and> scan_layout (contents (ed_file ed')) (hs_list (ed_hdus ed'))
        \<and> same_outside (hd_header_offset old) (hd_header_blocks old * BLOCK_SIZE) (contents (ed_file ed)) (contents (ed_file ed'))
        \<and> (\<forall>u \<in> set (hs_list (ed_hdus ed)). data_unit (contents (ed_file ed')) u = data_unit (contents (ed_file ed)) u)
        \<and> agree h (hd_header new) \<and> hd_kind new = hd_kind old \<and> hd_data_bytes new = hd_data_bytes old
        \<and> (\<forall>found. declared_read h = Inr found \<and> has_checksum found \<and> declared_data_sum found = None \<longrightarrow>
             combine (hd_header_sum new) (accumulate (data_unit (contents (ed_file ed')) new) 0) = 0xFFFFFFFF)"
proof (cases r)
  case (Inl e)
  then show ?thesis
    using edit_file.replace_effect [OF assms] replaced_outside [OF assms(3)] by auto
next
  case (Inr x)
  let ?us = "hs_list (ed_hdus ed)" and ?file = "contents (ed_file ed)" and ?new = "contents (ed_file ed')"
  obtain i data_sum unit u f where e: "hdus_select (ed_hdus ed) selector = Inr (?us ! i)"
    "edit_data_sum ops grant (?us ! i) h (ed_file ed) = (Inr data_sum, f)" "replaced_at ?file ?us i unit (length unit) ?new"
    "replacement h data_sum unit (?us ! i) u" "hs_list (ed_hdus ed') = ?us[i := u]"
    using edit_file.replace_effect [OF assms] Inr by auto
  have i: "i < length ?us" "length unit = hd_header_blocks (?us ! i) * BLOCK_SIZE" "?new = put_at (hd_header_offset (?us ! i)) unit ?file"
    using e(3) by (simp_all add: replaced_at_def)
  have idx: "hd_index (?us ! i) = i" "hdu_at ?file (?us ! i)" using assms(3) i(1) by (simp_all add: scan_layout_def)
  have rep: "hdu_parse i \<lparr>hu_bytes = unit, hu_sum = accumulate unit 0, hu_offset = hd_header_offset (?us ! i)\<rparr> = Inr u"
    "hd_kind u = hd_kind (?us ! i)" "hd_data_bytes u = hd_data_bytes (?us ! i)" "agree h (hd_header u)"
    "\<And>t. data_sum = Some t \<Longrightarrow> combine (hd_header_sum u) t = 0xFFFFFFFF"
    using e(4) idx(1) by (simp_all add: replacement_def)
  note laid = layout_replaced [OF assms(3) i(1,2) rep(1,3), folded i(3)]
  have units: "data_unit ?new v = data_unit ?file v" if "v \<in> set ?us" for v using that laid(2) by (auto simp: in_set_conv_nth)
  then have "data_unit ?new u = data_unit ?file (?us ! i)" using laid(3) i(1) by (simp add: data_unit_def)
  moreover have "padded_len (hd_data_bytes (?us ! i)) = Some (hd_padded (?us ! i))"
    using idx(2) hdu_parse_fields(9) by (auto simp: hdu_at_def Let_def)
  ultimately have "combine (hd_header_sum u) (accumulate (data_unit ?new u) 0) = 0xFFFFFFFF"
    if "declared_read h = Inr found" "has_checksum found" "declared_data_sum found = None" for found
    using edit_file.replace_signs [OF assms(1) e(2) that] rep(5) by simp
  then show ?thesis
    using Inr e(1,5) i(1) rep(2-4) laid(1) units replaced_outside [OF assms(3) e(3)] by auto
qed

section \<open>Cursors as files\<close>

text \<open>A cursor over a vector, and one over a slice, whose write stops at its end.\<close>

definition vec_edit_ops :: "cursor edit_ops" where
  "vec_edit_ops = \<lparr>ed_seek = cursor_ops, ed_write_all = sk_write_all vec_cursor_ops, ed_flush = (\<lambda>c. (True, c))\<rparr>"

definition slice_edit_ops :: "cursor edit_ops" where
  "slice_edit_ops = \<lparr>ed_seek = cursor_ops, ed_write_all = sk_write_all slice_cursor_ops, ed_flush = (\<lambda>c. (True, c))\<rparr>"

interpretation vec_file: edit_file vec_edit_ops cu_bytes cu_position
  by (simp add: edit_file_def vec_edit_ops_def cursor.seek_reader_axioms edit_file_axioms_def)
    (auto simp: vec_cursor_ops_def Let_def put_at_def)

interpretation slice_file: edit_file slice_edit_ops cu_bytes cu_position
proof -
  have cut: "cu_bytes f' = put_at (cu_position f) (take (length (cu_bytes f) - cu_position f) bs) (cu_bytes f)
      \<and> (done_ok \<longrightarrow> take (length (cu_bytes f) - cu_position f) bs = bs)"
    if "sk_write_all slice_cursor_ops bs f = (done_ok, f')" for bs f done_ok f'
    using that by (auto simp: slice_cursor_ops_def Let_def put_at_def)
  have "\<exists>n \<le> length bs. cu_bytes f' = put_at (cu_position f) (take n bs) (cu_bytes f)"
    if w: "sk_write_all slice_cursor_ops bs f = (False, f')" for bs f f'
    using cut [OF w] by (intro exI [of _ "min (length bs) (length (cu_bytes f) - cu_position f)"]) (auto simp: min_def)
  then show "edit_file slice_edit_ops cu_bytes cu_position"
    using cut by (simp add: edit_file_def slice_edit_ops_def cursor.seek_reader_axioms edit_file_axioms_def)
qed

section \<open>A sample replace\<close>

lemma one_block: "\<exists>bs. header_render empty_primary Unsigned (SpaceBlocks 1) = Inr bs"
proof -
  have "bind empty_primary_header (\<lambda>h. bind (render_records h Unsigned) (\<lambda>(out, at). Inr (length out \<le> 1000))) = Inr True" by code_simp
  then obtain out at where o: "render_records empty_primary Unsigned = Inr (out, at)" "length out \<le> 1000"
    unfolding bind_empty_primary bind_eq_Inr by auto
  then have n: "length out div 80 \<le> 12" by simp
  then have "(length out div 80 + 1 + 36 - 1) div 36 \<le> 1" by simp
  moreover have "checked_header_len (length out div 80) (35 - length out div 80) = Some 2880"
    using n by (simp add: checked_header_len_def checked_add_def checked_mul_def usize_max_def u64_max_def CARD_SIZE_def)
  ultimately show ?thesis
    using o(1) by (auto simp: header_render_def spare_records_def Let_def CARD_SIZE_def RECORDS_PER_BLOCK_def BLOCK_SIZE_def
      ok_or_def next_multiple_def i64_max_def)
qed

text \<open>A file of one empty primary HDU, and the header that it has put in its place again.\<close>

lemma replace_header_in_place_witness:
  "\<exists>file old ed' new. scan_layout file [old] \<and> agree empty_primary (hd_header old)
    \<and> replace_header vec_edit_ops (\<lambda>n. True) (SelIndex 0) empty_primary
         \<lparr>ed_file = \<lparr>cu_bytes = file, cu_position = 7\<rparr>, ed_hdus = \<lparr>hs_list = [old], hs_defect = None\<rparr>\<rparr> = (Inr (), ed')
    \<and> hs_list (ed_hdus ed') = [new] \<and> scan_layout (cu_bytes (ed_file ed')) [new] \<and> agree empty_primary (hd_header new)"
proof -
  obtain unit where unit: "header_render empty_primary Unsigned (SpaceBlocks 1) = Inr unit" using one_block by blast
  have len: "length unit = 2880" using rendered_length [OF empty_primary_plain unit] by (simp add: BLOCK_SIZE_def)
  obtain old where old: "hdu_parse 0 \<lparr>hu_bytes = unit, hu_sum = accumulate unit 0, hu_offset = 0\<rparr> = Inr old"
    "same_hdu empty_primary Primary 0 Unsigned old" "padded_len 0 = Some (hd_padded old)"
    using rendered_hdu [OF empty_primary_plain _ unit, of 0 Primary 0 0] empty_primary_opens empty_primary_kind
    by (auto simp: of_index_def head_keyword_def)
  note f = hdu_parse_fields [OF old(1)]
  have p: "hd_padded old = 0" using old(3) by (simp add: padded_len_eq padding_def BLOCK_SIZE_def u64_max_def)
  have fields: "hd_index old = 0" "hd_header_offset old = 0" "hd_header_blocks old = 1" "hd_data_offset old = 2880"
    "hd_kind old = Primary" "hd_data_bytes old = 0" "agree empty_primary (hd_header old)"
    using f len old(2) by (simp_all add: BLOCK_SIZE_def same_hdu_def)
  have layout: "scan_layout unit [old]"
    using fields p old(1) len by (simp add: scan_layout_def hdu_at_def Let_def unit_bytes_def hdu_end_def BLOCK_SIZE_def u64_max_def)
  define ed where "ed = \<lparr>ed_file = \<lparr>cu_bytes = unit, cu_position = 7\<rparr>, ed_hdus = \<lparr>hs_list = [old], hs_defect = None\<rparr>\<rparr>"
  have check: "check_unit old empty_primary = Inr ()"
    using fields empty_primary_kind by (simp add: check_unit_def of_index_def)
  have "bind empty_primary_header (\<lambda>h. bind (declared_read h) (\<lambda>d. Inr (has_checksum d))) = Inr False" by code_simp
  then have sum: "edit_data_sum vec_edit_ops (\<lambda>n. True) old empty_primary f' = (Inr None, f')" for f'
    by (auto simp: edit_data_sum_def bind_empty_primary bind_eq_Inr)
  have "\<exists>ed'. replace_header vec_edit_ops (\<lambda>n. True) (SelIndex 0) empty_primary ed = (Inr (), ed')"
    using check sum unit old(1) fields
    by (simp add: replace_header_def ed_def hdus_select_def edit_signing_def on_file_def vec_edit_ops_def cursor_ops_def vec_cursor_ops_def
      Let_def hdus_replace_def)
  then obtain ed' where r: "replace_header vec_edit_ops (\<lambda>n. True) (SelIndex 0) empty_primary ed = (Inr (), ed')" by blast
  have "scan_layout (cu_bytes (ed_file ed)) (hs_list (ed_hdus ed))" using layout by (simp add: ed_def)
  from replace_header_in_place [OF vec_file.edit_file_axioms empty_primary_plain this r]
  obtain new where "hs_list (ed_hdus ed') = [new]" "scan_layout (cu_bytes (ed_file ed')) [new]" "agree empty_primary (hd_header new)"
    by (auto simp: ed_def)
  then show ?thesis using layout fields(7) r unfolding ed_def by blast
qed

end
