(* ===== verification/Spec2Isabelle.thy ===== *)
theory Spec2Isabelle
  imports Checksum_Encode Rice_Correct Plio_Correct Tile_Cover Endian Table_Format_Correct Header_Index Hierarch_Roundtrip First_Failure Gzip Gzip_Correct Chain_Roundtrip Header_Roundtrip Checksum_Report Signed_Header Signed_Report Reserved_Keywords Hdu_Kind Byte_Source Hdu_Scan Hdu_Scan_Correct Image_View Fits_Writer Record_Opens Header_Unit Hdu_Forward Writer_Effect Unit_Lookup Cursor_Sink File_Roundtrip Data_Unit File_Properties Data_Sum Fits_Editor Editor_Correct
begin

text \<open>
  A model of \<^verbatim>\<open>fits-well\<close>, a Rust library that reads and writes FITS files, with the theorems that make its
  parts correct. A FITS file is a sequence of header and data units. A header is 80-byte records on a grid of
  2880-byte blocks; the data unit after it is an array, a table or a table whose cells hold compressed tiles.

  \<^bold>\<open>Ground.\<close> \<open>Prelude\<close> holds the machine types, the error monad \<open>bind\<close> over a sum, checked arithmetic as
  options, big-endian words and chunks. \<open>Fits_Types\<close> is the error enumeration of \<^verbatim>\<open>src/fits_error.rs\<close>; a
  \<open>run\<close> tells an error from a panic (\<^verbatim>\<open>expect\<close>, \<^verbatim>\<open>unreachable!\<close>, an index out of bounds). \<open>Blocks\<close> is the block
  grid and the fallible allocation, whose allocator is a parameter.

  \<^bold>\<open>Checksums\<close> (\<^verbatim>\<open>src/checksum\<close>). \<open>Checksum\<close> proves that the sum with deferred carries is the ones'-complement
  sum and does not depend on how the bytes are split; \<open>Checksum_Encode\<close> that the encoded value makes its unit
  sum to negative zero and is alphanumeric.

  \<^bold>\<open>Tile codecs\<close> (\<^verbatim>\<open>src/compression\<close>). \<open>Bit_Stream\<close>, \<open>Rice\<close>, \<open>Rice_Bits\<close>, \<open>Rice_Correct\<close> are \<^verbatim>\<open>RICE_1\<close>;
  \<open>Plio\<close>, \<open>Plio_Correct\<close> are \<^verbatim>\<open>PLIO_1\<close>, with the one input the encoder gets wrong. \<open>Plane\<close> is the element
  types, \<open>Endian\<close> the big-endian runs, \<open>Tile_Geometry\<close> and \<open>Tile_Cover\<close> the partition of an image into tiles.
  \<open>First_Failure\<close> is the parallel run of the tiles as a step relation whose every interleaving gives the
  result of the sequential loop.

  \<^bold>\<open>Table formats\<close> (\<^verbatim>\<open>src/bintable\<close>). \<open>Table_Format\<close>, \<open>Table_Format_Correct\<close>: element kinds, \<^verbatim>\<open>TFORMn\<close>,
  \<^verbatim>\<open>TDIMn\<close>, heap descriptors.

  \<^bold>\<open>Headers\<close> (\<^verbatim>\<open>src/header_model\<close>, \<^verbatim>\<open>src/keyword.rs\<close>, \<^verbatim>\<open>src/inline_name.rs\<close>). \<open>Text\<close> and \<open>Float64\<close> are the
  string and float functions of Rust's standard library the parse and the render use; \<open>Header_Names\<close>,
  \<open>Header_Value\<close> the names and values; \<open>Card\<close>, \<open>Card_Render\<close> one record's parse and render; \<open>First_Index\<close>
  the index of first occurrences, with the locale \<open>keyed\<close> that states what an index promises its client;
  \<open>Header_Model\<close> the header and all its operations. \<open>Value_Correct\<close>, \<open>Value_Text\<close>, \<open>Card_Line\<close>,
  \<open>Card_Roundtrip\<close>, \<open>Hierarch_Roundtrip\<close> show that what is written reads back; \<open>Header_Index\<close> that both
  indexes are those of a scan in every reachable header (\<open>header_built\<close>, by rule induction), so that a lookup
  refines a search.

  \<^bold>\<open>Conventions.\<close> A struct is a \<open>record\<close>, an enum a \<open>datatype\<close>, a word of w bits a \<open>w word\<close> or a bounded
  \<open>nat\<close> or \<open>int\<close> with its checks written out; \<^verbatim>\<open>usize\<close> has 64 bits. A buffer that the code reuses is its
  contents. An \<^verbatim>\<open>f64\<close> is its bits; \<open>shortest\<close> tries 1 to 17 digits, which always suffice for a finite double,
  and falls back to the exact decimal, so it is total.

  \<^bold>\<open>Not modelled.\<close> The world coordinates, quantization and physical scaling are floating-point computations over
  libm; the readers and builders are glue over sources and typed containers; \<^verbatim>\<open>Display\<close> texts of errors, heap
  accounting, benches and test support carry no behaviour of the format.
\<close>

end
